(* ===== verification/Prelude.thy ===== *)
theory Prelude
  imports Main "HOL-Library.Word"
begin

text \<open>
  Shared vocabulary of the development: the C++ machine integers, the collections of rewrite
  rules the component theories fill, and generic lemmas on lists, options and words.
  \<open>std::uint64_t\<close> and \<open>std::int64_t\<close> are both \<open>64 word\<close>; a signed reading is \<open>sint\<close>, a
  signed comparison \<open><s\<close> or \<open>\<le>s\<close>, and \<open>static_cast\<close> between the two is the
  identity on the bits.
\<close>

type_synonym u64 = "64 word"
type_synonym i64 = "64 word"

named_theorems book_simps \<open>evaluation of order book operations\<close>
named_theorems engine_simps \<open>evaluation of matching engine operations\<close>
named_theorems server_simps \<open>evaluation of server operations\<close>

subsection \<open>Lists sorted by a relation\<close>

lemma sorted_wrt_filter [intro]: "sorted_wrt R xs \<Longrightarrow> sorted_wrt R (filter P xs)"
  by (induction xs) auto

lemma sorted_wrt_tl [intro]: "sorted_wrt R xs \<Longrightarrow> sorted_wrt R (tl xs)"
  by (cases xs) auto

lemma distinct_map_filterI [intro]: "distinct (map f xs) \<Longrightarrow> distinct (map f (filter P xs))"
  by (induction xs) auto

lemma length_filter_distinct:
  "distinct (map f xs) \<Longrightarrow>
   length xs = length (filter (\<lambda>x. f x \<noteq> i) xs) + (if i \<in> f ` set xs then 1 else 0)"
proof (induction xs)
  case (Cons x xs)
  have IH: "length xs = length (filter (\<lambda>x. f x \<noteq> i) xs) + (if i \<in> f ` set xs then 1 else 0)"
    using Cons by simp
  show ?case
  proof (cases "f x = i")
    case True
    then have "i \<notin> f ` set xs" using Cons.prems by simp
    with True IH show ?thesis by simp
  next
    case False
    with IH show ?thesis by auto
  qed
qed simp

lemma takeWhile_append_split:
  "(\<And>x. x \<in> set xs \<Longrightarrow> P x) \<Longrightarrow> takeWhile P (xs @ ys) = xs @ takeWhile P ys"
  by (induction xs) auto

lemma dropWhile_append_split:
  "(\<And>x. x \<in> set xs \<Longrightarrow> P x) \<Longrightarrow> dropWhile P (xs @ ys) = dropWhile P ys"
  by (induction xs) auto

lemma takeWhile_none: "(\<And>x. x \<in> set xs \<Longrightarrow> \<not> P x) \<Longrightarrow> takeWhile P xs = []"
  by (cases xs) auto

lemma dropWhile_none: "(\<And>x. x \<in> set xs \<Longrightarrow> \<not> P x) \<Longrightarrow> dropWhile P xs = xs"
  by (cases xs) auto

subsection \<open>Unsigned 64-bit arithmetic\<close>

lemma unat_minus_min1: "unat ((a::u64) - min a b) = unat a - unat (min a b)"
  by (rule unat_sub) simp

lemma unat_minus_min2: "unat ((b::u64) - min a b) = unat b - unat (min a b)"
  by (rule unat_sub) simp

lemma min_gt_zero_word: "(0::u64) < a \<Longrightarrow> 0 < b \<Longrightarrow> 0 < min a b"
  by (simp add: min_def)

lemma word_minus_min_zero: "(b::u64) - min a b = 0 \<longleftrightarrow> b \<le> a"
  by (auto simp: min_def)

lemma unat_gt_0_word: "0 < unat (w::u64) \<longleftrightarrow> 0 < w"
  by (simp add: unat_gt_0 word_neq_0_conv)

lemma unat_add_diff: "(a::u64) \<le> b \<Longrightarrow> unat a + unat (b - a) = unat b"
  by (simp add: unat_sub word_le_nat_alt)

lemma unat_less_64: "unat (w::u64) < 2 ^ 64"
  using unsigned_less [of w] by simp

lemma unat_mod_64 [simp]: "unat (w::u64) mod 18446744073709551616 = unat w"
  using unat_less_64 [of w] by simp

lemma unat_plus1: "(c::u64) < d \<Longrightarrow> unat (c + 1) = Suc (unat c)"
  using unat_less_64 [of d] by (simp add: unat_word_ariths word_less_nat_alt)

lemma i64_nonneg: assumes "(w::i64) \<le> 0x7FFFFFFFFFFFFFFF" shows "sint w = int (unat w)"
proof -
  have "0 \<le> uint w" "uint w < 2 ^ 63" using assms by (simp_all add: word_le_def)
  then have "signed_take_bit 63 (uint w) = uint w" 
    using signed_take_bit_int_eq_self [of 63 "uint w"] by (meson dual_order.trans neg_le_0_iff_le zero_le_numeral zero_le_power)
  then show ?thesis by (simp add: sint_uint)
qed
lemma i64_pos: assumes "0 < (w::i64)" and "w \<le> 0x7FFFFFFFFFFFFFFF" shows "0 <s w"
proof -
  have "0 < uint w" using assms(1) by (simp add: word_less_def)
  then show ?thesis unfolding word_sless_alt i64_nonneg [OF assms(2)] by simp
qed
lemma i64_pos_unat: assumes "0 <s (w::i64)" shows "0 < unat w" "sint w = int (unat w)"
proof -
  have "\<not> bit w 63" using assms bit_last_iff [of w] by (simp add: word_sless_alt)
  then have b: "\<not> bit (uint w) 63" by (simp add: bit_uint_iff)
  have "uint w = take_bit (Suc 63) (uint w)" by (rule bintr_uint [symmetric]) simp
  also have "\<dots> = take_bit 63 (uint w)" using b unfolding take_bit_Suc_from_most by simp
  also have "\<dots> = sint w" using b by (simp add: sint_uint signed_take_bit_eq_if_positive)
  finally show "sint w = int (unat w)" by simp
  show "0 < unat w" using assms by (auto simp: word_sless_alt unat_gt_0)
qed

lemma i64_nonneg_le: "0 \<le>s (w::i64) \<longleftrightarrow> w \<le> 0x7FFFFFFFFFFFFFFF"
proof
  assume "w \<le> 0x7FFFFFFFFFFFFFFF"
  then show "0 \<le>s w" by (simp add: i64_nonneg word_sle_eq)
next
  assume "0 \<le>s w"
  then have "w = 0 \<or> 0 <s w" by (auto simp: word_sle_eq word_sless_alt order_le_less signed_eq_0_iff)
  moreover have "w \<le> 0x7FFFFFFFFFFFFFFF" if "0 <s w"
    using i64_pos_unat(2) [OF that] sint_range_size [of w] by (simp add: word_size word_le_def)
  ultimately show "w \<le> 0x7FFFFFFFFFFFFFFF" by auto
qed

lemma unat_word_min: "unat (min a (b::u64)) = min (unat a) (unat b)"
  by (auto simp: min_def word_le_nat_alt)

text \<open>The decimal digits of a number.\<close>

fun digits :: "nat \<Rightarrow> string" where
  "digits n = (if n < 10 then [char_of (48 + n)] else digits (n div 10) @ [char_of (48 + n mod 10)])"

declare digits.simps [simp del]

end
