(* ===== verification/IEEE_Double.thy ===== *)
theory IEEE_Double
  imports Prelude
begin

text \<open>
  The C++ \<open>double\<close> (IEEE 754 binary64), as far as the order book needs it: prices are stored,
  copied and compared with \<open><\<close>, \<open>>\<close> and \<open><=\<close>. A double is its 64 bits. Comparison is that
  of the standard: every comparison with a NaN is false, the two zeros are equal, and otherwise
  doubles are ordered by sign and magnitude. The last part shows that this order agrees with
  the order of the numbers the bits denote.
\<close>

datatype double = Double (dbits: u64)

definition dmag :: "double \<Rightarrow> int" where
  "dmag d = uint (dbits d) mod 2 ^ 63"

definition dneg :: "double \<Rightarrow> bool" where
  "dneg d \<longleftrightarrow> 2 ^ 63 \<le> uint (dbits d)"

definition is_nan :: "double \<Rightarrow> bool" where
  "is_nan d \<longleftrightarrow> 0x7FF0000000000000 < dmag d"

definition is_finite_double :: "double \<Rightarrow> bool" where
  "is_finite_double d \<longleftrightarrow> dmag d < 0x7FF0000000000000"

definition dkey :: "double \<Rightarrow> int" where
  "dkey d = (if dneg d then - dmag d else dmag d)"

definition not_nan :: "double \<Rightarrow> bool" where
  "not_nan d \<longleftrightarrow> \<not> is_nan d"

instantiation double :: ord
begin

definition less_double :: "double \<Rightarrow> double \<Rightarrow> bool" where
  "less_double a b \<longleftrightarrow> not_nan a \<and> not_nan b \<and> dkey a < dkey b"

definition less_eq_double :: "double \<Rightarrow> double \<Rightarrow> bool" where
  "less_eq_double a b \<longleftrightarrow> not_nan a \<and> not_nan b \<and> dkey a \<le> dkey b"

instance ..

end

text \<open>The \<open>std::less<double>\<close> and \<open>std::greater<double>\<close> function objects.\<close>

definition std_less :: "double \<Rightarrow> double \<Rightarrow> bool" where
  "std_less a b \<longleftrightarrow> a < b"

definition std_greater :: "double \<Rightarrow> double \<Rightarrow> bool" where
  "std_greater a b \<longleftrightarrow> a > b"

text \<open>Equality of the C++ operator \<open>==\<close> on non-NaN doubles: equal keys.\<close>

definition deq :: "double \<Rightarrow> double \<Rightarrow> bool" where
  "deq a b \<longleftrightarrow> not_nan a \<and> not_nan b \<and> dkey a = dkey b"

lemma not_nan_less: "not_nan a \<Longrightarrow> not_nan b \<Longrightarrow> a < b \<longleftrightarrow> dkey a < dkey b"
  by (simp add: less_double_def)

lemma not_nan_le: "not_nan a \<Longrightarrow> not_nan b \<Longrightarrow> a \<le> b \<longleftrightarrow> dkey a \<le> dkey b"
  by (simp add: less_eq_double_def)

lemma less_double_not_nan: "(a::double) < b \<Longrightarrow> not_nan a \<and> not_nan b"
  by (simp add: less_double_def)

lemma le_double_not_nan: "(a::double) \<le> b \<Longrightarrow> not_nan a \<and> not_nan b"
  by (simp add: less_eq_double_def)

subsection \<open>The order is that of the denoted numbers\<close>

text \<open>
  A finite double denotes \<open>dscaled d / 2 ^ 1074\<close>: the exponent field is \<open>dmag d div 2 ^ 52\<close>,
  the fraction field \<open>dmag d mod 2 ^ 52\<close>, subnormals have exponent field 0 and no hidden bit.
\<close>

definition scaled_mag :: "int \<Rightarrow> int" where
  "scaled_mag m =
     (if m div 2 ^ 52 = 0 then m mod 2 ^ 52
      else (2 ^ 52 + m mod 2 ^ 52) * 2 ^ nat (m div 2 ^ 52 - 1))"

definition dscaled :: "double \<Rightarrow> int" where
  "dscaled d = (if dneg d then - scaled_mag (dmag d) else scaled_mag (dmag d))"

lemma dmag_nonneg: "0 \<le> dmag d"
  by (simp add: dmag_def)

lemma scaled_mag_bounds:
  assumes "0 \<le> m"
  shows "scaled_mag m < 2 ^ 52 * 2 ^ nat (m div 2 ^ 52)"
    and "0 < m div 2 ^ 52 \<Longrightarrow> 2 ^ 52 * 2 ^ nat (m div 2 ^ 52 - 1) \<le> scaled_mag m"
    and "0 \<le> scaled_mag m"
proof -
  let ?e = "m div 2 ^ 52" and ?f = "m mod 2 ^ 52"
  have f: "0 \<le> ?f" "?f < 2 ^ 52" by simp_all
  have e: "0 \<le> ?e" using assms by (simp add: pos_imp_zdiv_nonneg_iff)
  show "scaled_mag m < 2 ^ 52 * 2 ^ nat ?e"
  proof (cases "?e = 0")
    case True
    then show ?thesis using f by (simp add: scaled_mag_def)
  next
    case False
    then have s: "nat ?e = Suc (nat (?e - 1))" using e by simp
    have "(2 ^ 52 + ?f) * 2 ^ nat (?e - 1) < (2 * 2 ^ 52) * 2 ^ nat (?e - 1)"
      using f by (intro mult_strict_right_mono) simp_all
    then show ?thesis using False unfolding s by (simp add: scaled_mag_def)
  qed
  show "2 ^ 52 * 2 ^ nat (?e - 1) \<le> scaled_mag m" if "0 < ?e"
  proof -
    have "2 ^ 52 * 2 ^ nat (?e - 1) \<le> (2 ^ 52 + ?f) * 2 ^ nat (?e - 1)"
      using f by (intro mult_right_mono) simp_all
    then show ?thesis using that by (simp add: scaled_mag_def)
  qed
  show "0 \<le> scaled_mag m" using f assms by (simp add: scaled_mag_def)
qed

lemma scaled_mag_strict_mono:
  assumes "0 \<le> a" and "a < b"
  shows "scaled_mag a < scaled_mag b"
proof (cases "a div 2 ^ 52 = b div 2 ^ 52")
  case True
  have "a = b div 2 ^ 52 * 2 ^ 52 + a mod 2 ^ 52"
    using div_mult_mod_eq [of a "2 ^ 52"] by (simp only: True)
  moreover have "b = b div 2 ^ 52 * 2 ^ 52 + b mod 2 ^ 52"
    by (simp only: div_mult_mod_eq)
  ultimately have "a mod 2 ^ 52 < b mod 2 ^ 52"
    using assms(2) by (metis add_less_cancel_left)
  then show ?thesis using True assms(2) by (simp add: scaled_mag_def)
next
  case False
  have "a div 2 ^ 52 \<le> b div 2 ^ 52"
    using assms(2) by (intro zdiv_mono1) simp_all
  then have lt: "a div 2 ^ 52 < b div 2 ^ 52" using False by simp
  have nn: "0 \<le> a div 2 ^ 52" using assms(1) by (simp add: pos_imp_zdiv_nonneg_iff)
  have "scaled_mag a < 2 ^ 52 * 2 ^ nat (a div 2 ^ 52)"
    using assms(1) by (rule scaled_mag_bounds(1))
  also have "\<dots> \<le> 2 ^ 52 * 2 ^ nat (b div 2 ^ 52 - 1)"
    using lt nn by (intro mult_left_mono power_increasing) simp_all
  also have "\<dots> \<le> scaled_mag b"
    using assms lt nn by (intro scaled_mag_bounds(2)) simp_all
  finally show ?thesis .
qed

lemma scaled_mag_less_iff:
  "0 \<le> a \<Longrightarrow> 0 \<le> b \<Longrightarrow> scaled_mag a < scaled_mag b \<longleftrightarrow> a < b"
  by (metis linorder_neqE_linordered_idom order_less_asym scaled_mag_strict_mono)

lemma scaled_mag_zero_iff: "0 \<le> a \<Longrightarrow> scaled_mag a = 0 \<longleftrightarrow> a = 0"
proof -
  assume a: "0 \<le> a"
  have z: "scaled_mag 0 = 0" by (simp add: scaled_mag_def)
  show ?thesis using scaled_mag_less_iff [of 0 a] a z scaled_mag_bounds(3) [of a] by force
qed

lemma less_double_dscaled:
  assumes "is_finite_double a" and "is_finite_double b"
  shows "a < b \<longleftrightarrow> dscaled a < dscaled b"
proof -
  have nn: "not_nan a" "not_nan b"
    using assms by (auto simp: not_nan_def is_nan_def is_finite_double_def)
  have pos: "0 \<le> scaled_mag (dmag a)" "0 \<le> scaled_mag (dmag b)" "0 \<le> dmag a" "0 \<le> dmag b"
    by (simp_all add: dmag_nonneg scaled_mag_bounds(3))
  show ?thesis
    using pos scaled_mag_less_iff [of "dmag a" "dmag b"] scaled_mag_less_iff [of "dmag b" "dmag a"]
      scaled_mag_zero_iff [of "dmag a"] scaled_mag_zero_iff [of "dmag b"]
    by (auto simp: not_nan_less [OF nn] dkey_def dscaled_def)
qed

end
