(* ===== verification/Ordered_Map.thy ===== *)
theory Ordered_Map
  imports IEEE_Double
begin

text \<open>
  \<open>std::map<K, V, Compare>\<close> as the order book uses it: the entries in iteration order, with
  \<open>operator[]\<close> followed by a mutation (\<open>om_modify\<close>), \<open>find\<close> (\<open>om_find\<close>) and \<open>erase\<close> by
  key. Two keys are the same when neither compares less. The interface \<open>ranked_compare\<close> is the
  requirement the C++ standard puts on \<open>Compare\<close> (a strict weak ordering on the keys in use);
  both price comparators of the order book are shown to meet it on all doubles but NaN.
\<close>

type_synonym ('k, 'v) omap = "('k \<times> 'v) list"

fun om_find :: "('k \<Rightarrow> 'k \<Rightarrow> bool) \<Rightarrow> 'k \<Rightarrow> ('k, 'v) omap \<Rightarrow> 'v option" where
  "om_find lt k [] = None"
| "om_find lt k ((k', v) # m) =
     (if lt k' k then om_find lt k m else if lt k k' then None else Some v)"

text \<open>\<open>f\<close> applied in place to \<open>m[k]\<close>, which \<open>operator[]\<close> creates with value \<open>d\<close> if absent.\<close>

fun om_modify :: "('k \<Rightarrow> 'k \<Rightarrow> bool) \<Rightarrow> 'v \<Rightarrow> 'k \<Rightarrow> ('v \<Rightarrow> 'v) \<Rightarrow> ('k, 'v) omap \<Rightarrow> ('k, 'v) omap"
where
  "om_modify lt d k f [] = [(k, f d)]"
| "om_modify lt d k f ((k', v) # m) =
     (if lt k' k then (k', v) # om_modify lt d k f m
      else if lt k k' then (k, f d) # (k', v) # m
      else (k', f v) # m)"

fun om_erase :: "('k \<Rightarrow> 'k \<Rightarrow> bool) \<Rightarrow> 'k \<Rightarrow> ('k, 'v) omap \<Rightarrow> ('k, 'v) omap" where
  "om_erase lt k [] = []"
| "om_erase lt k ((k', v) # m) =
     (if lt k' k then (k', v) # om_erase lt k m else if lt k k' then (k', v) # m else m)"

definition om_at :: "('k \<Rightarrow> 'k \<Rightarrow> bool) \<Rightarrow> 'v \<Rightarrow> 'k \<Rightarrow> ('k, 'v) omap \<Rightarrow> 'v" where
  "om_at lt d k m = (case om_find lt k m of None \<Rightarrow> d | Some v \<Rightarrow> v)"

definition om_wf :: "('k \<Rightarrow> 'k \<Rightarrow> bool) \<Rightarrow> ('k \<Rightarrow> bool) \<Rightarrow> ('k, 'v) omap \<Rightarrow> bool" where
  "om_wf lt ok m \<longleftrightarrow> sorted_wrt lt (map fst m) \<and> (\<forall>k\<in>set (map fst m). ok k)"

definition om_flat :: "('k, 'v list) omap \<Rightarrow> 'v list" where
  "om_flat m = concat (map snd m)"

lemma om_flat_simps [simp]:
  "om_flat [] = []" "om_flat ((k, v) # m) = v @ om_flat m"
  "om_flat (m @ m') = om_flat m @ om_flat m'"
  by (simp_all add: om_flat_def)

lemma om_wf_Nil [simp]: "om_wf lt ok []"
  by (simp add: om_wf_def)

lemma om_wf_Cons [simp]:
  "om_wf lt ok (e # m) \<longleftrightarrow> ok (fst e) \<and> (\<forall>e'\<in>set m. lt (fst e) (fst e')) \<and> om_wf lt ok m"
  by (auto simp: om_wf_def)

subsection \<open>The comparator contract and what the map guarantees under it\<close>

locale ranked_compare =
  fixes lt :: "'k \<Rightarrow> 'k \<Rightarrow> bool" and ok :: "'k \<Rightarrow> bool" and rank :: "'k \<Rightarrow> int"
  assumes lt_rank: "ok a \<Longrightarrow> ok b \<Longrightarrow> lt a b \<longleftrightarrow> rank a < rank b"
begin

lemma lt_irrefl: "ok a \<Longrightarrow> \<not> lt a a"
  by (simp add: lt_rank)

lemma lt_asym: "ok a \<Longrightarrow> ok b \<Longrightarrow> lt a b \<Longrightarrow> \<not> lt b a"
  by (simp add: lt_rank)

lemma incomparable_rank: "ok a \<Longrightarrow> ok b \<Longrightarrow> \<not> lt a b \<and> \<not> lt b a \<longleftrightarrow> rank a = rank b"
  by (auto simp: lt_rank)

text \<open>Every lookup either hits one entry of the key's rank or falls between two entries.\<close>

lemma om_cases:
  assumes "om_wf lt ok m" and "ok k"
  obtains (hit) l k' v r where "m = l @ (k', v) # r" and "ok k'" and "rank k' = rank k"
      and "\<forall>e\<in>set l. lt (fst e) k" and "\<forall>e\<in>set r. lt k (fst e)"
    | (miss) l r where "m = l @ r" and "\<forall>e\<in>set l. lt (fst e) k" and "\<forall>e\<in>set r. lt k (fst e)"
proof -
  let ?P = "\<lambda>e. lt (fst e) k"
  let ?l = "takeWhile ?P m"
  have m: "m = ?l @ dropWhile ?P m" by (rule takeWhile_dropWhile_id [symmetric])
  have l: "\<forall>e\<in>set ?l. lt (fst e) k" using set_takeWhileD by fastforce
  show thesis
  proof (cases "dropWhile ?P m")
    case Nil
    then have "m = ?l @ []" using m by metis
    then show thesis by (rule miss) (use l in auto)
  next
    case (Cons e r)
    obtain k' v where e: "e = (k', v)" by (cases e)
    have nlt: "\<not> lt k' k" using Cons e by (simp add: dropWhile_eq_Cons_conv)
    have wf: "om_wf lt ok (?l @ (k', v) # r)" using assms(1) m Cons e by simp
    then have k': "ok k'" and r: "\<forall>e\<in>set r. ok (fst e) \<and> lt k' (fst e)"
      by (auto simp: om_wf_def sorted_wrt_append)
    have r': "\<forall>e\<in>set r. lt k (fst e)"
      using r nlt k' assms(2) by (force simp: lt_rank)
    have m': "m = ?l @ (k', v) # r" using m Cons e by metis
    show thesis
    proof (cases "lt k k'")
      case True
      then show thesis using m' l r' by (intro miss [of ?l "(k', v) # r"]) auto
    next
      case False
      then have "rank k' = rank k" using nlt k' assms(2) incomparable_rank by blast
      with m' k' show thesis by (rule hit) (use l r' in auto)
    qed
  qed
qed

lemma om_skip:
  assumes "\<forall>e\<in>set l. lt (fst e) k"
  shows "om_find lt k (l @ m) = om_find lt k m"
    and "om_modify lt d k f (l @ m) = l @ om_modify lt d k f m"
    and "om_erase lt k (l @ m) = l @ om_erase lt k m"
  using assms by (induction l) auto

lemma om_hit:
  assumes "ok k" and "ok k'" and "rank k' = rank k"
  shows "om_find lt k ((k', v) # m) = Some v"
    and "om_modify lt d k f ((k', v) # m) = (k', f v) # m"
    and "om_erase lt k ((k', v) # m) = m"
proof -
  have "\<not> lt k k'" "\<not> lt k' k" using assms by (simp_all add: lt_rank)
  then show "om_find lt k ((k', v) # m) = Some v"
    and "om_modify lt d k f ((k', v) # m) = (k', f v) # m"
    and "om_erase lt k ((k', v) # m) = m"
    by simp_all
qed

lemma om_miss:
  assumes "ok k" and "\<forall>e\<in>set m. ok (fst e) \<and> lt k (fst e)"
  shows "om_find lt k m = None"
    and "om_modify lt d k f m = (k, f d) # m"
    and "om_erase lt k m = m"
proof -
  have "\<not> lt (fst e) k" if "e \<in> set m" for e
    using assms that lt_asym by blast
  then show "om_find lt k m = None"
    and "om_modify lt d k f m = (k, f d) # m"
    and "om_erase lt k m = m"
    using assms(2) by (cases m; force)+
qed

lemma om_wf_append:
  "om_wf lt ok (l @ r) \<longleftrightarrow>
     om_wf lt ok l \<and> om_wf lt ok r \<and> (\<forall>e\<in>set l. \<forall>e'\<in>set r. lt (fst e) (fst e'))"
  by (auto simp: om_wf_def sorted_wrt_append)

lemma om_wf_ok: "om_wf lt ok m \<Longrightarrow> e \<in> set m \<Longrightarrow> ok (fst e)"
  by (auto simp: om_wf_def)

text \<open>
  The effect of the three operations in one form: either the entry of the key is replaced (or
  removed) where it stands, or a new entry goes exactly between the smaller and the larger keys.
\<close>

lemma om_ops_cases:
  assumes "om_wf lt ok m" and "ok k"
  obtains (hit) l k' v r where "m = l @ (k', v) # r" and "ok k'" and "rank k' = rank k"
      and "\<forall>e\<in>set l. lt (fst e) k" and "\<forall>e\<in>set r. lt k (fst e)"
      and "om_find lt k m = Some v"
      and "\<And>d f. om_modify lt d k f m = l @ (k', f v) # r"
      and "om_erase lt k m = l @ r"
    | (miss) l r where "m = l @ r" and "\<forall>e\<in>set l. lt (fst e) k" and "\<forall>e\<in>set r. lt k (fst e)"
      and "om_find lt k m = None"
      and "\<And>d f. om_modify lt d k f m = l @ (k, f d) # r"
      and "om_erase lt k m = m"
  using assms
proof (cases rule: om_cases)
  case (hit l k' v r)
  then show thesis
    by (intro that(1) [OF hit]) (simp_all only: om_skip om_hit [OF assms(2) hit(2,3)] hit(1))
next
  case (miss l r)
  then have "\<forall>e\<in>set r. ok (fst e) \<and> lt k (fst e)" using assms(1) om_wf_ok by fastforce
  then show thesis
    by (intro that(2) [OF miss]) (simp_all only: om_skip [OF miss(2)] om_miss [OF assms(2)] miss(1))
qed

lemma om_wf_modify:
  assumes "om_wf lt ok m" and "ok k"
  shows "om_wf lt ok (om_modify lt d k f m)"
  using assms
proof (cases rule: om_ops_cases)
  case (hit l k' v r)
  then show ?thesis using assms by (simp add: om_wf_append)
next
  case (miss l r)
  then show ?thesis using assms by (simp add: om_wf_append)
qed

lemma om_wf_erase:
  assumes "om_wf lt ok m" and "ok k"
  shows "om_wf lt ok (om_erase lt k m)"
  using assms
proof (cases rule: om_ops_cases)
  case (hit l k' v r)
  then show ?thesis using assms by (simp add: om_wf_append)
next
  case (miss l r)
  then show ?thesis using assms by simp
qed

lemma om_find_modify:
  assumes "om_wf lt ok m" and "ok k"
  shows "om_find lt k (om_modify lt d k f m) = Some (f (om_at lt d k m))"
  using assms
proof (cases rule: om_ops_cases)
  case (hit l k' v r)
  then show ?thesis
    by (simp only: om_at_def option.case om_skip [OF hit(4)] om_hit [OF assms(2) hit(2,3)])
next
  case (miss l r)
  then show ?thesis
    by (simp only: om_at_def option.case om_skip [OF miss(2)] om_hit [OF assms(2) assms(2) refl])
qed

end

subsection \<open>The two price comparators meet the contract on every double but NaN\<close>

interpretation asc: ranked_compare std_less not_nan dkey
  by unfold_locales (simp add: std_less_def not_nan_less)

interpretation desc: ranked_compare std_greater not_nan "\<lambda>d. - dkey d"
  by unfold_locales (simp add: std_greater_def not_nan_less)

end
