(* ===== verification/Order_Types.thy ===== *)
theory Order_Types
  imports Ordered_Map
begin

text \<open>
  The data of the engine, from \<open>engine/include\<close>: \<open>Order.h\<close>, \<open>Trade.h\<close> and \<open>Event.h\<close>.
  Fields that C++ leaves uninitialised are options: the engine fills \<open>orderId\<close> or \<open>trade\<close>
  of an \<open>Event\<close> only for some event types, and \<open>None\<close> is a field never written.
\<close>

datatype side = BUY | SELL

datatype order_type = LIMIT | MARKET

record order =
  orderId :: u64
  symbol :: string
  side :: side
  orderType :: order_type
  price :: double
  quantity :: u64
  remainingQuantity :: u64
  timestamp :: u64

record trade =
  tradeId :: u64
  buyOrderId :: u64
  sellOrderId :: u64
  trade_price :: double
  trade_quantity :: u64
  trade_timestamp :: u64

datatype event_type =
    ORDER_ACCEPTED | ORDER_CANCELLED | TRADE_EXECUTED
  | ORDER_PARTIALLY_FILLED | ORDER_COMPLETELY_FILLED | ORDER_BOOK_CHANGED

record event =
  event_type :: event_type
  event_orderId :: "u64 option"
  event_trade :: "trade option"

text \<open>Which fields the consumers of an event may read.\<close>

definition event_initialised :: "event \<Rightarrow> bool" where
  "event_initialised ev \<longleftrightarrow>
     (case event_type ev of
        TRADE_EXECUTED \<Rightarrow> event_trade ev \<noteq> None
      | ORDER_BOOK_CHANGED \<Rightarrow> True
      | _ \<Rightarrow> event_orderId ev \<noteq> None)"

text \<open>The default-initialised \<open>Event\<close> with its type set, and the two ways it is completed.\<close>

definition id_event :: "event_type \<Rightarrow> u64 \<Rightarrow> event" where
  "id_event t i = \<lparr>event_type = t, event_orderId = Some i, event_trade = None\<rparr>"

definition trade_event :: "trade \<Rightarrow> event" where
  "trade_event tr = \<lparr>event_type = TRADE_EXECUTED, event_orderId = None, event_trade = Some tr\<rparr>"

definition book_event :: event where
  "book_event = \<lparr>event_type = ORDER_BOOK_CHANGED, event_orderId = None, event_trade = None\<rparr>"

lemma event_simps [simp]:
  "event_type (id_event t i) = t" "event_orderId (id_event t i) = Some i"
  "event_trade (id_event t i) = None"
  "event_type (trade_event tr) = TRADE_EXECUTED" "event_orderId (trade_event tr) = None"
  "event_trade (trade_event tr) = Some tr"
  "event_type book_event = ORDER_BOOK_CHANGED"
  "event_orderId book_event = None" "event_trade book_event = None"
  by (simp_all add: id_event_def trade_event_def book_event_def)

lemma event_initialised_simps [simp]:
  "event_initialised (trade_event tr)" "event_initialised book_event"
  "event_initialised (id_event t i) \<longleftrightarrow> t \<noteq> TRADE_EXECUTED"
  by (auto simp: event_initialised_def split: event_type.splits)

end
