(* ===== verification/Order_Book.thy ===== *)
theory Order_Book
  imports Order_Types
begin

text \<open>
  The class \<open>OrderBook\<close> (\<open>engine/include/OrderBook.h\<close>, \<open>engine/src/OrderBook.cpp\<close>).

  A price level is a \<open>std::list<Order>\<close>; its nodes carry the address they were allocated at,
  because \<open>orderLocations\<close> keeps iterators, that is addresses, into these lists. \<open>heap_next\<close>
  is the next free address. Erasing through an iterator that is not in the list is undefined
  behaviour in C++ and is \<open>None\<close> here.
\<close>

type_synonym node = "nat \<times> order"
type_synonym levels = "(double, node list) omap"

record order_location =
  loc_side :: side
  loc_price :: double
  loc_iterator :: nat

record order_book =
  bids :: levels
  asks :: levels
  orderLocations :: "u64 \<rightharpoonup> order_location"
  heap_next :: nat

definition empty_book :: order_book where
  "empty_book = \<lparr>bids = [], asks = [], orderLocations = Map.empty, heap_next = 0\<rparr>"

section \<open>Operations\<close>

text \<open>\<open>addOrder\<close>: push at the back of the level, remember where.\<close>

definition addOrder :: "order \<Rightarrow> order_book \<Rightarrow> order_book" where
  "addOrder x b =
     (if side x = BUY then
        let bs = om_modify std_greater [] (price x) (\<lambda>l. l @ [(heap_next b, x)]) (bids b);
            it = fst (last (om_at std_greater [] (price x) bs))
        in b\<lparr>bids := bs, heap_next := Suc (heap_next b),
             orderLocations := (orderLocations b)(orderId x \<mapsto>
               \<lparr>loc_side = BUY, loc_price = price x, loc_iterator = it\<rparr>)\<rparr>
      else
        let as = om_modify std_less [] (price x) (\<lambda>l. l @ [(heap_next b, x)]) (asks b);
            it = fst (last (om_at std_less [] (price x) as))
        in b\<lparr>asks := as, heap_next := Suc (heap_next b),
             orderLocations := (orderLocations b)(orderId x \<mapsto>
               \<lparr>loc_side = SELL, loc_price = price x, loc_iterator = it\<rparr>)\<rparr>)"

text \<open>\<open>bestBid\<close> and \<open>bestAsk\<close>: the front of the first level; \<open>None\<close> is \<open>nullptr\<close>.\<close>

definition bestBid :: "order_book \<Rightarrow> order option" where
  "bestBid b =
     (case bids b of [] \<Rightarrow> None
      | (_, level) # _ \<Rightarrow> (case level of [] \<Rightarrow> None | (_, x) # _ \<Rightarrow> Some x))"

definition bestAsk :: "order_book \<Rightarrow> order option" where
  "bestAsk b =
     (case asks b of [] \<Rightarrow> None
      | (_, level) # _ \<Rightarrow> (case level of [] \<Rightarrow> None | (_, x) # _ \<Rightarrow> Some x))"

text \<open>A write through the pointer these return: to the order at the front of the first level.\<close>

fun update_front :: "(order \<Rightarrow> order) \<Rightarrow> levels \<Rightarrow> levels" where
  "update_front f ((p, (n, x) # level) # m) = (p, (n, f x) # level) # m"
| "update_front f m = m"

definition updateBestBid :: "(order \<Rightarrow> order) \<Rightarrow> order_book \<Rightarrow> order_book" where
  "updateBestBid f b = b\<lparr>bids := update_front f (bids b)\<rparr>"

definition updateBestAsk :: "(order \<Rightarrow> order) \<Rightarrow> order_book \<Rightarrow> order_book" where
  "updateBestAsk f b = b\<lparr>asks := update_front f (asks b)\<rparr>"

text \<open>\<open>removeBestBid\<close> and \<open>removeBestAsk\<close>.\<close>

definition removeBestBid :: "order_book \<Rightarrow> bool \<times> order_book" where
  "removeBestBid b =
     (case bids b of [] \<Rightarrow> (False, b)
      | (p, level) # m \<Rightarrow>
          (case level of [] \<Rightarrow> (False, b)
           | (_, x) # level' \<Rightarrow>
               (True, b\<lparr>orderLocations := (orderLocations b)(orderId x := None),
                        bids := (if level' = [] then m else (p, level') # m)\<rparr>)))"

definition removeBestAsk :: "order_book \<Rightarrow> bool \<times> order_book" where
  "removeBestAsk b =
     (case asks b of [] \<Rightarrow> (False, b)
      | (p, level) # m \<Rightarrow>
          (case level of [] \<Rightarrow> (False, b)
           | (_, x) # level' \<Rightarrow>
               (True, b\<lparr>orderLocations := (orderLocations b)(orderId x := None),
                        asks := (if level' = [] then m else (p, level') # m)\<rparr>)))"

text \<open>\<open>getBidDepth\<close> and \<open>getAskDepth\<close>: both loops as written, counters included.\<close>

fun total_quantity :: "u64 \<Rightarrow> node list \<Rightarrow> u64" where
  "total_quantity t [] = t"
| "total_quantity t ((n, x) # xs) = total_quantity (t + remainingQuantity x) xs"

fun depth_loop :: "u64 \<Rightarrow> u64 \<Rightarrow> (double \<times> u64) list \<Rightarrow> levels \<Rightarrow> (double \<times> u64) list" where
  "depth_loop levels count depth [] = depth"
| "depth_loop levels count depth ((p, xs) # m) =
     (if levels \<le> count then depth
      else depth_loop levels (count + 1) (depth @ [(p, total_quantity 0 xs)]) m)"

definition getBidDepth :: "u64 \<Rightarrow> order_book \<Rightarrow> (double \<times> u64) list" where
  "getBidDepth levels b = depth_loop levels 0 [] (bids b)"

definition getAskDepth :: "u64 \<Rightarrow> order_book \<Rightarrow> (double \<times> u64) list" where
  "getAskDepth levels b = depth_loop levels 0 [] (asks b)"

text \<open>\<open>std::list::erase\<close> through an iterator; \<open>None\<close> if it does not point into the list.\<close>

fun list_erase :: "nat \<Rightarrow> node list \<Rightarrow> node list option" where
  "list_erase it [] = None"
| "list_erase it ((n, x) # xs) =
     (if n = it then Some xs else map_option ((#) (n, x)) (list_erase it xs))"

text \<open>The level \<open>level\<close> in place of the one at price \<open>p\<close>, which goes when it became empty.\<close>

definition put_level :: "(double \<Rightarrow> double \<Rightarrow> bool) \<Rightarrow> double \<Rightarrow> node list \<Rightarrow> levels \<Rightarrow> levels" where
  "put_level lt p level m =
     (let m' = om_modify lt [] p (\<lambda>_. level) m
      in if level = [] then om_erase lt p m' else m')"

definition cancelOrder :: "u64 \<Rightarrow> order_book \<Rightarrow> (bool \<times> order_book) option" where
  "cancelOrder i b =
     (case orderLocations b i of
        None \<Rightarrow> Some (False, b)
      | Some loc \<Rightarrow>
          if loc_side loc = BUY then
            (case list_erase (loc_iterator loc) (om_at std_greater [] (loc_price loc) (bids b)) of
               None \<Rightarrow> None
             | Some level \<Rightarrow>
                 Some (True, b\<lparr>bids := put_level std_greater (loc_price loc) level (bids b),
                                orderLocations := (orderLocations b)(i := None)\<rparr>))
          else
            (case list_erase (loc_iterator loc) (om_at std_less [] (loc_price loc) (asks b)) of
               None \<Rightarrow> None
             | Some level \<Rightarrow>
                 Some (True, b\<lparr>asks := put_level std_less (loc_price loc) level (asks b),
                                orderLocations := (orderLocations b)(i := None)\<rparr>)))"

definition getOpenOrders :: "order_book \<Rightarrow> order list" where
  "getOpenOrders b =
     concat (map (\<lambda>(p, xs). map snd xs) (bids b)) @ concat (map (\<lambda>(p, xs). map snd xs) (asks b))"

lemmas [book_simps] =
  addOrder_def bestBid_def bestAsk_def updateBestBid_def updateBestAsk_def removeBestBid_def
  removeBestAsk_def getBidDepth_def getAskDepth_def put_level_def cancelOrder_def getOpenOrders_def om_at_def

end
