(* ===== verification/Book_Side.thy ===== *)
theory Book_Side
  imports Order_Book
begin

text \<open>
  One side of the book, proved once for both. \<open>side_wf lt sd m\<close> is what the code keeps true of
  \<open>bids\<close> and \<open>asks\<close>; \<open>om_flat m\<close> lists the resting orders of the side in matching order. The
  locale \<open>price_side\<close> extends the comparator contract; it is interpreted for bids (highest price
  first) and asks (lowest price first).
\<close>

definition node_ok :: "side \<Rightarrow> double \<Rightarrow> node \<Rightarrow> bool" where
  "node_ok sd p nx \<longleftrightarrow>
     side (snd nx) = sd \<and> deq (price (snd nx)) p \<and> 0 < remainingQuantity (snd nx)"

definition side_wf :: "(double \<Rightarrow> double \<Rightarrow> bool) \<Rightarrow> side \<Rightarrow> levels \<Rightarrow> bool" where
  "side_wf lt sd m \<longleftrightarrow>
     om_wf lt not_nan m \<and> (\<forall>e\<in>set m. snd e \<noteq> [] \<and> (\<forall>nx\<in>set (snd e). node_ok sd (fst e) nx))"

lemma side_wf_Nil [simp]: "side_wf lt sd []"
  by (simp add: side_wf_def)

lemma side_wf_Cons:
  "side_wf lt sd ((p, xs) # m) \<longleftrightarrow>
     not_nan p \<and> (\<forall>e\<in>set m. lt p (fst e)) \<and> xs \<noteq> [] \<and> (\<forall>nx\<in>set xs. node_ok sd p nx) \<and>
     side_wf lt sd m"
  by (auto simp: side_wf_def)

lemma side_wf_flat_Nil: "side_wf lt sd m \<Longrightarrow> om_flat m = [] \<longleftrightarrow> m = []"
  by (cases m) (auto simp: side_wf_Cons)

lemma deq_not_nan: "deq a b \<Longrightarrow> not_nan a \<and> not_nan b \<and> dkey a = dkey b"
  by (simp add: deq_def)

lemma deq_refl: "not_nan a \<Longrightarrow> deq a a"
  by (simp add: deq_def)

lemma side_wf_nodes:
  assumes "side_wf lt sd m" and "nx \<in> set (om_flat m)"
  shows "side (snd nx) = sd \<and> not_nan (price (snd nx)) \<and> 0 < remainingQuantity (snd nx)"
  using assms by (force simp: side_wf_def om_flat_def node_ok_def dest: deq_not_nan)

text \<open>\<open>list_erase\<close> at an address that occurs once.\<close>

lemma list_erase_found:
  "it \<in> fst ` set xs \<Longrightarrow> distinct (map fst xs) \<Longrightarrow>
   list_erase it xs = Some (filter (\<lambda>nx. fst nx \<noteq> it) xs)"
proof (induction xs)
  case (Cons a xs)
  obtain n x where a: "a = (n, x)" by (cases a)
  show ?case
  proof (cases "n = it")
    case True
    then have "\<forall>nx\<in>set xs. fst nx \<noteq> it" using Cons.prems(2) a by force
    then show ?thesis using True a by simp
  next
    case False
    then show ?thesis using Cons a by auto
  qed
qed simp

lemma list_erase_missing: "it \<notin> fst ` set xs \<Longrightarrow> list_erase it xs = None"
  by (induction xs) auto

lemma list_erase_None_iff: "list_erase it xs = None \<longleftrightarrow> it \<notin> fst ` set xs"
  by (induction xs) (auto split: if_splits)

locale price_side = ranked_compare lt not_nan rank
  for lt :: "double \<Rightarrow> double \<Rightarrow> bool" and rank :: "double \<Rightarrow> int" +
  fixes sd :: side
  assumes rank_dkey: "rank a = rank b \<longleftrightarrow> dkey a = dkey b"
begin

lemma deq_rank: "deq a b \<longleftrightarrow> not_nan a \<and> not_nan b \<and> rank a = rank b"
  by (simp add: deq_def rank_dkey)

lemma node_rank: "node_ok sd p nx \<Longrightarrow> not_nan (price (snd nx)) \<and> rank (price (snd nx)) = rank p"
  by (auto simp: node_ok_def deq_rank)

text \<open>Matching order: no order is strictly better priced than one before it.\<close>

definition in_priority :: "node list \<Rightarrow> bool" where
  "in_priority xs \<longleftrightarrow> sorted_wrt (\<lambda>a b. rank (price (snd a)) \<le> rank (price (snd b))) xs"

lemma level_ranks:
  assumes "\<forall>e\<in>set m. lt p (fst e)" and "side_wf lt sd m" and "not_nan p" and "nx \<in> set (om_flat m)"
  shows "rank p < rank (price (snd nx))"
proof -
  obtain e where e: "e \<in> set m" "nx \<in> set (snd e)" using assms(4) by (auto simp: om_flat_def)
  then have "node_ok sd (fst e) nx" and "not_nan (fst e)"
    using assms(2) by (auto simp: side_wf_def om_wf_def)
  then show ?thesis using assms(1,3) e(1) node_rank lt_rank by metis
qed

lemma in_priority_flat: "side_wf lt sd m \<Longrightarrow> in_priority (om_flat m)"
proof (induction m)
  case (Cons e m)
  obtain p xs where e: "e = (p, xs)" by (cases e)
  have wf: "side_wf lt sd m" and p: "not_nan p" "\<forall>e\<in>set m. lt p (fst e)"
    and xs: "\<forall>nx\<in>set xs. rank (price (snd nx)) = rank p"
    using Cons.prems node_rank unfolding e side_wf_Cons by blast+
  have "in_priority xs" using xs by (auto simp: in_priority_def sorted_wrt_iff_nth_less)
  moreover have "rank (price (snd a)) \<le> rank (price (snd b))" if "a \<in> set xs" "b \<in> set (om_flat m)" for a b
    using xs that(1) level_ranks [OF p(2) wf p(1) that(2)] by simp
  ultimately show ?case
    using Cons.IH [OF wf] by (simp add: e in_priority_def sorted_wrt_append)
qed (simp add: in_priority_def)

lemma side_wf_append:
  "side_wf lt sd (l @ r) \<longleftrightarrow>
     side_wf lt sd l \<and> side_wf lt sd r \<and> (\<forall>e\<in>set l. \<forall>e'\<in>set r. lt (fst e) (fst e'))"
  by (auto simp: side_wf_def om_wf_append)

lemma above_rank:
  assumes "side_wf lt sd l" and "\<forall>e\<in>set l. lt (fst e) k" and "not_nan k" and "nx \<in> set (om_flat l)"
  shows "rank (price (snd nx)) < rank k"
proof -
  obtain e where e: "e \<in> set l" "nx \<in> set (snd e)" using assms(4) by (auto simp: om_flat_def)
  then have "node_ok sd (fst e) nx" and "not_nan (fst e)"
    using assms(1) by (auto simp: side_wf_def om_wf_def)
  then show ?thesis using assms(2,3) e(1) node_rank lt_rank by metis
qed

text \<open>Pushing an order: it goes behind every order priced as well or better, before the rest.\<close>

lemma side_push:
  fixes n :: nat and x :: order and m :: levels
  assumes wf: "side_wf lt sd m" and x: "side x = sd" "not_nan (price x)" "0 < remainingQuantity x"
  defines "m' \<equiv> om_modify lt [] (price x) (\<lambda>l. l @ [(n, x)]) m"
  shows "side_wf lt sd m'"
    and "\<exists>l r. om_flat m = l @ r \<and> om_flat m' = l @ (n, x) # r \<and>
           (\<forall>nx\<in>set l. rank (price (snd nx)) \<le> rank (price x)) \<and>
           (\<forall>nx\<in>set r. rank (price x) < rank (price (snd nx)))"
    and "last (om_at lt [] (price x) m') = (n, x)"
proof -
  have om: "om_wf lt not_nan m" using wf by (simp add: side_wf_def)
  have nx: "node_ok sd k' (n, x)" if "not_nan k'" "rank k' = rank (price x)" for k'
    using x that by (simp add: node_ok_def deq_rank)
  show "last (om_at lt [] (price x) m') = (n, x)"
    using om_find_modify [OF om x(2), of "[]" "\<lambda>l. l @ [(n, x)]"]
    by (simp add: m'_def om_at_def)
  have "side_wf lt sd m' \<and> (\<exists>l r. om_flat m = l @ r \<and> om_flat m' = l @ (n, x) # r \<and>
           (\<forall>nx\<in>set l. rank (price (snd nx)) \<le> rank (price x)) \<and>
           (\<forall>nx\<in>set r. rank (price x) < rank (price (snd nx))))"
    using om x(2)
  proof (cases rule: om_ops_cases)
    case (hit l k' v r)
    have m': "m' = l @ (k', v @ [(n, x)]) # r" by (simp only: m'_def hit(7))
    have wl: "side_wf lt sd l" "side_wf lt sd r" "\<forall>nx\<in>set v. node_ok sd k' nx"
      using wf unfolding hit(1) side_wf_append side_wf_Cons by blast+
    have "side_wf lt sd m'"
      using wf nx [OF hit(2,3)] unfolding m' hit(1) side_wf_append side_wf_Cons by auto
    moreover have "\<forall>nx\<in>set (om_flat l @ v). rank (price (snd nx)) \<le> rank (price x)"
      using above_rank [OF wl(1) hit(4) x(2)] wl(3) node_rank hit(3) by fastforce
    moreover have "\<forall>nx\<in>set (om_flat r). rank (price x) < rank (price (snd nx))"
      using level_ranks [OF hit(5) wl(2) x(2)] by blast
    ultimately show ?thesis
      by (intro conjI exI [of _ "om_flat l @ v"] exI [of _ "om_flat r"]) (simp_all add: m' hit(1))
  next
    case (miss l r)
    have m': "m' = l @ (price x, [(n, x)]) # r" by (simp add: m'_def miss(5))
    have wl: "side_wf lt sd l" "side_wf lt sd r"
      using wf unfolding miss(1) side_wf_append by blast+
    have "side_wf lt sd m'"
      using wf nx [OF x(2) refl] x(2) miss(2,3) unfolding m' miss(1) side_wf_append side_wf_Cons by auto
    moreover have "\<forall>nx\<in>set (om_flat l). rank (price (snd nx)) \<le> rank (price x)"
      using above_rank [OF wl(1) miss(2) x(2)] by fastforce
    moreover have "\<forall>nx\<in>set (om_flat r). rank (price x) < rank (price (snd nx))"
      using level_ranks [OF miss(3) wl(2) x(2)] by blast
    ultimately show ?thesis
      by (intro conjI exI [of _ "om_flat l"] exI [of _ "om_flat r"]) (simp_all add: m' miss(1))
  qed
  then show "side_wf lt sd m'"
    and "\<exists>l r. om_flat m = l @ r \<and> om_flat m' = l @ (n, x) # r \<and>
           (\<forall>nx\<in>set l. rank (price (snd nx)) \<le> rank (price x)) \<and>
           (\<forall>nx\<in>set r. rank (price x) < rank (price (snd nx)))"
    by blast+
qed

text \<open>Removing the front order, and changing its quantity in place.\<close>

lemma side_pop:
  assumes "side_wf lt sd ((p, nx # xs) # m)"
  shows "side_wf lt sd (if xs = [] then m else (p, xs) # m)"
    and "om_flat (if xs = [] then m else (p, xs) # m) = xs @ om_flat m"
  using assms by (auto simp: side_wf_Cons)

lemma side_update_front:
  assumes "side_wf lt sd m" and "om_flat m = (n, x) # ys"
    and "side (f x) = side x" and "price (f x) = price x" and "0 < remainingQuantity (f x)"
  shows "side_wf lt sd (update_front f m)" and "om_flat (update_front f m) = (n, f x) # ys"
proof -
  obtain p xs m0 where m: "m = (p, (n, x) # xs) # m0" and ys: "ys = xs @ om_flat m0"
    using assms(1,2) by (cases m) (auto simp: side_wf_Cons neq_Nil_conv)
  then show "side_wf lt sd (update_front f m)" and "om_flat (update_front f m) = (n, f x) # ys"
    using assms by (auto simp: side_wf_Cons node_ok_def)
qed

lemma side_front:
  assumes "side_wf lt sd m" and "om_flat m = (n, x) # ys"
  obtains p xs m0 where "m = (p, (n, x) # xs) # m0" and "ys = xs @ om_flat m0"
  using assms by (cases m) (auto simp: side_wf_Cons neq_Nil_conv)

text \<open>Erasing through an iterator that points to a resting order of the side.\<close>

lemma side_erase:
  assumes wf: "side_wf lt sd m" and x: "(n, x) \<in> set (om_flat m)" and d: "distinct (map fst (om_flat m))"
  obtains level where "list_erase n (om_at lt [] (price x) m) = Some level"
    and "side_wf lt sd (put_level lt (price x) level m)"
    and "om_flat (put_level lt (price x) level m) = filter (\<lambda>nx. fst nx \<noteq> n) (om_flat m)"
proof -
  have om: "om_wf lt not_nan m" using wf by (simp add: side_wf_def)
  have px: "not_nan (price x)" using side_wf_nodes [OF wf x] by simp
  obtain e where e: "e \<in> set m" "(n, x) \<in> set (snd e)" using x by (auto simp: om_flat_def)
  have ek: "not_nan (fst e)" "rank (fst e) = rank (price x)"
    using e wf node_rank by (fastforce simp: side_wf_def om_wf_def)+
  show thesis
    using om px
  proof (cases rule: om_ops_cases)
    case (hit l k' v r)
    have nlt: "\<not> lt (fst e) (price x)" "\<not> lt (price x) (fst e)" using ek px by (simp_all add: lt_rank)
    then have "e = (k', v)" using e(1) hit(1,4,5) by auto
    then have nv: "n \<in> fst ` set v" using e(2) by force
    let ?level = "filter (\<lambda>nx. fst nx \<noteq> n) v"
    have dv: "distinct (map fst v)" using d by (simp add: hit(1))
    have le: "list_erase n (om_at lt [] (price x) m) = Some ?level"
      using list_erase_found [OF nv dv] by (simp add: om_at_def hit(6))
    have others: "\<forall>nx\<in>set (om_flat l) \<union> set (om_flat r). fst nx \<noteq> n"
      using d nv by (auto simp: hit(1))
    then have fl: "filter (\<lambda>nx. fst nx \<noteq> n) (om_flat m) = om_flat l @ ?level @ om_flat r"
      by (simp add: hit(1) filter_id_conv)
    have mod: "om_modify lt [] (price x) (\<lambda>_. ?level) m = l @ (k', ?level) # r" by (simp only: hit(7))
    have er: "om_erase lt (price x) (l @ (k', ?level) # r) = l @ r"
      by (simp only: om_skip [OF hit(4)] om_hit [OF px hit(2,3)])
    show thesis
    proof (rule that [OF le])
      show "side_wf lt sd (put_level lt (price x) ?level m)"
        unfolding put_level_def Let_def mod er
        using wf unfolding hit(1) by (auto simp: side_wf_append side_wf_Cons)
      show "om_flat (put_level lt (price x) ?level m) = filter (\<lambda>nx. fst nx \<noteq> n) (om_flat m)"
        unfolding put_level_def Let_def mod er fl by simp
    qed
  next
    case (miss l r)
    then have "lt (fst e) (price x) \<or> lt (price x) (fst e)" using e(1) by auto
    then show thesis using ek px by (simp add: lt_rank)
  qed
qed

end

interpretation bid_side: price_side std_greater "\<lambda>d. - dkey d" BUY
  by unfold_locales simp_all

interpretation ask_side: price_side std_less dkey SELL
  by unfold_locales simp_all

end
