(* ===== verification/Book_Invariant.thy ===== *)
theory Book_Invariant
  imports Book_Side
begin

text \<open>
  What every operation of \<open>OrderBook\<close> keeps true (\<open>book_wf\<close>), and what it does to the two
  priority queues the book stands for: \<open>bid_queue\<close> and \<open>ask_queue\<close> list the resting orders in
  the order in which they will be matched.
\<close>

definition book_nodes :: "order_book \<Rightarrow> node list" where
  "book_nodes b = om_flat (bids b) @ om_flat (asks b)"

text \<open>The index \<open>orderLocations\<close> must be exactly this function of the resting orders.\<close>

definition node_location :: "node \<Rightarrow> u64 \<times> order_location" where
  "node_location nx =
     (orderId (snd nx),
      \<lparr>loc_side = side (snd nx), loc_price = price (snd nx), loc_iterator = fst nx\<rparr>)"

definition index_of :: "node list \<Rightarrow> u64 \<rightharpoonup> order_location" where
  "index_of xs = map_of (map node_location xs)"

definition book_wf :: "order_book \<Rightarrow> bool" where
  "book_wf b \<longleftrightarrow>
     side_wf std_greater BUY (bids b) \<and> side_wf std_less SELL (asks b) \<and>
     distinct (map fst (book_nodes b)) \<and> (\<forall>nx\<in>set (book_nodes b). fst nx < heap_next b) \<and>
     distinct (map (orderId \<circ> snd) (book_nodes b)) \<and>
     orderLocations b = index_of (book_nodes b)"

definition bid_queue :: "order_book \<Rightarrow> order list" where
  "bid_queue b = map snd (om_flat (bids b))"

definition ask_queue :: "order_book \<Rightarrow> order list" where
  "ask_queue b = map snd (om_flat (asks b))"

definition open_ids :: "order_book \<Rightarrow> u64 set" where
  "open_ids b = orderId ` set (bid_queue b @ ask_queue b)"

text \<open>The abstract operation of adding to a queue: behind every order priced as well or better.\<close>

definition enqueue_bid :: "order \<Rightarrow> order list \<Rightarrow> order list" where
  "enqueue_bid x q =
     takeWhile (\<lambda>y. price x \<le> price y) q @ x # dropWhile (\<lambda>y. price x \<le> price y) q"

definition enqueue_ask :: "order \<Rightarrow> order list \<Rightarrow> order list" where
  "enqueue_ask x q =
     takeWhile (\<lambda>y. price y \<le> price x) q @ x # dropWhile (\<lambda>y. price y \<le> price x) q"

subsection \<open>The index\<close>

lemma fst_node_location [simp]: "fst \<circ> node_location = orderId \<circ> snd"
  by (auto simp: node_location_def)

lemma dom_index_of: "dom (index_of xs) = (orderId \<circ> snd) ` set xs"
  by (simp add: index_of_def dom_map_of_conv_image_fst image_image)
     (metis (no_types, lifting) comp_apply fst_node_location image_cong)

lemma index_of_insert:
  assumes "orderId (snd nx) \<notin> (orderId \<circ> snd) ` set (l @ r)"
  shows "index_of (l @ nx # r) =
    (index_of (l @ r))(orderId (snd nx) \<mapsto>
       \<lparr>loc_side = side (snd nx), loc_price = price (snd nx), loc_iterator = fst nx\<rparr>)"
proof -
  have "orderId (snd nx) \<notin> dom (index_of l)" "orderId (snd nx) \<notin> dom (index_of r)"
    using assms by (auto simp: dom_index_of)
  then show ?thesis
    by (auto simp: index_of_def node_location_def map_add_def fun_eq_iff domIff split: option.splits)
qed

lemma index_of_Nil: "index_of [] = Map.empty"
  by (simp add: index_of_def)

lemma index_of_Cons:
  "index_of (nx # xs) = (index_of xs)(orderId (snd nx) \<mapsto>
     \<lparr>loc_side = side (snd nx), loc_price = price (snd nx), loc_iterator = fst nx\<rparr>)"
  by (simp add: index_of_def node_location_def)

lemma index_of_remove:
  "index_of (filter (\<lambda>nx. orderId (snd nx) \<noteq> i) xs) = (index_of xs)(i := None)"
  by (induction xs) (auto simp: index_of_Cons index_of_Nil fun_eq_iff)

lemma index_of_Some:
  assumes "index_of xs i = Some loc"
  obtains nx where "nx \<in> set xs" and "orderId (snd nx) = i" and "loc_side loc = side (snd nx)"
    and "loc_price loc = price (snd nx)" and "loc_iterator loc = fst nx"
proof -
  have "(i, loc) \<in> set (map node_location xs)" using assms by (auto simp: index_of_def dest: map_of_SomeD)
  then show thesis using that by (auto simp: node_location_def)
qed

lemma distinct_key_eq:
  "distinct (map f xs) \<Longrightarrow> e \<in> set xs \<Longrightarrow> x \<in> set xs \<Longrightarrow> f x = f e \<longleftrightarrow> x = e"
  by (auto simp: distinct_map inj_on_def)

subsection \<open>Facts that follow from \<open>book_wf\<close>\<close>

lemma empty_book_wf: "book_wf empty_book"
  by (simp add: book_wf_def empty_book_def book_nodes_def index_of_def)

lemma empty_book_queues [simp]: "bid_queue empty_book = []" "ask_queue empty_book = []"
  by (simp_all add: empty_book_def bid_queue_def ask_queue_def)

lemma map_snd_book_nodes: "map snd (book_nodes b) = bid_queue b @ ask_queue b"
  by (simp add: book_nodes_def bid_queue_def ask_queue_def)

lemma open_ids_nodes: "open_ids b = (orderId \<circ> snd) ` set (book_nodes b)"
  by (auto simp: open_ids_def book_nodes_def bid_queue_def ask_queue_def)

lemma getOpenOrders_queues: "getOpenOrders b = bid_queue b @ ask_queue b"
proof -
  have "concat (map (\<lambda>(p, xs). map snd xs) m) = map snd (om_flat m)" for m :: levels
    by (induction m) auto
  then show ?thesis by (simp add: getOpenOrders_def bid_queue_def ask_queue_def)
qed

lemma book_wf_locations: "book_wf b \<Longrightarrow> dom (orderLocations b) = open_ids b"
  by (simp add: book_wf_def dom_index_of open_ids_nodes)

lemma book_wf_distinct_ids: "book_wf b \<Longrightarrow> distinct (map orderId (getOpenOrders b))"
  by (simp add: book_wf_def book_nodes_def getOpenOrders_queues bid_queue_def ask_queue_def o_def)

lemma bid_queue_orders:
  "book_wf b \<Longrightarrow> x \<in> set (bid_queue b) \<Longrightarrow>
   side x = BUY \<and> not_nan (price x) \<and> 0 < remainingQuantity x"
  by (force simp: book_wf_def bid_queue_def dest: side_wf_nodes)

lemma ask_queue_orders:
  "book_wf b \<Longrightarrow> x \<in> set (ask_queue b) \<Longrightarrow>
   side x = SELL \<and> not_nan (price x) \<and> 0 < remainingQuantity x"
  by (force simp: book_wf_def ask_queue_def dest: side_wf_nodes)

lemma bid_queue_sorted:
  assumes "book_wf b"
  shows "sorted_wrt (\<lambda>x y. price y \<le> price x) (bid_queue b)"
proof -
  have wf: "side_wf std_greater BUY (bids b)" using assms by (simp add: book_wf_def)
  have "sorted_wrt (\<lambda>x y. - dkey (price (snd x)) \<le> - dkey (price (snd y))) (om_flat (bids b))"
    using bid_side.in_priority_flat [OF wf] by (simp add: bid_side.in_priority_def)
  then have "sorted_wrt (\<lambda>x y. price (snd y) \<le> price (snd x)) (om_flat (bids b))"
    by (rule sorted_wrt_mono_rel [rotated]) (use side_wf_nodes [OF wf] in \<open>simp add: not_nan_le\<close>)
  then show ?thesis by (simp add: bid_queue_def sorted_wrt_map)
qed

lemma ask_queue_sorted:
  assumes "book_wf b"
  shows "sorted_wrt (\<lambda>x y. price x \<le> price y) (ask_queue b)"
proof -
  have wf: "side_wf std_less SELL (asks b)" using assms by (simp add: book_wf_def)
  have "sorted_wrt (\<lambda>x y. dkey (price (snd x)) \<le> dkey (price (snd y))) (om_flat (asks b))"
    using ask_side.in_priority_flat [OF wf] by (simp add: ask_side.in_priority_def)
  then have "sorted_wrt (\<lambda>x y. price (snd x) \<le> price (snd y)) (om_flat (asks b))"
    by (rule sorted_wrt_mono_rel [rotated]) (use side_wf_nodes [OF wf] in \<open>simp add: not_nan_le\<close>)
  then show ?thesis by (simp add: ask_queue_def sorted_wrt_map)
qed

lemma bestBid_queue:
  "book_wf b \<Longrightarrow> bestBid b = (case bid_queue b of [] \<Rightarrow> None | x # _ \<Rightarrow> Some x)"
  by (auto simp: book_wf_def bestBid_def bid_queue_def side_wf_Cons split: list.splits)

lemma bestAsk_queue:
  "book_wf b \<Longrightarrow> bestAsk b = (case ask_queue b of [] \<Rightarrow> None | x # _ \<Rightarrow> Some x)"
  by (auto simp: book_wf_def bestAsk_def ask_queue_def side_wf_Cons split: list.splits)

subsection \<open>\<open>addOrder\<close>\<close>

text \<open>
  A new node anywhere in the list of nodes, at a fresh address and with a fresh order id, keeps
  the addresses, the ids and the index right.
\<close>

lemma book_nodes_insert:
  assumes "distinct (map fst (l @ r))" and "\<forall>nx\<in>set (l @ r). fst nx < n"
    and "distinct (map (orderId \<circ> snd) (l @ r))" and "orderId x \<notin> (orderId \<circ> snd) ` set (l @ r)"
  shows "distinct (map fst (l @ (n, x) # r))" and "\<forall>nx\<in>set (l @ (n, x) # r). fst nx < Suc n"
    and "distinct (map (orderId \<circ> snd) (l @ (n, x) # r))"
    and "index_of (l @ (n, x) # r) = (index_of (l @ r))(orderId x \<mapsto>
           \<lparr>loc_side = side x, loc_price = price x, loc_iterator = n\<rparr>)"
proof -
  have n: "n \<notin> fst ` set (l @ r)" using assms(2) by force
  show "distinct (map fst (l @ (n, x) # r))" using assms(1) n by auto
  show "\<forall>nx\<in>set (l @ (n, x) # r). fst nx < Suc n" using assms(2) by (auto simp: less_Suc_eq)
  show "distinct (map (orderId \<circ> snd) (l @ (n, x) # r))" using assms(3,4) by auto
  show "index_of (l @ (n, x) # r) = (index_of (l @ r))(orderId x \<mapsto>
           \<lparr>loc_side = side x, loc_price = price x, loc_iterator = n\<rparr>)"
    using index_of_insert [of "(n, x)" l r] assms(4) by simp
qed

lemma takeWhile_dropWhile_split:
  assumes "\<forall>y\<in>set l. P y" and "\<forall>y\<in>set r. \<not> P y"
  shows "takeWhile P (l @ r) = l" and "dropWhile P (l @ r) = r"
  using assms by (induction l) (auto simp: takeWhile_none dropWhile_none)

lemma addOrder_buy:
  assumes wf: "book_wf b" and x: "side x = BUY" "not_nan (price x)" "0 < remainingQuantity x"
    and fresh: "orderId x \<notin> open_ids b"
  shows "book_wf (addOrder x b)" and "bid_queue (addOrder x b) = enqueue_bid x (bid_queue b)"
    and "ask_queue (addOrder x b) = ask_queue b"
proof -
  let ?n = "heap_next b"
  let ?bs = "om_modify std_greater [] (price x) (\<lambda>l. l @ [(?n, x)]) (bids b)"
  have bwf: "side_wf std_greater BUY (bids b)" and awf: "side_wf std_less SELL (asks b)"
    using wf by (simp_all add: book_wf_def)
  have it: "last (om_at std_greater [] (price x) ?bs) = (?n, x)"
    and bwf': "side_wf std_greater BUY ?bs"
    using bid_side.side_push(1,3) [OF bwf x] by blast+
  obtain l r where lr: "om_flat (bids b) = l @ r" "om_flat ?bs = l @ (?n, x) # r"
    and l: "\<forall>nx\<in>set l. - dkey (price (snd nx)) \<le> - dkey (price x)"
    and r: "\<forall>nx\<in>set r. - dkey (price x) < - dkey (price (snd nx))"
    using bid_side.side_push(2) [OF bwf x] by blast
  have b': "addOrder x b = b\<lparr>bids := ?bs, heap_next := Suc ?n,
      orderLocations := (orderLocations b)(orderId x \<mapsto>
        \<lparr>loc_side = BUY, loc_price = price x, loc_iterator = ?n\<rparr>)\<rparr>"
    using x(1) it by (simp add: addOrder_def Let_def)
  have ids: "orderId x \<notin> (orderId \<circ> snd) ` set (l @ r @ om_flat (asks b))"
    using fresh lr(1) by (simp add: open_ids_nodes book_nodes_def)
  note nodes = book_nodes_insert [of l "r @ om_flat (asks b)" ?n x]
  show "book_wf (addOrder x b)"
    using wf nodes ids bwf' awf x(1) by (simp add: b' book_wf_def book_nodes_def lr)
  have nn: "not_nan (price (snd nx))" if "nx \<in> set l \<union> set r" for nx
    using side_wf_nodes [OF bwf, of nx] lr(1) that by auto
  have "\<forall>y\<in>set (map snd l). price x \<le> price y" "\<forall>y\<in>set (map snd r). \<not> price x \<le> price y"
    using l r nn x(2) by (auto simp: not_nan_le)
  note takeWhile_dropWhile_split [OF this]
  then show "bid_queue (addOrder x b) = enqueue_bid x (bid_queue b)"
    by (simp add: b' bid_queue_def enqueue_bid_def lr)
  show "ask_queue (addOrder x b) = ask_queue b" by (simp add: b' ask_queue_def)
qed

lemma addOrder_sell:
  assumes wf: "book_wf b" and x: "side x = SELL" "not_nan (price x)" "0 < remainingQuantity x"
    and fresh: "orderId x \<notin> open_ids b"
  shows "book_wf (addOrder x b)" and "ask_queue (addOrder x b) = enqueue_ask x (ask_queue b)"
    and "bid_queue (addOrder x b) = bid_queue b"
proof -
  let ?n = "heap_next b"
  let ?as = "om_modify std_less [] (price x) (\<lambda>l. l @ [(?n, x)]) (asks b)"
  have bwf: "side_wf std_greater BUY (bids b)" and awf: "side_wf std_less SELL (asks b)"
    using wf by (simp_all add: book_wf_def)
  have it: "last (om_at std_less [] (price x) ?as) = (?n, x)"
    and awf': "side_wf std_less SELL ?as"
    using ask_side.side_push(1,3) [OF awf x] by blast+
  obtain l r where lr: "om_flat (asks b) = l @ r" "om_flat ?as = l @ (?n, x) # r"
    and l: "\<forall>nx\<in>set l. dkey (price (snd nx)) \<le> dkey (price x)"
    and r: "\<forall>nx\<in>set r. dkey (price x) < dkey (price (snd nx))"
    using ask_side.side_push(2) [OF awf x] by blast
  have b': "addOrder x b = b\<lparr>asks := ?as, heap_next := Suc ?n,
      orderLocations := (orderLocations b)(orderId x \<mapsto>
        \<lparr>loc_side = SELL, loc_price = price x, loc_iterator = ?n\<rparr>)\<rparr>"
    using x(1) it by (simp add: addOrder_def Let_def)
  have ids: "orderId x \<notin> (orderId \<circ> snd) ` set ((om_flat (bids b) @ l) @ r)"
    using fresh lr(1) by (simp add: open_ids_nodes book_nodes_def)
  note nodes = book_nodes_insert [of "om_flat (bids b) @ l" r ?n x]
  show "book_wf (addOrder x b)"
    using wf nodes ids bwf awf' x(1) by (simp add: b' book_wf_def book_nodes_def lr)
  have nn: "not_nan (price (snd nx))" if "nx \<in> set l \<union> set r" for nx
    using side_wf_nodes [OF awf, of nx] lr(1) that by auto
  have "\<forall>y\<in>set (map snd l). price y \<le> price x" "\<forall>y\<in>set (map snd r). \<not> price y \<le> price x"
    using l r nn x(2) by (auto simp: not_nan_le)
  note takeWhile_dropWhile_split [OF this]
  then show "ask_queue (addOrder x b) = enqueue_ask x (ask_queue b)"
    by (simp add: b' ask_queue_def enqueue_ask_def lr)
  show "bid_queue (addOrder x b) = bid_queue b" by (simp add: b' bid_queue_def)
qed

subsection \<open>\<open>removeBestBid\<close>, \<open>removeBestAsk\<close> and writes to the best order\<close>

lemma index_of_delete:
  assumes "distinct (map (orderId \<circ> snd) (l @ nx # r))"
  shows "(index_of (l @ nx # r))(orderId (snd nx) := None) = index_of (l @ r)"
proof -
  have "orderId (snd nx) \<notin> (orderId \<circ> snd) ` set (l @ r)" using assms by auto
  moreover from this have "index_of (l @ r) (orderId (snd nx)) = None"
    using dom_index_of by blast
  ultimately show ?thesis by (auto simp: index_of_insert fun_eq_iff)
qed

text \<open>An order whose identity and price a write leaves alone keeps its place in the index.\<close>

definition keeps_place :: "(order \<Rightarrow> order) \<Rightarrow> order \<Rightarrow> bool" where
  "keeps_place f x \<longleftrightarrow>
     orderId (f x) = orderId x \<and> side (f x) = side x \<and> price (f x) = price x \<and>
     0 < remainingQuantity (f x)"

lemma index_of_write:
  "keeps_place f x \<Longrightarrow> index_of (l @ (n, f x) # r) = index_of (l @ (n, x) # r)"
  by (simp add: index_of_def node_location_def keeps_place_def)

lemma removeBestBid_queue:
  assumes wf: "book_wf b" and q: "bid_queue b = x # q"
  obtains b' where "removeBestBid b = (True, b')" and "book_wf b'" and "bid_queue b' = q"
    and "ask_queue b' = ask_queue b"
proof -
  have bwf: "side_wf std_greater BUY (bids b)" using wf by (simp add: book_wf_def)
  obtain n ys where f: "om_flat (bids b) = (n, x) # ys" "q = map snd ys"
    using q by (auto simp: bid_queue_def map_eq_Cons_conv)
  obtain p xs m where m: "bids b = (p, (n, x) # xs) # m" "ys = xs @ om_flat m"
    by (rule bid_side.side_front [OF bwf f(1)])
  let ?m = "if xs = [] then m else (p, xs) # m"
  let ?b = "b\<lparr>orderLocations := (orderLocations b)(orderId x := None), bids := ?m\<rparr>"
  have pop: "side_wf std_greater BUY ?m" "om_flat ?m = ys"
    using bid_side.side_pop bwf unfolding m by auto
  show thesis
  proof (rule that)
    show "removeBestBid b = (True, ?b)" by (simp add: removeBestBid_def m)
    show "book_wf ?b"
      using wf pop index_of_delete [of "[]" "(n, x)" "ys @ om_flat (asks b)"]
      by (simp add: book_wf_def book_nodes_def f(1))
    show "bid_queue ?b = q" using pop(2) f(2) by (simp add: bid_queue_def)
    show "ask_queue ?b = ask_queue b" by (simp add: ask_queue_def)
  qed
qed

lemma removeBestAsk_queue:
  assumes wf: "book_wf b" and q: "ask_queue b = x # q"
  obtains b' where "removeBestAsk b = (True, b')" and "book_wf b'" and "ask_queue b' = q"
    and "bid_queue b' = bid_queue b"
proof -
  have awf: "side_wf std_less SELL (asks b)" using wf by (simp add: book_wf_def)
  obtain n ys where f: "om_flat (asks b) = (n, x) # ys" "q = map snd ys"
    using q by (auto simp: ask_queue_def map_eq_Cons_conv)
  obtain p xs m where m: "asks b = (p, (n, x) # xs) # m" "ys = xs @ om_flat m"
    by (rule ask_side.side_front [OF awf f(1)])
  let ?m = "if xs = [] then m else (p, xs) # m"
  let ?b = "b\<lparr>orderLocations := (orderLocations b)(orderId x := None), asks := ?m\<rparr>"
  have pop: "side_wf std_less SELL ?m" "om_flat ?m = ys"
    using ask_side.side_pop awf unfolding m by auto
  show thesis
  proof (rule that)
    show "removeBestAsk b = (True, ?b)" by (simp add: removeBestAsk_def m)
    show "book_wf ?b"
      using wf pop index_of_delete [of "om_flat (bids b)" "(n, x)" ys]
      by (simp add: book_wf_def book_nodes_def f(1))
    show "ask_queue ?b = q" using pop(2) f(2) by (simp add: ask_queue_def)
    show "bid_queue ?b = bid_queue b" by (simp add: bid_queue_def)
  qed
qed

lemma updateBestBid_queue:
  assumes wf: "book_wf b" and q: "bid_queue b = x # q" and f: "keeps_place f x"
  shows "book_wf (updateBestBid f b)" and "bid_queue (updateBestBid f b) = f x # q"
    and "ask_queue (updateBestBid f b) = ask_queue b"
proof -
  have bwf: "side_wf std_greater BUY (bids b)" using wf by (simp add: book_wf_def)
  obtain n ys where fl: "om_flat (bids b) = (n, x) # ys" "q = map snd ys"
    using q by (auto simp: bid_queue_def map_eq_Cons_conv)
  have u: "side_wf std_greater BUY (update_front f (bids b))"
    "om_flat (update_front f (bids b)) = (n, f x) # ys"
    using f bid_side.side_update_front [OF bwf fl(1), of f] by (simp_all add: keeps_place_def)
  show "book_wf (updateBestBid f b)"
    using wf u f index_of_write [OF f, of "[]"]
    by (simp add: book_wf_def book_nodes_def updateBestBid_def fl(1) keeps_place_def)
  show "bid_queue (updateBestBid f b) = f x # q" "ask_queue (updateBestBid f b) = ask_queue b"
    using u(2) fl(2) by (simp_all add: bid_queue_def ask_queue_def updateBestBid_def)
qed

lemma updateBestAsk_queue:
  assumes wf: "book_wf b" and q: "ask_queue b = x # q" and f: "keeps_place f x"
  shows "book_wf (updateBestAsk f b)" and "ask_queue (updateBestAsk f b) = f x # q"
    and "bid_queue (updateBestAsk f b) = bid_queue b"
proof -
  have awf: "side_wf std_less SELL (asks b)" using wf by (simp add: book_wf_def)
  obtain n ys where fl: "om_flat (asks b) = (n, x) # ys" "q = map snd ys"
    using q by (auto simp: ask_queue_def map_eq_Cons_conv)
  have u: "side_wf std_less SELL (update_front f (asks b))"
    "om_flat (update_front f (asks b)) = (n, f x) # ys"
    using f ask_side.side_update_front [OF awf fl(1), of f] by (simp_all add: keeps_place_def)
  show "book_wf (updateBestAsk f b)"
    using wf u f index_of_write [OF f]
    by (simp add: book_wf_def book_nodes_def updateBestAsk_def fl(1) keeps_place_def)
  show "ask_queue (updateBestAsk f b) = f x # q" "bid_queue (updateBestAsk f b) = bid_queue b"
    using u(2) fl(2) by (simp_all add: bid_queue_def ask_queue_def updateBestAsk_def)
qed

subsection \<open>\<open>cancelOrder\<close>\<close>

lemma cancelOrder_miss:
  "book_wf b \<Longrightarrow> i \<notin> open_ids b \<Longrightarrow> cancelOrder i b = Some (False, b)"
  using book_wf_locations [of b] by (auto simp: cancelOrder_def split: option.splits)

lemma distinct_map_filter: "distinct (map f xs) \<Longrightarrow> distinct (map f (filter P xs))"
  by (rule distinct_map_filterI)

text \<open>Removing one order everywhere at once: from its level and from the index.\<close>

abbreviation without_id :: "u64 \<Rightarrow> node list \<Rightarrow> node list" where
  "without_id i \<equiv> filter (\<lambda>nx. orderId (snd nx) \<noteq> i)"

lemma book_wf_remove:
  assumes "book_wf b" and "side_wf std_greater BUY (bids b')" and "side_wf std_less SELL (asks b')"
    and q: "om_flat (bids b') = without_id i (om_flat (bids b))"
      "om_flat (asks b') = without_id i (om_flat (asks b))"
    and "orderLocations b' = (orderLocations b)(i := None)" and "heap_next b' = heap_next b"
  shows "book_wf b'" and "bid_queue b' = filter (\<lambda>x. orderId x \<noteq> i) (bid_queue b)"
    and "ask_queue b' = filter (\<lambda>x. orderId x \<noteq> i) (ask_queue b)"
proof -
  have n': "book_nodes b' = without_id i (book_nodes b)" using q by (simp add: book_nodes_def)
  show "book_wf b'"
    using assms(1-3,6,7) by (simp add: book_wf_def n' index_of_remove distinct_map_filter)
  show "bid_queue b' = filter (\<lambda>x. orderId x \<noteq> i) (bid_queue b)"
    "ask_queue b' = filter (\<lambda>x. orderId x \<noteq> i) (ask_queue b)"
    using q by (simp_all add: bid_queue_def ask_queue_def filter_map o_def)
qed

text \<open>Where an order id that is in the index leads: to exactly one node, on the side it says.\<close>

lemma location_found:
  assumes wf: "book_wf b" and i: "i \<in> open_ids b"
  obtains n x where "orderId x = i"
    and "orderLocations b i = Some \<lparr>loc_side = side x, loc_price = price x, loc_iterator = n\<rparr>"
    and "side x = BUY \<Longrightarrow> (n, x) \<in> set (om_flat (bids b))"
    and "side x = SELL \<Longrightarrow> (n, x) \<in> set (om_flat (asks b))"
    and "\<And>mx. mx \<in> set (book_nodes b) \<Longrightarrow> fst mx = n \<longleftrightarrow> mx = (n, x)"
    and "\<And>mx. mx \<in> set (book_nodes b) \<Longrightarrow> orderId (snd mx) = i \<longleftrightarrow> mx = (n, x)"
proof -
  obtain loc where loc: "orderLocations b i = Some loc"
    using i book_wf_locations [OF wf] by blast
  moreover have idx: "orderLocations b = index_of (book_nodes b)" using wf by (simp add: book_wf_def)
  ultimately obtain nx where nx: "nx \<in> set (book_nodes b)" "orderId (snd nx) = i"
    "loc_side loc = side (snd nx)" "loc_price loc = price (snd nx)" "loc_iterator loc = fst nx"
    by (metis index_of_Some)
  show thesis
  proof (rule that [of "snd nx" "fst nx"])
    show "orderLocations b i = Some \<lparr>loc_side = side (snd nx), loc_price = price (snd nx),
      loc_iterator = fst nx\<rparr>"
      using loc nx(3-5) by simp
    show "(fst nx, snd nx) \<in> set (om_flat (bids b))" if "side (snd nx) = BUY"
      using nx(1) wf that by (auto simp: book_nodes_def book_wf_def dest: side_wf_nodes)
    show "(fst nx, snd nx) \<in> set (om_flat (asks b))" if "side (snd nx) = SELL"
      using nx(1) wf that by (auto simp: book_nodes_def book_wf_def dest: side_wf_nodes)
    show "fst mx = fst nx \<longleftrightarrow> mx = (fst nx, snd nx)" if "mx \<in> set (book_nodes b)" for mx
      using wf distinct_key_eq [OF _ nx(1) that, of fst] by (simp add: book_wf_def)
    show "orderId (snd mx) = i \<longleftrightarrow> mx = (fst nx, snd nx)" if "mx \<in> set (book_nodes b)" for mx
      using wf distinct_key_eq [OF _ nx(1) that, of "orderId \<circ> snd"] nx(2) by (simp add: book_wf_def)
  qed (use nx in simp)
qed

lemma cancelOrder_hit:
  assumes wf: "book_wf b" and i: "i \<in> open_ids b"
  obtains b' where "cancelOrder i b = Some (True, b')" and "book_wf b'"
    and "bid_queue b' = filter (\<lambda>x. orderId x \<noteq> i) (bid_queue b)"
    and "ask_queue b' = filter (\<lambda>x. orderId x \<noteq> i) (ask_queue b)"
proof -
  have bwf: "side_wf std_greater BUY (bids b)" and awf: "side_wf std_less SELL (asks b)"
    and db: "distinct (map fst (om_flat (bids b)))" and das: "distinct (map fst (om_flat (asks b)))"
    using wf by (simp_all add: book_wf_def book_nodes_def)
  obtain n x where x: "orderId x = i"
    "orderLocations b i = Some \<lparr>loc_side = side x, loc_price = price x, loc_iterator = n\<rparr>"
    and xb: "side x = BUY \<Longrightarrow> (n, x) \<in> set (om_flat (bids b))"
    and xa: "side x = SELL \<Longrightarrow> (n, x) \<in> set (om_flat (asks b))"
    and addr: "\<And>mx. mx \<in> set (book_nodes b) \<Longrightarrow> fst mx = n \<longleftrightarrow> mx = (n, x)"
    and key: "\<And>mx. mx \<in> set (book_nodes b) \<Longrightarrow> orderId (snd mx) = i \<longleftrightarrow> mx = (n, x)"
    by (rule location_found [OF wf i]) blast
  have rm: "filter (\<lambda>nx. fst nx \<noteq> n) (om_flat (bids b)) = without_id i (om_flat (bids b))"
    "filter (\<lambda>nx. fst nx \<noteq> n) (om_flat (asks b)) = without_id i (om_flat (asks b))"
    using addr key by (simp_all add: book_nodes_def cong: filter_cong)
  show thesis
  proof (cases "side x")
    case BUY
    obtain level where le: "list_erase n (om_at std_greater [] (price x) (bids b)) = Some level"
      and new: "side_wf std_greater BUY (put_level std_greater (price x) level (bids b))"
        "om_flat (put_level std_greater (price x) level (bids b)) = without_id i (om_flat (bids b))"
      using bid_side.side_erase [OF bwf xb [OF BUY] db] rm(1) by metis
    have other: "without_id i (om_flat (asks b)) = om_flat (asks b)"
      using key BUY side_wf_nodes [OF awf] by (fastforce simp: filter_id_conv book_nodes_def)
    let ?b = "b\<lparr>bids := put_level std_greater (price x) level (bids b),
                orderLocations := (orderLocations b)(i := None)\<rparr>"
    have "cancelOrder i b = Some (True, ?b)" using x le BUY by (simp add: cancelOrder_def)
    then show thesis using that book_wf_remove [OF wf, of ?b i] new awf other by simp
  next
    case SELL
    obtain level where le: "list_erase n (om_at std_less [] (price x) (asks b)) = Some level"
      and new: "side_wf std_less SELL (put_level std_less (price x) level (asks b))"
        "om_flat (put_level std_less (price x) level (asks b)) = without_id i (om_flat (asks b))"
      using ask_side.side_erase [OF awf xa [OF SELL] das] rm(2) by metis
    have other: "without_id i (om_flat (bids b)) = om_flat (bids b)"
      using key SELL side_wf_nodes [OF bwf] by (fastforce simp: filter_id_conv book_nodes_def)
    let ?b = "b\<lparr>asks := put_level std_less (price x) level (asks b),
                orderLocations := (orderLocations b)(i := None)\<rparr>"
    have "cancelOrder i b = Some (True, ?b)" using x le SELL by (simp add: cancelOrder_def)
    then show thesis using that book_wf_remove [OF wf, of ?b i] new bwf other by simp
  qed
qed

end
