(* ===== verification/Matching_Engine.thy ===== *)
theory Matching_Engine
  imports Book_Invariant
begin

text \<open>
  The class \<open>MatchingEngine\<close> (\<open>engine/include/MatchingEngine.h\<close>,
  \<open>engine/src/MatchingEngine.cpp\<close>). The \<open>while\<close> loop of \<open>placeOrder\<close> is \<open>match_loop\<close> over
  the loop's variables: the incoming order (a by-value parameter the loop changes), the engine
  and the events so far. \<open>match_buy\<close> and \<open>match_sell\<close> are its two branches; \<open>None\<close> is
  \<open>break\<close>. The loop ends for every engine state: see the termination proof.
\<close>

record engine =
  orderBook :: order_book
  recentTrades :: "trade list"
  nextTradeId :: u64
  nextTimestamp :: u64

definition initial_engine :: engine where
  "initial_engine =
     \<lparr>orderBook = empty_book, recentTrades = [], nextTradeId = 1, nextTimestamp = 1\<rparr>"

type_synonym loop_state = "order \<times> engine \<times> event list"

definition match_buy :: "loop_state \<Rightarrow> loop_state option" where
  "match_buy = (\<lambda>(x, e, evs).
     case bestAsk (orderBook e) of
       None \<Rightarrow> None
     | Some sellOrder \<Rightarrow>
         if orderType x = LIMIT \<and> price x < price sellOrder then None
         else
           let tradeQuantity = min (remainingQuantity x) (remainingQuantity sellOrder);
               tr = \<lparr>tradeId = nextTradeId e, buyOrderId = orderId x,
                     sellOrderId = orderId sellOrder, trade_price = price sellOrder,
                     trade_quantity = tradeQuantity, trade_timestamp = nextTimestamp e\<rparr>;
               x' = x\<lparr>remainingQuantity := remainingQuantity x - tradeQuantity\<rparr>;
               left = remainingQuantity sellOrder - tradeQuantity;
               b = updateBestAsk (\<lambda>s. s\<lparr>remainingQuantity := remainingQuantity s - tradeQuantity\<rparr>)
                     (orderBook e);
               e' = e\<lparr>nextTradeId := nextTradeId e + 1, nextTimestamp := nextTimestamp e + 1,
                      recentTrades := recentTrades e @ [tr]\<rparr>
           in if left = 0
              then Some (x', e'\<lparr>orderBook := snd (removeBestAsk b)\<rparr>,
                evs @ [trade_event tr, id_event ORDER_COMPLETELY_FILLED (orderId sellOrder)])
              else Some (x', e'\<lparr>orderBook := b\<rparr>,
                evs @ [trade_event tr, id_event ORDER_PARTIALLY_FILLED (orderId sellOrder)]))"

definition match_sell :: "loop_state \<Rightarrow> loop_state option" where
  "match_sell = (\<lambda>(x, e, evs).
     case bestBid (orderBook e) of
       None \<Rightarrow> None
     | Some buyOrder \<Rightarrow>
         if orderType x = LIMIT \<and> price x > price buyOrder then None
         else
           let tradeQuantity = min (remainingQuantity x) (remainingQuantity buyOrder);
               tr = \<lparr>tradeId = nextTradeId e, buyOrderId = orderId buyOrder,
                     sellOrderId = orderId x, trade_price = price buyOrder,
                     trade_quantity = tradeQuantity, trade_timestamp = nextTimestamp e\<rparr>;
               x' = x\<lparr>remainingQuantity := remainingQuantity x - tradeQuantity\<rparr>;
               left = remainingQuantity buyOrder - tradeQuantity;
               b = updateBestBid (\<lambda>s. s\<lparr>remainingQuantity := remainingQuantity s - tradeQuantity\<rparr>)
                     (orderBook e);
               e' = e\<lparr>nextTradeId := nextTradeId e + 1, nextTimestamp := nextTimestamp e + 1,
                      recentTrades := recentTrades e @ [tr]\<rparr>
           in if left = 0
              then Some (x', e'\<lparr>orderBook := snd (removeBestBid b)\<rparr>,
                evs @ [trade_event tr, id_event ORDER_COMPLETELY_FILLED (orderId buyOrder)])
              else Some (x', e'\<lparr>orderBook := b\<rparr>,
                evs @ [trade_event tr, id_event ORDER_PARTIALLY_FILLED (orderId buyOrder)]))"

subsection \<open>What one iteration does\<close>

text \<open>Whether the incoming order may trade with the best resting order of the other side.\<close>

definition crosses_buy :: "order \<Rightarrow> order \<Rightarrow> bool" where
  "crosses_buy x s \<longleftrightarrow> \<not> (orderType x = LIMIT \<and> price x < price s)"

definition crosses_sell :: "order \<Rightarrow> order \<Rightarrow> bool" where
  "crosses_sell x s \<longleftrightarrow> \<not> (orderType x = LIMIT \<and> price x > price s)"

text \<open>The trade between an incoming order \<open>x\<close> and a resting order \<open>r\<close>, at the price of \<open>r\<close>.\<close>

definition mk_trade :: "order \<Rightarrow> order \<Rightarrow> u64 \<Rightarrow> u64 \<Rightarrow> u64 \<Rightarrow> trade" where
  "mk_trade x r q tid ts =
     \<lparr>tradeId = tid, buyOrderId = (if side x = BUY then orderId x else orderId r),
      sellOrderId = (if side x = BUY then orderId r else orderId x),
      trade_price = price r, trade_quantity = q, trade_timestamp = ts\<rparr>"

definition log_trade :: "trade \<Rightarrow> order_book \<Rightarrow> engine \<Rightarrow> engine" where
  "log_trade tr b e =
     e\<lparr>orderBook := b, recentTrades := recentTrades e @ [tr],
       nextTradeId := nextTradeId e + 1, nextTimestamp := nextTimestamp e + 1\<rparr>"

abbreviation take_quantity :: "u64 \<Rightarrow> order \<Rightarrow> order" where
  "take_quantity q \<equiv> \<lambda>s. s\<lparr>remainingQuantity := remainingQuantity s - q\<rparr>"

lemma match_buy_break:
  "bestAsk (orderBook e) = None \<Longrightarrow> match_buy (x, e, evs) = None"
  "bestAsk (orderBook e) = Some s \<Longrightarrow> \<not> crosses_buy x s \<Longrightarrow> match_buy (x, e, evs) = None"
  by (simp_all add: match_buy_def crosses_buy_def)

lemma match_sell_break:
  "bestBid (orderBook e) = None \<Longrightarrow> match_sell (x, e, evs) = None"
  "bestBid (orderBook e) = Some s \<Longrightarrow> \<not> crosses_sell x s \<Longrightarrow> match_sell (x, e, evs) = None"
  by (simp_all add: match_sell_def crosses_sell_def)

lemma match_buy_fill:
  assumes "bestAsk (orderBook e) = Some s" and "crosses_buy x s" and "side x = BUY"
    and "remainingQuantity s \<le> remainingQuantity x"
  defines "q \<equiv> remainingQuantity s"
    and "tr \<equiv> mk_trade x s (remainingQuantity s) (nextTradeId e) (nextTimestamp e)"
  shows "match_buy (x, e, evs) =
    Some (take_quantity q x, log_trade tr (snd (removeBestAsk (updateBestAsk (take_quantity q) (orderBook e)))) e,
          evs @ [trade_event tr, id_event ORDER_COMPLETELY_FILLED (orderId s)])"
  using assms(1-4) unfolding q_def tr_def
  by (simp add: match_buy_def crosses_buy_def min_absorb2 Let_def mk_trade_def log_trade_def)

lemma match_buy_partial:
  assumes "bestAsk (orderBook e) = Some s" and "crosses_buy x s" and "side x = BUY"
    and "remainingQuantity x < remainingQuantity s"
  defines "q \<equiv> remainingQuantity x"
    and "tr \<equiv> mk_trade x s (remainingQuantity x) (nextTradeId e) (nextTimestamp e)"
  shows "match_buy (x, e, evs) =
    Some (take_quantity q x, log_trade tr (updateBestAsk (take_quantity q) (orderBook e)) e,
          evs @ [trade_event tr, id_event ORDER_PARTIALLY_FILLED (orderId s)])"
  using assms(1-4) unfolding q_def tr_def
  by (simp add: match_buy_def crosses_buy_def min_absorb1 Let_def mk_trade_def log_trade_def)

lemma match_sell_fill:
  assumes "bestBid (orderBook e) = Some s" and "crosses_sell x s" and "side x = SELL"
    and "remainingQuantity s \<le> remainingQuantity x"
  defines "q \<equiv> remainingQuantity s"
    and "tr \<equiv> mk_trade x s (remainingQuantity s) (nextTradeId e) (nextTimestamp e)"
  shows "match_sell (x, e, evs) =
    Some (take_quantity q x, log_trade tr (snd (removeBestBid (updateBestBid (take_quantity q) (orderBook e)))) e,
          evs @ [trade_event tr, id_event ORDER_COMPLETELY_FILLED (orderId s)])"
  using assms(1-4) unfolding q_def tr_def
  by (simp add: match_sell_def crosses_sell_def min_absorb2 Let_def mk_trade_def log_trade_def)

lemma match_sell_partial:
  assumes "bestBid (orderBook e) = Some s" and "crosses_sell x s" and "side x = SELL"
    and "remainingQuantity x < remainingQuantity s"
  defines "q \<equiv> remainingQuantity x"
    and "tr \<equiv> mk_trade x s (remainingQuantity x) (nextTradeId e) (nextTimestamp e)"
  shows "match_sell (x, e, evs) =
    Some (take_quantity q x, log_trade tr (updateBestBid (take_quantity q) (orderBook e)) e,
          evs @ [trade_event tr, id_event ORDER_PARTIALLY_FILLED (orderId s)])"
  using assms(1-4) unfolding q_def tr_def
  by (simp add: match_sell_def crosses_sell_def min_absorb1 Let_def mk_trade_def log_trade_def)

subsection \<open>Termination of the loop\<close>

text \<open>
  Each iteration either takes an order off the opposite side or uses the incoming order up. No
  invariant is needed.
\<close>

definition resting_count :: "levels \<Rightarrow> nat" where
  "resting_count m = length (om_flat m)"

definition loop_measure :: "loop_state \<Rightarrow> nat" where
  "loop_measure = (\<lambda>(x, e, evs).
     (if remainingQuantity x = 0 then 0 else 1) +
     (if side x = BUY then resting_count (asks (orderBook e))
      else resting_count (bids (orderBook e))))"

lemma resting_count_update_front [simp]: "resting_count (update_front f m) = resting_count m"
  by (induction f m rule: update_front.induct) (auto simp: resting_count_def)

lemma removeBestAsk_count:
  "bestAsk b = Some s \<Longrightarrow>
   resting_count (asks (snd (removeBestAsk (updateBestAsk f b)))) < resting_count (asks b)"
  by (auto simp: bestAsk_def removeBestAsk_def updateBestAsk_def resting_count_def split: list.splits)

lemma removeBestBid_count:
  "bestBid b = Some s \<Longrightarrow>
   resting_count (bids (snd (removeBestBid (updateBestBid f b)))) < resting_count (bids b)"
  by (auto simp: bestBid_def removeBestBid_def updateBestBid_def resting_count_def split: list.splits)

lemma match_buy_decreases:
  assumes "match_buy (x, e, evs) = Some st" and "side x = BUY" and "0 < remainingQuantity x"
  shows "loop_measure st < loop_measure (x, e, evs)"
proof -
  obtain s where s: "bestAsk (orderBook e) = Some s" and c: "crosses_buy x s"
    using assms(1) match_buy_break by (cases "bestAsk (orderBook e)") fastforce+
  show ?thesis
  proof (cases "remainingQuantity s \<le> remainingQuantity x")
    case True
    then show ?thesis
      using assms removeBestAsk_count [OF s] match_buy_fill [OF s c assms(2) True]
      by (auto simp: loop_measure_def log_trade_def less_SucI)
  next
    case False
    then have "remainingQuantity x < remainingQuantity s" by simp
    then show ?thesis
      using assms match_buy_partial [OF s c assms(2)]
      by (auto simp: loop_measure_def log_trade_def updateBestAsk_def)
  qed
qed

lemma match_sell_decreases:
  assumes "match_sell (x, e, evs) = Some st" and "side x \<noteq> BUY" and "0 < remainingQuantity x"
  shows "loop_measure st < loop_measure (x, e, evs)"
proof -
  have sell: "side x = SELL" using assms(2) by (cases "side x") auto
  obtain s where s: "bestBid (orderBook e) = Some s" and c: "crosses_sell x s"
    using assms(1) match_sell_break by (cases "bestBid (orderBook e)") fastforce+
  show ?thesis
  proof (cases "remainingQuantity s \<le> remainingQuantity x")
    case True
    then show ?thesis
      using assms removeBestBid_count [OF s] match_sell_fill [OF s c sell True]
      by (auto simp: loop_measure_def log_trade_def less_SucI)
  next
    case False
    then have "remainingQuantity x < remainingQuantity s" by simp
    then show ?thesis
      using assms match_sell_partial [OF s c sell]
      by (auto simp: loop_measure_def log_trade_def updateBestBid_def)
  qed
qed

function match_loop :: "loop_state \<Rightarrow> loop_state" where
  "match_loop (x, e, evs) =
     (if remainingQuantity x > 0 then
        (case (if side x = BUY then match_buy (x, e, evs) else match_sell (x, e, evs)) of
           None \<Rightarrow> (x, e, evs)
         | Some st \<Rightarrow> match_loop st)
      else (x, e, evs))"
  by pat_completeness auto
termination
  by (relation "measure loop_measure")
     (auto intro: match_buy_decreases match_sell_decreases split: if_splits)

declare match_loop.simps [simp del]

section \<open>The operations of the class\<close>

definition placeOrder :: "order \<Rightarrow> engine \<Rightarrow> engine \<times> event list" where
  "placeOrder x e =
     (let (x', e', evs) = match_loop (x, e, [id_event ORDER_ACCEPTED (orderId x)]);
          evs' = (if remainingQuantity x' = 0
                  then evs @ [id_event ORDER_COMPLETELY_FILLED (orderId x')]
                  else if remainingQuantity x' < quantity x'
                  then evs @ [id_event ORDER_PARTIALLY_FILLED (orderId x')]
                  else evs);
          e'' = (if remainingQuantity x' > 0 \<and> orderType x' = LIMIT
                 then e'\<lparr>orderBook := addOrder x' (orderBook e')\<rparr>
                 else e')
      in (e'', evs' @ [book_event]))"

text \<open>\<open>cancelOrder\<close>; \<open>None\<close> when the order book operation is undefined behaviour.\<close>

definition engine_cancelOrder :: "u64 \<Rightarrow> engine \<Rightarrow> (engine \<times> event list) option" where
  "engine_cancelOrder i e =
     (case cancelOrder i (orderBook e) of
        None \<Rightarrow> None
      | Some (found, b) \<Rightarrow>
          Some (e\<lparr>orderBook := b\<rparr>,
                if found then [id_event ORDER_CANCELLED i, book_event] else []))"

definition getOrderBook :: "engine \<Rightarrow> order_book" where
  "getOrderBook e = orderBook e"

definition engine_getOpenOrders :: "engine \<Rightarrow> order list" where
  "engine_getOpenOrders e = getOpenOrders (orderBook e)"

definition getRecentTrades :: "engine \<Rightarrow> trade list" where
  "getRecentTrades e = recentTrades e"

lemmas [engine_simps] =
  match_buy_def match_sell_def placeOrder_def engine_cancelOrder_def getOrderBook_def
  engine_getOpenOrders_def getRecentTrades_def initial_engine_def empty_book_def

end
