(* ===== verification/Matching_Spec.thy ===== *)
theory Matching_Spec
  imports Matching_Engine
begin

text \<open>
  Price-time priority matching as a function on queues, the abstract specification of the loop
  of \<open>placeOrder\<close>: an incoming quantity is offered to the resting orders of the opposite side
  from the front, as long as something is left and the front order is acceptable.
  \<open>fills ok n q\<close> returns the fills (resting order as it was, quantity traded), what is left of
  the incoming quantity, and the queue afterwards.
\<close>

fun fills :: "(order \<Rightarrow> bool) \<Rightarrow> u64 \<Rightarrow> order list \<Rightarrow> (order \<times> u64) list \<times> u64 \<times> order list" where
  "fills ok n [] = ([], n, [])"
| "fills ok n (r # rs) =
     (if n = 0 \<or> \<not> ok r then ([], n, r # rs)
      else if remainingQuantity r \<le> n then
        (let (fs, n', rs') = fills ok (n - remainingQuantity r) rs
         in ((r, remainingQuantity r) # fs, n', rs'))
      else ([(r, n)], 0, take_quantity n r # rs))"

fun trades_of :: "order \<Rightarrow> (order \<times> u64) list \<Rightarrow> u64 \<Rightarrow> u64 \<Rightarrow> trade list" where
  "trades_of x [] tid ts = []"
| "trades_of x ((r, q) # fs) tid ts = mk_trade x r q tid ts # trades_of x fs (tid + 1) (ts + 1)"

fun fill_events :: "order \<Rightarrow> (order \<times> u64) list \<Rightarrow> u64 \<Rightarrow> u64 \<Rightarrow> event list" where
  "fill_events x [] tid ts = []"
| "fill_events x ((r, q) # fs) tid ts =
     trade_event (mk_trade x r q tid ts) #
     id_event (if q = remainingQuantity r then ORDER_COMPLETELY_FILLED else ORDER_PARTIALLY_FILLED)
       (orderId r) #
     fill_events x fs (tid + 1) (ts + 1)"

definition total :: "order list \<Rightarrow> nat" where
  "total q = sum_list (map (\<lambda>r. unat (remainingQuantity r)) q)"

definition traded :: "(order \<times> u64) list \<Rightarrow> nat" where
  "traded fs = sum_list (map (\<lambda>f. unat (snd f)) fs)"

lemma total_simps [simp]:
  "total [] = 0" "total (r # q) = unat (remainingQuantity r) + total q"
  "total (p @ q) = total p + total q"
  by (simp_all add: total_def)

lemma traded_simps [simp]: "traded [] = 0" "traded (f # fs) = unat (snd f) + traded fs"
  by (simp_all add: traded_def)

lemma fills_cases [consumes 1, case_names Stop Fill Partial]:
  assumes "fills ok n q = (fs, n', q')"
  obtains (Stop) "q = [] \<or> n = 0 \<or> \<not> ok (hd q)" and "fs = []" and "n' = n" and "q' = q"
    | (Fill) r rs fs' where "q = r # rs" and "n \<noteq> 0" and "ok r" and "remainingQuantity r \<le> n"
        and "fills ok (n - remainingQuantity r) rs = (fs', n', q')"
        and "fs = (r, remainingQuantity r) # fs'"
    | (Partial) r rs where "q = r # rs" and "n \<noteq> 0" and "ok r" and "n < remainingQuantity r"
        and "fs = [(r, n)]" and "n' = 0" and "q' = take_quantity n r # rs"
proof (cases q)
  case Nil
  with assms show thesis by (intro Stop) auto
next
  case (Cons r rs)
  consider (a) "n = 0 \<or> \<not> ok r" | (b) "n \<noteq> 0" "ok r" "remainingQuantity r \<le> n"
    | (c) "n \<noteq> 0" "ok r" "n < remainingQuantity r"
    using linorder_not_le by blast
  then show thesis
  proof cases
    case a
    with assms Cons show thesis by (intro Stop) auto
  next
    case b
    obtain fs' m q'' where f: "fills ok (n - remainingQuantity r) rs = (fs', m, q'')"
      by (cases "fills ok (n - remainingQuantity r) rs") auto
    have "fs = (r, remainingQuantity r) # fs'" "n' = m" "q' = q''"
      using assms b f by (simp_all add: Cons)
    with Cons b f show thesis by (intro Fill) simp_all
  next
    case c
    then have "\<not> remainingQuantity r \<le> n" by simp
    then have "fs = [(r, n)]" "n' = 0" "q' = take_quantity n r # rs"
      using assms c(1,2) by (simp_all add: Cons)
    with Cons c show thesis by (intro Partial) simp_all
  qed
qed

text \<open>Induction over a computation of \<open>fills\<close>.\<close>

lemma fills_induct [consumes 1, case_names Stop Fill Partial]:
  assumes "fills ok n q = (fs, n', q')"
    and "\<And>n q. q = [] \<or> n = 0 \<or> \<not> ok (hd q) \<Longrightarrow> P n q [] n q"
    and "\<And>n r rs fs n' q'. n \<noteq> 0 \<Longrightarrow> ok r \<Longrightarrow> remainingQuantity r \<le> n \<Longrightarrow>
      fills ok (n - remainingQuantity r) rs = (fs, n', q') \<Longrightarrow>
      P (n - remainingQuantity r) rs fs n' q' \<Longrightarrow>
      P n (r # rs) ((r, remainingQuantity r) # fs) n' q'"
    and "\<And>n r rs. n \<noteq> 0 \<Longrightarrow> ok r \<Longrightarrow> n < remainingQuantity r \<Longrightarrow>
      P n (r # rs) [(r, n)] 0 (take_quantity n r # rs)"
  shows "P n q fs n' q'"
  using assms(1)
proof (induction q arbitrary: n fs)
  case Nil
  then show ?case using assms(2) [of "[]" n] by simp
next
  case (Cons r rs)
  from Cons.prems show ?case
  proof (cases rule: fills_cases)
    case Stop
    then show ?thesis using assms(2) by simp
  next
    case (Fill r' rs' fs')
    then show ?thesis using Cons.IH assms(3) by simp
  next
    case (Partial r' rs')
    then show ?thesis using assms(4) by simp
  qed
qed

subsection \<open>What the specification guarantees\<close>

lemma fills_conserve_incoming: "fills ok n q = (fs, n', q') \<Longrightarrow> unat n = traded fs + unat n'"
  by (induction rule: fills_induct) (simp_all add: unat_sub word_le_nat_alt)

lemma fills_conserve_resting: "fills ok n q = (fs, n', q') \<Longrightarrow> total q = traded fs + total q'"
  by (induction rule: fills_induct) (simp_all add: unat_add_diff)

lemma fills_prefix: "fills ok n q = (fs, n', q') \<Longrightarrow> map fst fs = take (length fs) q"
  by (induction rule: fills_induct) simp_all

lemma fills_full_but_last:
  "fills ok n q = (fs, n', q') \<Longrightarrow> \<forall>f\<in>set (butlast fs). snd f = remainingQuantity (fst f)"
  by (induction rule: fills_induct) auto

lemma fills_quantities:
  "fills ok n q = (fs, n', q') \<Longrightarrow> \<forall>r\<in>set q. 0 < remainingQuantity r \<Longrightarrow>
   \<forall>f\<in>set fs. 0 < snd f \<and> snd f \<le> remainingQuantity (fst f) \<and> ok (fst f)"
  by (induction rule: fills_induct) (auto simp: word_neq_0_conv)

lemma fills_exhaust:
  "fills ok n q = (fs, n', q') \<Longrightarrow> n' = 0 \<or> q' = [] \<or> \<not> ok (hd q')"
  by (induction rule: fills_induct) auto

text \<open>The queue afterwards: the resting orders not reached, the first perhaps reduced.\<close>

lemma fills_rest:
  "fills ok n q = (fs, n', q') \<Longrightarrow>
   q' = drop (length fs) q \<or>
   (\<exists>r k. fs \<noteq> [] \<and> last fs = (r, k) \<and> k < remainingQuantity r \<and> n' = 0 \<and>
      q' = take_quantity k r # drop (length fs) q)"
  by (induction rule: fills_induct) auto

lemma fills_rest_positive:
  "fills ok n q = (fs, n', q') \<Longrightarrow> \<forall>r\<in>set q. 0 < remainingQuantity r \<Longrightarrow>
   \<forall>r\<in>set q'. 0 < remainingQuantity r"
  by (induction rule: fills_induct) (auto simp: word_gt_0)

text \<open>Every field but the quantity is kept.\<close>

lemma fills_rest_field:
  assumes "\<And>r k. f (take_quantity k r) = f r"
  shows "fills ok n q = (fs, n', q') \<Longrightarrow> \<exists>k \<le> length q. map f q' = drop k (map f q)"
proof (induction rule: fills_induct)
  case (Stop n q)
  then show ?case by (intro exI [of _ 0]) simp
next
  case (Fill n r rs fs n' q')
  then obtain k where "k \<le> length rs" "map f q' = drop k (map f rs)" by blast
  then show ?case by (intro exI [of _ "Suc k"]) simp
next
  case (Partial n r rs)
  then show ?case using assms by (intro exI [of _ 0]) simp
qed

lemma fills_rest_set:
  assumes "\<And>r k. f (take_quantity k r) = f r" and "fills ok n q = (fs, n', q')"
  shows "f ` set q' \<subseteq> f ` set q"
proof -
  obtain k where "map f q' = drop k (map f q)" using fills_rest_field [OF assms] by blast
  then have "set (map f q') \<subseteq> set (map f q)" by (metis set_drop_subset)
  then show ?thesis by simp
qed

lemma fills_length_trades: "length (trades_of x fs tid ts) = length fs"
  by (induction x fs tid ts rule: trades_of.induct) simp_all

lemma trades_of_quantity: "map trade_quantity (trades_of x fs tid ts) = map snd fs"
  by (induction x fs tid ts rule: trades_of.induct) (simp_all add: mk_trade_def)

lemma trades_of_price: "map trade_price (trades_of x fs tid ts) = map (price \<circ> fst) fs"
  by (induction x fs tid ts rule: trades_of.induct) (simp_all add: mk_trade_def)

lemma trades_of_ids:
  "map tradeId (trades_of x fs tid ts) = map (\<lambda>k. tid + of_nat k) [0..<length fs]"
proof (induction x fs tid ts rule: trades_of.induct)
  case (2 x r q fs tid ts)
  have "map (\<lambda>k. tid + of_nat k) [0..<Suc (length fs)] =
    tid # map (\<lambda>k. tid + 1 + of_nat k) [0..<length fs]"
    by (simp add: upt_conv_Cons map_Suc_upt [symmetric] o_def ac_simps del: upt_Suc map_Suc_upt)
  then show ?case using 2 by (simp add: mk_trade_def)
qed simp

lemma trades_of_same_order:
  "orderId y = orderId x \<Longrightarrow> side y = side x \<Longrightarrow> trades_of y fs tid ts = trades_of x fs tid ts"
  by (induction x fs tid ts rule: trades_of.induct) (simp_all add: mk_trade_def)

lemma fill_events_same_order:
  "orderId y = orderId x \<Longrightarrow> side y = side x \<Longrightarrow> fill_events y fs tid ts = fill_events x fs tid ts"
  by (induction x fs tid ts rule: fill_events.induct) (simp_all add: mk_trade_def)

end
