(* ===== verification/Matching_Correct.thy ===== *)
theory Matching_Correct
  imports Matching_Spec
begin

text \<open>
  \<open>placeOrder\<close> implements the matching specification. The locale \<open>matching_side\<close> is the
  contract between the matching loop and the order book for one direction of incoming order: how
  one iteration changes the opposite queue, and how \<open>addOrder\<close> changes the own queue. Its
  lemmas are proved once and interpreted for incoming BUY orders (opposite: asks) and SELL
  orders (opposite: bids).
\<close>

definition log_trades :: "trade list \<Rightarrow> order_book \<Rightarrow> engine \<Rightarrow> engine" where
  "log_trades trs b e =
     e\<lparr>orderBook := b, recentTrades := recentTrades e @ trs,
       nextTradeId := nextTradeId e + of_nat (length trs),
       nextTimestamp := nextTimestamp e + of_nat (length trs)\<rparr>"

lemma log_trades_Nil [simp]: "log_trades [] (orderBook e) e = e"
  by (simp add: log_trades_def)

lemma log_trades_Cons [simp]: "log_trades trs b' (log_trade tr b e) = log_trades (tr # trs) b' e"
  by (simp add: log_trades_def log_trade_def ac_simps)

lemma log_trades_single: "log_trade tr b e = log_trades [tr] b e"
  by (simp add: log_trades_def log_trade_def)

lemma log_trades_fields [simp]:
  "orderBook (log_trades trs b e) = b"
  "recentTrades (log_trades trs b e) = recentTrades e @ trs"
  "nextTradeId (log_trades trs b e) = nextTradeId e + of_nat (length trs)"
  "nextTimestamp (log_trades trs b e) = nextTimestamp e + of_nat (length trs)"
  "(log_trades trs b e)\<lparr>orderBook := b'\<rparr> = log_trades trs b' e"
  by (simp_all add: log_trades_def)

lemma log_trade_fields [simp]:
  "orderBook (log_trade tr b e) = b"
  "nextTradeId (log_trade tr b e) = nextTradeId e + 1"
  "nextTimestamp (log_trade tr b e) = nextTimestamp e + 1"
  by (simp_all add: log_trade_def)

text \<open>An order the engine may be given: it can rest, and its id is not in use on the book.\<close>

definition admissible :: "order \<Rightarrow> engine \<Rightarrow> bool" where
  "admissible x e \<longleftrightarrow>
     (orderType x = LIMIT \<longrightarrow> not_nan (price x)) \<and> orderId x \<notin> open_ids (orderBook e)"

definition final_events :: "order \<Rightarrow> u64 \<Rightarrow> event list" where
  "final_events x n =
     (if n = 0 then [id_event ORDER_COMPLETELY_FILLED (orderId x)]
      else if n < quantity x then [id_event ORDER_PARTIALLY_FILLED (orderId x)]
      else [])"

definition spec_events :: "order \<Rightarrow> (order \<times> u64) list \<Rightarrow> u64 \<Rightarrow> u64 \<Rightarrow> u64 \<Rightarrow> event list" where
  "spec_events x fs n tid ts =
     id_event ORDER_ACCEPTED (orderId x) # fill_events x fs tid ts @ final_events x n @ [book_event]"

locale matching_side =
  fixes sd :: side
    and crosses :: "order \<Rightarrow> order \<Rightarrow> bool"
    and opp own :: "order_book \<Rightarrow> order list"
    and enqueue :: "order \<Rightarrow> order list \<Rightarrow> order list"
    and step :: "loop_state \<Rightarrow> loop_state option"
  assumes crosses_quantity: "crosses (x\<lparr>remainingQuantity := n\<rparr>) = crosses x"
    and queues: "open_ids b = orderId ` (set (opp b) \<union> set (own b))"
    and opp_positive: "book_wf b \<Longrightarrow> \<forall>r\<in>set (opp b). 0 < remainingQuantity r"
    and loop: "side x = sd \<Longrightarrow> match_loop (x, e, evs) =
      (if 0 < remainingQuantity x then
         (case step (x, e, evs) of None \<Rightarrow> (x, e, evs) | Some st \<Rightarrow> match_loop st)
       else (x, e, evs))"
    and step_break: "book_wf (orderBook e) \<Longrightarrow>
      opp (orderBook e) = [] \<or> \<not> crosses x (hd (opp (orderBook e))) \<Longrightarrow> step (x, e, evs) = None"
    and step_fill: "book_wf (orderBook e) \<Longrightarrow> opp (orderBook e) = r # rs \<Longrightarrow> side x = sd \<Longrightarrow>
      crosses x r \<Longrightarrow> remainingQuantity r \<le> remainingQuantity x \<Longrightarrow>
      \<exists>b'. step (x, e, evs) =
          Some (take_quantity (remainingQuantity r) x,
                log_trade (mk_trade x r (remainingQuantity r) (nextTradeId e) (nextTimestamp e)) b' e,
                evs @ fill_events x [(r, remainingQuantity r)] (nextTradeId e) (nextTimestamp e))
        \<and> book_wf b' \<and> opp b' = rs \<and> own b' = own (orderBook e)"
    and step_partial: "book_wf (orderBook e) \<Longrightarrow> opp (orderBook e) = r # rs \<Longrightarrow> side x = sd \<Longrightarrow>
      crosses x r \<Longrightarrow> 0 < remainingQuantity x \<Longrightarrow> remainingQuantity x < remainingQuantity r \<Longrightarrow>
      \<exists>b'. step (x, e, evs) =
          Some (take_quantity (remainingQuantity x) x,
                log_trade (mk_trade x r (remainingQuantity x) (nextTradeId e) (nextTimestamp e)) b' e,
                evs @ fill_events x [(r, remainingQuantity x)] (nextTradeId e) (nextTimestamp e))
        \<and> book_wf b' \<and> opp b' = take_quantity (remainingQuantity x) r # rs
        \<and> own b' = own (orderBook e)"
    and add: "book_wf b \<Longrightarrow> side x = sd \<Longrightarrow> not_nan (price x) \<Longrightarrow> 0 < remainingQuantity x \<Longrightarrow>
      orderId x \<notin> open_ids b \<Longrightarrow>
      book_wf (addOrder x b) \<and> own (addOrder x b) = enqueue x (own b) \<and> opp (addOrder x b) = opp b"
begin

lemma loop_refines:
  assumes "book_wf (orderBook e)" and "side x = sd"
    and "fills (crosses x) (remainingQuantity x) (opp (orderBook e)) = (fs, n', q')"
  shows "\<exists>b'. match_loop (x, e, evs) =
      (x\<lparr>remainingQuantity := n'\<rparr>,
       log_trades (trades_of x fs (nextTradeId e) (nextTimestamp e)) b' e,
       evs @ fill_events x fs (nextTradeId e) (nextTimestamp e))
    \<and> book_wf b' \<and> opp b' = q' \<and> own b' = own (orderBook e)"
  using assms
proof (induction "length (opp (orderBook e))" arbitrary: x e evs fs rule: less_induct)
  case less
  from less.prems(3) show ?case
  proof (cases rule: fills_cases)
    case Stop
    have "match_loop (x, e, evs) = (x, e, evs)"
      using Stop(1) less.prems(1,2) step_break [of e x evs] by (auto simp: loop word_neq_0_conv)
    then show ?thesis using Stop less.prems(1) by (intro exI [of _ "orderBook e"]) simp
  next
    case (Fill r rs fs')
    obtain b1 where step: "step (x, e, evs) =
          Some (take_quantity (remainingQuantity r) x,
                log_trade (mk_trade x r (remainingQuantity r) (nextTradeId e) (nextTimestamp e)) b1 e,
                evs @ fill_events x [(r, remainingQuantity r)] (nextTradeId e) (nextTimestamp e))"
      and b1: "book_wf b1" "opp b1 = rs" "own b1 = own (orderBook e)"
      using step_fill [OF less.prems(1) Fill(1) less.prems(2) Fill(3,4)] by blast
    let ?x = "take_quantity (remainingQuantity r) x"
      and ?e = "log_trade (mk_trade x r (remainingQuantity r) (nextTradeId e) (nextTimestamp e)) b1 e"
      and ?evs = "evs @ fill_events x [(r, remainingQuantity r)] (nextTradeId e) (nextTimestamp e)"
    have "length (opp (orderBook ?e)) < length (opp (orderBook e))" by (simp add: b1 Fill(1))
    moreover have "fills (crosses ?x) (remainingQuantity ?x) (opp (orderBook ?e)) = (fs', n', q')"
      using Fill(5) by (simp add: crosses_quantity b1)
    ultimately obtain b' where
      "match_loop (?x, ?e, ?evs) = (?x\<lparr>remainingQuantity := n'\<rparr>,
         log_trades (trades_of ?x fs' (nextTradeId ?e) (nextTimestamp ?e)) b' ?e,
         ?evs @ fill_events ?x fs' (nextTradeId ?e) (nextTimestamp ?e))"
      and "book_wf b'" "opp b' = q'" "own b' = own (orderBook ?e)"
      using less.hyps [of ?e ?x fs' ?evs] less.prems(2) b1(1) by auto
    moreover have "match_loop (x, e, evs) = match_loop (?x, ?e, ?evs)"
      using step less.prems(2) Fill(2) by (subst loop) (simp_all add: word_neq_0_conv)
    ultimately show ?thesis
      using b1(3) by (intro exI [of _ b'])
        (simp add: Fill(6) trades_of_same_order [of ?x x] fill_events_same_order [of ?x x])
  next
    case (Partial r rs)
    have pos: "0 < remainingQuantity x" using Partial(2) by (simp add: word_neq_0_conv)
    obtain b1 where step: "step (x, e, evs) =
          Some (take_quantity (remainingQuantity x) x,
                log_trade (mk_trade x r (remainingQuantity x) (nextTradeId e) (nextTimestamp e)) b1 e,
                evs @ fill_events x [(r, remainingQuantity x)] (nextTradeId e) (nextTimestamp e))"
      and b1: "book_wf b1" "opp b1 = take_quantity (remainingQuantity x) r # rs"
        "own b1 = own (orderBook e)"
      using step_partial [OF less.prems(1) Partial(1) less.prems(2) Partial(3) pos Partial(4)] by blast
    then show ?thesis
      using less.prems(2) pos Partial(5-7)
      by (intro exI [of _ b1]) (simp add: loop log_trades_single)
  qed
qed

text \<open>The whole of \<open>placeOrder\<close>: events, trades and both queues afterwards.\<close>

lemma place_refines:
  assumes wf: "book_wf (orderBook e)" and x: "side x = sd" and ok: "admissible x e"
    and f: "fills (crosses x) (remainingQuantity x) (opp (orderBook e)) = (fs, n', q')"
  obtains b' where "placeOrder x e =
      (log_trades (trades_of x fs (nextTradeId e) (nextTimestamp e)) b' e,
       spec_events x fs n' (nextTradeId e) (nextTimestamp e))"
    and "book_wf b'" and "opp b' = q'"
    and "own b' = (if n' \<noteq> 0 \<and> orderType x = LIMIT
                   then enqueue (x\<lparr>remainingQuantity := n'\<rparr>) (own (orderBook e))
                   else own (orderBook e))"
proof -
  let ?x = "x\<lparr>remainingQuantity := n'\<rparr>"
  obtain b1 where loop1: "match_loop (x, e, [id_event ORDER_ACCEPTED (orderId x)]) =
      (?x, log_trades (trades_of x fs (nextTradeId e) (nextTimestamp e)) b1 e,
       [id_event ORDER_ACCEPTED (orderId x)] @ fill_events x fs (nextTradeId e) (nextTimestamp e))"
    and b1: "book_wf b1" "opp b1 = q'" "own b1 = own (orderBook e)"
    using loop_refines [OF wf x f] by blast
  show thesis
  proof (cases "n' \<noteq> 0 \<and> orderType x = LIMIT")
    case True
    have "orderId ` set q' \<subseteq> orderId ` set (opp (orderBook e))"
      by (rule fills_rest_set [OF _ f]) simp
    then have "orderId ?x \<notin> open_ids b1"
      using ok b1 by (auto simp: admissible_def queues)
    then have "book_wf (addOrder ?x b1)" "own (addOrder ?x b1) = enqueue ?x (own b1)"
      "opp (addOrder ?x b1) = opp b1"
      using add [OF b1(1), of ?x] x ok True by (auto simp: admissible_def word_neq_0_conv)
    then show thesis
      using that [of "addOrder ?x b1"] True b1 loop1
      by (simp add: placeOrder_def spec_events_def final_events_def word_neq_0_conv)
  next
    case False
    then show thesis
      using that [of b1] b1 loop1
      by (auto simp: placeOrder_def spec_events_def final_events_def word_neq_0_conv)
  qed
qed

end

subsection \<open>The order book meets the contract in both directions\<close>

lemma keeps_place_take:
  "q < remainingQuantity r \<Longrightarrow> keeps_place (take_quantity q) r"
  by (simp add: keeps_place_def word_gt_0)

lemma bestAsk_removed:
  assumes wf: "book_wf b" and q: "ask_queue b = r # rs" and f: "\<And>x. orderId (f x) = orderId x"
  shows "\<exists>b'. snd (removeBestAsk (updateBestAsk f b)) = b' \<and> book_wf b' \<and>
    ask_queue b' = rs \<and> bid_queue b' = bid_queue b"
proof -
  have awf: "side_wf std_less SELL (asks b)" using wf by (simp add: book_wf_def)
  obtain n ys where fl: "om_flat (asks b) = (n, r) # ys"
    using q by (auto simp: ask_queue_def map_eq_Cons_conv)
  obtain p xs m where m: "asks b = (p, (n, r) # xs) # m"
    by (rule ask_side.side_front [OF awf fl])
  have "snd (removeBestAsk (updateBestAsk f b)) = snd (removeBestAsk b)"
    by (simp add: removeBestAsk_def updateBestAsk_def m f)
  then show ?thesis using removeBestAsk_queue [OF wf q] by (metis snd_conv)
qed

lemma bestBid_removed:
  assumes wf: "book_wf b" and q: "bid_queue b = r # rs" and f: "\<And>x. orderId (f x) = orderId x"
  shows "\<exists>b'. snd (removeBestBid (updateBestBid f b)) = b' \<and> book_wf b' \<and>
    bid_queue b' = rs \<and> ask_queue b' = ask_queue b"
proof -
  have bwf: "side_wf std_greater BUY (bids b)" using wf by (simp add: book_wf_def)
  obtain n ys where fl: "om_flat (bids b) = (n, r) # ys"
    using q by (auto simp: bid_queue_def map_eq_Cons_conv)
  obtain p xs m where m: "bids b = (p, (n, r) # xs) # m"
    by (rule bid_side.side_front [OF bwf fl])
  have "snd (removeBestBid (updateBestBid f b)) = snd (removeBestBid b)"
    by (simp add: removeBestBid_def updateBestBid_def m f)
  then show ?thesis using removeBestBid_queue [OF wf q] by (metis snd_conv)
qed

interpretation buys: matching_side BUY crosses_buy ask_queue bid_queue enqueue_bid match_buy
proof (unfold_locales, goal_cases)
  case (1 x n) show ?case by (simp add: crosses_buy_def fun_eq_iff)
next
  case (2 b) show ?case by (auto simp: open_ids_def)
next
  case (3 b) then show ?case using ask_queue_orders by blast
next
  case (4 x e evs) then show ?case by (subst match_loop.simps) simp
next
  case (5 e x evs)
  then show ?case
    using match_buy_break by (cases "ask_queue (orderBook e)") (auto simp: bestAsk_queue)
next
  case (6 e r rs x evs)
  then show ?case
    using match_buy_fill [of e r x evs]
      bestAsk_removed [OF 6(1,2), of "take_quantity (remainingQuantity r)"]
    by (auto simp: bestAsk_queue)
next
  case (7 e r rs x evs)
  then show ?case
    using match_buy_partial [of e r x evs] updateBestAsk_queue [OF 7(1,2) keeps_place_take [OF 7(6)]]
    by (auto simp: bestAsk_queue)
next
  case (8 b x) then show ?case using addOrder_buy by blast
qed

interpretation sells: matching_side SELL crosses_sell bid_queue ask_queue enqueue_ask match_sell
proof (unfold_locales, goal_cases)
  case (1 x n) show ?case by (simp add: crosses_sell_def fun_eq_iff)
next
  case (2 b) show ?case by (auto simp: open_ids_def)
next
  case (3 b) then show ?case using bid_queue_orders by blast
next
  case (4 x e evs) then show ?case by (subst match_loop.simps) simp
next
  case (5 e x evs)
  then show ?case
    using match_sell_break by (cases "bid_queue (orderBook e)") (auto simp: bestBid_queue)
next
  case (6 e r rs x evs)
  then show ?case
    using match_sell_fill [of e r x evs]
      bestBid_removed [OF 6(1,2), of "take_quantity (remainingQuantity r)"]
    by (auto simp: bestBid_queue)
next
  case (7 e r rs x evs)
  then show ?case
    using match_sell_partial [of e r x evs] updateBestBid_queue [OF 7(1,2) keeps_place_take [OF 7(6)]]
    by (auto simp: bestBid_queue)
next
  case (8 b x) then show ?case using addOrder_sell by blast
qed

end
