(* ===== verification/Engine_Invariant.thy ===== *)
theory Engine_Invariant
  imports Matching_Correct
begin

text \<open>
  What holds of the engine in every state its operations can reach: the book is well formed and
  never crossed, market orders never rest, and the trade log is numbered without gaps.
  The first part states the refinement of \<open>placeOrder\<close> once for both directions.
\<close>

subsection \<open>Both directions at once\<close>

definition opp_queue :: "side \<Rightarrow> order_book \<Rightarrow> order list" where
  "opp_queue s b = (if s = BUY then ask_queue b else bid_queue b)"

definition own_queue :: "side \<Rightarrow> order_book \<Rightarrow> order list" where
  "own_queue s b = (if s = BUY then bid_queue b else ask_queue b)"

definition crosses :: "order \<Rightarrow> order \<Rightarrow> bool" where
  "crosses x r = (if side x = BUY then crosses_buy x r else crosses_sell x r)"

definition enqueue :: "order \<Rightarrow> order list \<Rightarrow> order list" where
  "enqueue x q = (if side x = BUY then enqueue_bid x q else enqueue_ask x q)"

text \<open>What \<open>placeOrder\<close> must do, as a function of the two queues only.\<close>

definition spec_place ::
  "order \<Rightarrow> order list \<Rightarrow> order list \<Rightarrow> (order \<times> u64) list \<times> u64 \<times> order list \<times> order list" where
  "spec_place x opp own =
     (let (fs, n, opp') = fills (crosses x) (remainingQuantity x) opp;
          own' = (if n \<noteq> 0 \<and> orderType x = LIMIT
                  then enqueue (x\<lparr>remainingQuantity := n\<rparr>) own else own)
      in (fs, n, opp', own'))"

lemma side_not_BUY [simp]: "side x \<noteq> BUY \<longleftrightarrow> side x = SELL"
  by (cases "side x") auto

lemma queues_of_side:
  "opp_queue BUY b = ask_queue b" "own_queue BUY b = bid_queue b"
  "opp_queue SELL b = bid_queue b" "own_queue SELL b = ask_queue b"
  by (simp_all add: opp_queue_def own_queue_def)

lemma place_spec:
  assumes wf: "book_wf (orderBook e)" and ok: "admissible x e"
    and sp: "spec_place x (opp_queue (side x) (orderBook e)) (own_queue (side x) (orderBook e))
             = (fs, n, opp', own')"
  obtains b' where "placeOrder x e =
      (log_trades (trades_of x fs (nextTradeId e) (nextTimestamp e)) b' e,
       spec_events x fs n (nextTradeId e) (nextTimestamp e))"
    and "book_wf b'" and "opp_queue (side x) b' = opp'" and "own_queue (side x) b' = own'"
proof -
  have f: "fills (crosses x) (remainingQuantity x) (opp_queue (side x) (orderBook e)) = (fs, n, opp')"
    and own': "own' = (if n \<noteq> 0 \<and> orderType x = LIMIT
        then enqueue (x\<lparr>remainingQuantity := n\<rparr>) (own_queue (side x) (orderBook e))
        else own_queue (side x) (orderBook e))"
    using sp by (auto simp: spec_place_def Let_def split: prod.splits)
  show thesis
  proof (cases "side x")
    case BUY
    then have c: "crosses x = crosses_buy x" by (simp add: crosses_def fun_eq_iff)
    have f': "fills (crosses_buy x) (remainingQuantity x) (ask_queue (orderBook e)) = (fs, n, opp')"
      using f by (simp add: c BUY queues_of_side)
    show thesis
      by (rule buys.place_refines [OF wf BUY ok f'], rule that)
         (use BUY own' in \<open>auto simp: queues_of_side enqueue_def\<close>)
  next
    case SELL
    then have c: "crosses x = crosses_sell x" by (simp add: crosses_def fun_eq_iff)
    have f': "fills (crosses_sell x) (remainingQuantity x) (bid_queue (orderBook e)) = (fs, n, opp')"
      using f by (simp add: c SELL queues_of_side)
    show thesis
      by (rule sells.place_refines [OF wf SELL ok f'], rule that)
         (use SELL own' in \<open>auto simp: queues_of_side enqueue_def\<close>)
  qed
qed

lemma spec_place_fills:
  "spec_place x opp own = (fs, n, opp', own') \<Longrightarrow>
   fills (crosses x) (remainingQuantity x) opp = (fs, n, opp')"
  by (auto simp: spec_place_def Let_def split: prod.splits)

lemma spec_place_own:
  "spec_place x opp own = (fs, n, opp', own') \<Longrightarrow>
   own' = (if n \<noteq> 0 \<and> orderType x = LIMIT then enqueue (x\<lparr>remainingQuantity := n\<rparr>) own else own)"
  by (auto simp: spec_place_def Let_def split: prod.splits)

lemma set_enqueue [simp]: "set (enqueue x q) = insert x (set q)"
proof -
  have "set (takeWhile P q) \<union> set (dropWhile P q) = set q" for P :: "order \<Rightarrow> bool"
    by (metis set_append takeWhile_dropWhile_id)
  then show ?thesis by (auto simp: enqueue_def enqueue_bid_def enqueue_ask_def)
qed

lemma total_enqueue [simp]: "total (enqueue x q) = unat (remainingQuantity x) + total q"
proof -
  have "total (takeWhile P q) + total (dropWhile P q) = total q" for P :: "order \<Rightarrow> bool"
    by (metis takeWhile_dropWhile_id total_simps(3))
  then show ?thesis by (auto simp: enqueue_def enqueue_bid_def enqueue_ask_def algebra_simps)
qed

lemma own_opp_orders:
  assumes "book_wf b"
  shows "r \<in> set (opp_queue s b) \<Longrightarrow> side r \<noteq> s \<and> not_nan (price r) \<and> 0 < remainingQuantity r"
    and "r \<in> set (own_queue s b) \<Longrightarrow> side r = s \<and> not_nan (price r) \<and> 0 < remainingQuantity r"
  using assms bid_queue_orders ask_queue_orders
  by (cases s; force simp: opp_queue_def own_queue_def)+

lemma open_ids_sides: "open_ids b = orderId ` (set (opp_queue s b) \<union> set (own_queue s b))"
  by (cases s) (auto simp: open_ids_def queues_of_side)

lemma open_idsI:
  "y \<in> set (bid_queue b) \<Longrightarrow> orderId y \<in> open_ids b"
  "y \<in> set (ask_queue b) \<Longrightarrow> orderId y \<in> open_ids b"
  "y \<in> set (opp_queue s b) \<Longrightarrow> orderId y \<in> open_ids b"
  "y \<in> set (own_queue s b) \<Longrightarrow> orderId y \<in> open_ids b"
  by (auto simp: open_ids_def opp_queue_def own_queue_def split: if_splits)

lemma getOpenOrders_sides:
  "set (getOpenOrders b) = set (opp_queue s b) \<union> set (own_queue s b)"
  "total (getOpenOrders b) = total (opp_queue s b) + total (own_queue s b)"
  by (cases s; auto simp: getOpenOrders_queues queues_of_side)+

subsection \<open>The invariant\<close>

definition uncrossed :: "order_book \<Rightarrow> bool" where
  "uncrossed b \<longleftrightarrow> (\<forall>x\<in>set (bid_queue b). \<forall>y\<in>set (ask_queue b). price x < price y)"

definition no_market_resting :: "order_book \<Rightarrow> bool" where
  "no_market_resting b \<longleftrightarrow> (\<forall>x\<in>set (getOpenOrders b). orderType x = LIMIT)"

definition log_wf :: "engine \<Rightarrow> bool" where
  "log_wf e \<longleftrightarrow>
     (let n = length (recentTrades e) in
        map tradeId (recentTrades e) = map (\<lambda>k. 1 + of_nat k) [0..<n] \<and>
        nextTradeId e = 1 + of_nat n \<and> nextTimestamp e = 1 + of_nat n \<and>
        (\<forall>t\<in>set (recentTrades e). 0 < trade_quantity t))"

definition engine_inv :: "engine \<Rightarrow> bool" where
  "engine_inv e \<longleftrightarrow>
     book_wf (orderBook e) \<and> uncrossed (orderBook e) \<and> no_market_resting (orderBook e) \<and> log_wf e"

lemma engine_inv_initial: "engine_inv initial_engine"
  by (simp add: engine_inv_def initial_engine_def empty_book_wf uncrossed_def
      no_market_resting_def log_wf_def getOpenOrders_queues)

text \<open>Nothing acceptable is left on the opposite side of an order that is put on the book.\<close>

lemma opp_queue_sorted:
  assumes "book_wf b"
  shows "sorted_wrt (\<lambda>r r'. if s = BUY then price r \<le> price r' else price r' \<le> price r) (opp_queue s b)"
  using assms bid_queue_sorted ask_queue_sorted by (cases s) (auto simp: opp_queue_def)

lemma not_crossing:
  "\<not> crosses x r \<Longrightarrow> orderType x = LIMIT \<and> (if side x = BUY then price x < price r else price r < price x)"
  by (auto simp: crosses_def crosses_buy_def crosses_sell_def split: if_splits)

lemma double_less_trans1: "(a::double) < b \<Longrightarrow> b \<le> c \<Longrightarrow> a < c"
  by (simp add: less_double_def less_eq_double_def)

lemma double_less_trans2: "(a::double) \<le> b \<Longrightarrow> b < c \<Longrightarrow> a < c"
  by (simp add: less_double_def less_eq_double_def)

lemma rest_not_crossing:
  assumes wf: "book_wf b" and q: "opp_queue (side x) b = q'" and ex: "q' = [] \<or> \<not> crosses x (hd q')"
    and r: "r \<in> set q'"
  shows "if side x = BUY then price x < price r else price r < price x"
proof -
  obtain r0 rs where q': "q' = r0 # rs" using r by (cases q') auto
  then have nc: "if side x = BUY then price x < price r0 else price r0 < price x"
    using ex not_crossing by auto
  show ?thesis
  proof (cases "r = r0")
    case True
    then show ?thesis using nc by simp
  next
    case False
    then have "if side x = BUY then price r0 \<le> price r else price r \<le> price r0"
      using opp_queue_sorted [OF wf, of "side x"] r q by (auto simp: q' split: if_splits)
    then show ?thesis using nc double_less_trans1 double_less_trans2 by (auto split: if_splits)
  qed
qed

lemma uncrossed_sides:
  "uncrossed b \<longleftrightarrow> (\<forall>x\<in>set (own_queue s b). \<forall>y\<in>set (opp_queue s b).
     if s = BUY then price x < price y else price y < price x)"
  by (cases s) (auto simp: uncrossed_def queues_of_side)

lemma place_uncrossed:
  assumes wf': "book_wf b'" and un: "uncrossed b"
    and sp: "spec_place x (opp_queue (side x) b) (own_queue (side x) b)
             = (fs, n, opp_queue (side x) b', own_queue (side x) b')"
  shows "uncrossed b'"
proof -
  note f = spec_place_fills [OF sp]
  have sub: "price ` set (opp_queue (side x) b') \<subseteq> price ` set (opp_queue (side x) b)"
    by (rule fills_rest_set [OF _ f]) simp
  have old: "if side x = BUY then price y < price r else price r < price y"
    if y: "y \<in> set (own_queue (side x) b)" and r: "r \<in> set (opp_queue (side x) b')" for y r
  proof -
    have "price r \<in> price ` set (opp_queue (side x) b)" using r sub by blast
    then obtain r0 where r0: "r0 \<in> set (opp_queue (side x) b)" "price r = price r0" by blast
    have "if side x = BUY then price y < price r0 else price r0 < price y"
      using un y r0(1) unfolding uncrossed_sides [of b "side x"] by blast
    then show ?thesis by (simp only: r0(2))
  qed
  have new: "if side x = BUY then price x < price r else price r < price x"
    if "n \<noteq> 0" "r \<in> set (opp_queue (side x) b')" for r
    using rest_not_crossing [OF wf' refl _ that(2)] fills_exhaust [OF f] that(1) by simp
  have "set (own_queue (side x) b') \<subseteq> (if n \<noteq> 0 then insert (x\<lparr>remainingQuantity := n\<rparr>) else id)
      (set (own_queue (side x) b))"
    using spec_place_own [OF sp] by auto
  then show ?thesis
    unfolding uncrossed_sides [of b' "side x"]
    using old new by (fastforce split: if_splits)
qed

lemma place_no_market:
  assumes "no_market_resting b"
    and sp: "spec_place x (opp_queue (side x) b) (own_queue (side x) b)
             = (fs, n, opp_queue (side x) b', own_queue (side x) b')"
  shows "no_market_resting b'"
proof -
  have "orderType ` set (opp_queue (side x) b') \<subseteq> orderType ` set (opp_queue (side x) b)"
    by (rule fills_rest_set [OF _ spec_place_fills [OF sp]]) simp
  then have opp: "\<forall>r\<in>set (opp_queue (side x) b'). orderType r = LIMIT"
    using assms(1) by (fastforce simp: no_market_resting_def getOpenOrders_sides [of _ "side x"])
  have "\<forall>r\<in>set (own_queue (side x) b'). orderType r = LIMIT"
    using spec_place_own [OF sp] assms(1)
    by (auto simp: no_market_resting_def getOpenOrders_sides [of _ "side x"] split: if_splits)
  with opp show ?thesis by (auto simp: no_market_resting_def getOpenOrders_sides [of _ "side x"])
qed

lemma log_trades_wf:
  assumes "log_wf e" and "\<forall>f\<in>set fs. 0 < snd f"
  shows "log_wf (log_trades (trades_of x fs (nextTradeId e) (nextTimestamp e)) b' e)"
proof -
  let ?n = "length (recentTrades e)" and ?ts = "trades_of x fs (nextTradeId e) (nextTimestamp e)"
  have next_id: "nextTradeId e = 1 + of_nat ?n" using assms(1) by (simp add: log_wf_def Let_def)
  have "map tradeId ?ts = map (\<lambda>k. 1 + of_nat k) [?n..<?n + length fs]"
    unfolding trades_of_ids next_id
    by (rule nth_equalityI) (simp_all add: ac_simps)
  moreover have "\<forall>t\<in>set ?ts. 0 < trade_quantity t"
  proof
    fix t assume "t \<in> set ?ts"
    then have "trade_quantity t \<in> set (map snd fs)"
      by (metis image_eqI list.set_map trades_of_quantity)
    then show "0 < trade_quantity t" using assms(2) by auto
  qed
  ultimately show ?thesis
    using assms(1) upt_add_eq_append [of 0 ?n "length fs"]
    by (auto simp: log_wf_def Let_def fills_length_trades)
qed

lemma engine_inv_place:
  assumes "engine_inv e" and "admissible x e"
  shows "engine_inv (fst (placeOrder x e))"
proof -
  obtain fs n opp' own' where sp: "spec_place x (opp_queue (side x) (orderBook e))
      (own_queue (side x) (orderBook e)) = (fs, n, opp', own')"
    by (metis prod_cases4)
  have inv: "book_wf (orderBook e)" "uncrossed (orderBook e)" "no_market_resting (orderBook e)" "log_wf e"
    using assms(1) by (simp_all add: engine_inv_def)
  obtain b' where p: "placeOrder x e =
      (log_trades (trades_of x fs (nextTradeId e) (nextTimestamp e)) b' e,
       spec_events x fs n (nextTradeId e) (nextTimestamp e))"
    and b': "book_wf b'" "opp_queue (side x) b' = opp'" "own_queue (side x) b' = own'"
    by (rule place_spec [OF inv(1) assms(2) sp])
  have pos: "\<forall>f\<in>set fs. 0 < snd f"
    using fills_quantities [OF spec_place_fills [OF sp]] own_opp_orders(1) [OF inv(1)] by blast
  have "uncrossed b'" using place_uncrossed [OF b'(1) inv(2)] sp b'(2,3) by blast
  moreover have "no_market_resting b'" using place_no_market [OF inv(3)] sp b'(2,3) by blast
  ultimately show ?thesis
    using b'(1) log_trades_wf [OF inv(4) pos] by (simp add: engine_inv_def p)
qed

lemma cancel_cases:
  assumes "book_wf (orderBook e)"
  obtains (hit) b' where "i \<in> open_ids (orderBook e)"
      and "engine_cancelOrder i e =
        Some (e\<lparr>orderBook := b'\<rparr>, [id_event ORDER_CANCELLED i, book_event])"
      and "book_wf b'"
      and "bid_queue b' = filter (\<lambda>x. orderId x \<noteq> i) (bid_queue (orderBook e))"
      and "ask_queue b' = filter (\<lambda>x. orderId x \<noteq> i) (ask_queue (orderBook e))"
    | (miss) "i \<notin> open_ids (orderBook e)" and "engine_cancelOrder i e = Some (e, [])"
proof (cases "i \<in> open_ids (orderBook e)")
  case True
  obtain b' where "cancelOrder i (orderBook e) = Some (True, b')" "book_wf b'"
    "bid_queue b' = filter (\<lambda>x. orderId x \<noteq> i) (bid_queue (orderBook e))"
    "ask_queue b' = filter (\<lambda>x. orderId x \<noteq> i) (ask_queue (orderBook e))"
    by (rule cancelOrder_hit [OF assms True])
  with True show thesis by (intro hit) (simp_all add: engine_cancelOrder_def)
next
  case False
  with cancelOrder_miss [OF assms False] show thesis
    by (intro miss) (simp_all add: engine_cancelOrder_def)
qed

lemma engine_inv_cancel:
  assumes "engine_inv e" and "engine_cancelOrder i e = Some (e', evs)"
  shows "engine_inv e'"
proof -
  have "book_wf (orderBook e)" using assms(1) by (simp add: engine_inv_def)
  then show ?thesis
  proof (cases rule: cancel_cases [where i = i])
    case (hit b')
    then show ?thesis
      using assms by (auto simp: engine_inv_def uncrossed_def no_market_resting_def log_wf_def
          getOpenOrders_queues)
  next
    case miss
    then show ?thesis using assms by simp
  qed
qed

subsection \<open>Reachable engine states\<close>

inductive reachable :: "engine \<Rightarrow> bool" where
  reach_init: "reachable initial_engine"
| reach_place: "reachable e \<Longrightarrow> admissible x e \<Longrightarrow> reachable (fst (placeOrder x e))"
| reach_cancel: "reachable e \<Longrightarrow> engine_cancelOrder i e = Some (e', evs) \<Longrightarrow> reachable e'"

lemma reachable_engine_inv: "reachable e \<Longrightarrow> engine_inv e"
  by (induction rule: reachable.induct)
     (auto intro: engine_inv_initial engine_inv_place engine_inv_cancel)

lemma reachable_book_wf: "reachable e \<Longrightarrow> book_wf (orderBook e)"
  using reachable_engine_inv by (simp add: engine_inv_def)

end
