(* ===== verification/Samples.thy ===== *)
theory Samples
  imports Engine_Invariant
begin

text \<open>
  Concrete orders and engine states for the witnesses of the properties: three prices, a resting
  bid and a resting ask, and engines built from them with \<open>placeOrder\<close>.
\<close>

definition d99 :: double where "d99 = Double 0x4058C00000000000"
definition d100 :: double where "d100 = Double 0x4059000000000000"
definition d101 :: double where "d101 = Double 0x4059400000000000"

definition sample_order :: "u64 \<Rightarrow> side \<Rightarrow> order_type \<Rightarrow> double \<Rightarrow> u64 \<Rightarrow> order" where
  "sample_order i s t p q =
     \<lparr>orderId = i, symbol = ''BTC/USDT'', side = s, orderType = t, price = p, quantity = q,
      remainingQuantity = q, timestamp = 0\<rparr>"

abbreviation limit_order :: "u64 \<Rightarrow> side \<Rightarrow> double \<Rightarrow> u64 \<Rightarrow> order" where
  "limit_order i s p q \<equiv> sample_order i s LIMIT p q"

abbreviation market_order :: "u64 \<Rightarrow> side \<Rightarrow> u64 \<Rightarrow> order" where
  "market_order i s q \<equiv> sample_order i s MARKET d99 q"

lemma sample_order_fields [simp]:
  "orderId (sample_order i s t p q) = i" "side (sample_order i s t p q) = s"
  "orderType (sample_order i s t p q) = t" "price (sample_order i s t p q) = p"
  "quantity (sample_order i s t p q) = q" "remainingQuantity (sample_order i s t p q) = q"
  by (simp_all add: sample_order_def)

lemma sample_prices [simp]:
  "not_nan d99" "not_nan d100" "not_nan d101"
  "d99 < d100" "d100 < d101" "d99 < d101" "\<not> d100 < d99" "\<not> d101 < d100" "\<not> d101 < d99"
  "\<not> d99 < d99" "\<not> d100 < d100" "\<not> d101 < d101"
  "d99 \<le> d99" "d100 \<le> d100" "d101 \<le> d101" "d99 \<le> d100" "d100 \<le> d101" "d99 \<le> d101"
  "\<not> d100 \<le> d99" "\<not> d101 \<le> d100" "\<not> d101 \<le> d99"
  by (simp_all add: not_nan_def is_nan_def less_double_def less_eq_double_def dkey_def dneg_def
      dmag_def d99_def d100_def d101_def)

text \<open>One resting bid: BUY 100 at 100. Then also one resting ask: SELL 40 at 101.\<close>

definition engine_bid :: engine where
  "engine_bid = fst (placeOrder (limit_order 1 BUY d100 100) initial_engine)"

definition engine_two :: engine where
  "engine_two = fst (placeOrder (limit_order 2 SELL d101 40) engine_bid)"

lemmas sample_eval =
  engine_simps book_simps match_loop.simps std_greater_def std_less_def Let_def

lemma admissible_initial:
  "admissible (sample_order i s t p q) initial_engine \<longleftrightarrow> (t = LIMIT \<longrightarrow> not_nan p)"
  by (simp add: admissible_def initial_engine_def open_ids_def)

lemma engine_bid_book:
  "bid_queue (orderBook engine_bid) = [limit_order 1 BUY d100 100]"
  "ask_queue (orderBook engine_bid) = []"
  by (simp_all add: engine_bid_def sample_eval bid_queue_def ask_queue_def)

lemma engine_bid_reachable: "reachable engine_bid"
  unfolding engine_bid_def by (intro reach_place reach_init) (simp add: admissible_initial)

lemma admissible_engine_bid:
  "admissible (sample_order i s t p q) engine_bid \<longleftrightarrow> (t = LIMIT \<longrightarrow> not_nan p) \<and> i \<noteq> 1"
  by (auto simp: admissible_def open_ids_def engine_bid_book)

lemma engine_two_book:
  "bid_queue (orderBook engine_two) = [limit_order 1 BUY d100 100]"
  "ask_queue (orderBook engine_two) = [limit_order 2 SELL d101 40]"
  by (simp_all add: engine_two_def engine_bid_def sample_eval bid_queue_def ask_queue_def)

lemma engine_two_reachable: "reachable engine_two"
  unfolding engine_two_def
  by (intro reach_place engine_bid_reachable) (simp add: admissible_engine_bid)

lemma admissible_engine_two:
  "admissible (sample_order i s t p q) engine_two \<longleftrightarrow>
     (t = LIMIT \<longrightarrow> not_nan p) \<and> i \<noteq> 1 \<and> i \<noteq> 2"
  by (auto simp: admissible_def open_ids_def engine_two_book)

end
