(* ===== verification/Book_Depth.thy ===== *)
theory Book_Depth
  imports Samples
begin

text \<open>
  The aggregated (L2) depth. The counting loop of \<open>getBidDepth\<close> and \<open>getAskDepth\<close> is the map
  over the first levels, and each entry is the sum of the remaining quantities at its price,
  modulo \<open>2 ^ 64\<close>, because the code adds \<open>std::uint64_t\<close> values without a check.
\<close>

definition level_depth :: "double \<times> node list \<Rightarrow> double \<times> u64" where
  "level_depth e = (fst e, total_quantity 0 (snd e))"

lemma unat_sub_suc:
  assumes "(c::u64) < lv"
  shows "unat (lv - c) = Suc (unat (lv - (c + 1)))"
proof -
  have "unat (c + 1) = Suc (unat c)" using assms by (rule unat_plus1)
  moreover from this have "c + 1 \<le> lv" using assms by (simp add: word_le_nat_alt word_less_nat_alt)
  ultimately show ?thesis
    using assms by (simp add: unat_sub less_imp_le word_less_nat_alt)
qed

lemma depth_loop_eq:
  "count \<le> levels \<Longrightarrow>
   depth_loop levels count depth m = depth @ map level_depth (take (unat (levels - count)) m)"
proof (induction levels count depth m rule: depth_loop.induct)
  case (2 levels count depth p xs m)
  show ?case
  proof (cases "levels \<le> count")
    case True
    then have "levels = count" using 2(2) by simp
    then show ?thesis by simp
  next
    case False
    then have lt: "count < levels" by simp
    then have "count + 1 \<le> levels" by (simp add: inc_le)
    then show ?thesis
      using 2(1) False unat_sub_suc [OF lt] by (simp add: level_depth_def)
  qed
qed simp

lemma getBidDepth_eq: "getBidDepth levels b = map level_depth (take (unat levels) (bids b))"
  by (simp add: getBidDepth_def depth_loop_eq)

lemma getAskDepth_eq: "getAskDepth levels b = map level_depth (take (unat levels) (asks b))"
  by (simp add: getAskDepth_def depth_loop_eq)

lemma unat_total_quantity: "unat (total_quantity t xs) = (unat t + total (map snd xs)) mod 2 ^ 64"
proof (induction t xs rule: total_quantity.induct)
  case (2 t n x xs)
  then show ?case
    by (simp add: unat_word_ariths mod_add_left_eq add.assoc)
qed simp

lemma level_depth_simps [simp]:
  "fst (level_depth e) = fst e" "snd (level_depth e) = total_quantity 0 (snd e)"
  by (simp_all add: level_depth_def)

lemma total_map_filter_all:
  "\<forall>nx\<in>set xs. P (snd nx) \<Longrightarrow> filter P (map snd xs) = map snd xs"
  by (simp add: filter_id_conv)

lemma deq_other_level:
  assumes "not_nan p" and "not_nan k" and "dkey p \<noteq> dkey k" and "node_ok sd k nx"
  shows "\<not> deq (price (snd nx)) p"
  using assms by (auto simp: deq_def node_ok_def)

context price_side
begin

text \<open>A level is exactly the orders of the side whose price compares equal to the level's.\<close>

lemma level_is_filter:
  assumes "side_wf lt sd m" and "e \<in> set m"
  shows "map snd (snd e) = filter (\<lambda>x. deq (price x) (fst e)) (map snd (om_flat m))"
  using assms
proof (induction m)
  case (Cons a m)
  obtain p xs where a: "a = (p, xs)" by (cases a)
  have wf: "side_wf lt sd m" and p: "not_nan p" "\<forall>e\<in>set m. lt p (fst e)" and
    xs: "\<forall>nx\<in>set xs. node_ok sd p nx"
    using Cons.prems(1) unfolding a side_wf_Cons by blast+
  have keys: "not_nan (fst e') \<and> dkey (fst e') \<noteq> dkey p" if "e' \<in> set m" for e'
  proof -
    have "not_nan (fst e')" using wf that by (auto simp: side_wf_def om_wf_def)
    moreover have "rank p < rank (fst e')" using p that lt_rank calculation by blast
    ultimately show ?thesis using rank_dkey by force
  qed
  show ?case
  proof (cases "e = a")
    case True
    have "\<not> deq (price (snd nx)) p" if "nx \<in> set (om_flat m)" for nx
    proof -
      obtain e' where e': "e' \<in> set m" "nx \<in> set (snd e')" using \<open>nx \<in> _\<close> by (auto simp: om_flat_def)
      then have "node_ok sd (fst e') nx" using wf by (auto simp: side_wf_def)
      then show ?thesis using keys [OF e'(1)] p(1) deq_other_level by metis
    qed
    then have "filter (\<lambda>x. deq (price x) p) (map snd (om_flat m)) = []"
      by (auto simp: filter_empty_conv)
    moreover have "filter (\<lambda>x. deq (price x) p) (map snd xs) = map snd xs"
      using xs by (intro total_map_filter_all) (auto simp: node_ok_def)
    ultimately show ?thesis by (simp add: True a)
  next
    case False
    then have e: "e \<in> set m" using Cons.prems(2) by simp
    have "\<not> deq (price (snd nx)) (fst e)" if "nx \<in> set xs" for nx
      using keys [OF e] p(1) xs that deq_other_level by metis
    then have "filter (\<lambda>x. deq (price x) (fst e)) (map snd xs) = []"
      by (auto simp: filter_empty_conv)
    then show ?thesis using Cons.IH [OF wf e] by (simp add: a)
  qed
qed simp

lemma depth_entry:
  assumes "side_wf lt sd m"
  shows "\<forall>(p, q)\<in>set (map level_depth (take n m)).
    unat q = total (filter (\<lambda>x. deq (price x) p) (map snd (om_flat m))) mod 2 ^ 64"
proof -
  have "unat (snd (level_depth e)) =
      total (filter (\<lambda>x. deq (price x) (fst (level_depth e))) (map snd (om_flat m))) mod 2 ^ 64"
    if "e \<in> set (take n m)" for e
    using level_is_filter [OF assms in_set_takeD [OF that]] by (simp add: unat_total_quantity)
  then show ?thesis by (auto simp: case_prod_beta)
qed

lemma depth_sorted: "side_wf lt sd m \<Longrightarrow> sorted_wrt lt (map fst (map level_depth (take n m)))"
proof -
  assume "side_wf lt sd m"
  then have "sorted_wrt lt (map fst m)" by (simp add: side_wf_def om_wf_def)
  then have "sorted_wrt lt (take n (map fst m))" by (rule sorted_wrt_take)
  then show ?thesis by (simp add: take_map o_def)
qed

end

lemma bid_depth:
  assumes "reachable e"
  shows "length (getBidDepth n (orderBook e)) = min (unat n) (length (bids (orderBook e))) \<and>
    sorted_wrt (\<lambda>p p'. p' < p) (map fst (getBidDepth n (orderBook e))) \<and>
    (\<forall>(p, q)\<in>set (getBidDepth n (orderBook e)).
       unat q = total (filter (\<lambda>x. deq (price x) p) (bid_queue (orderBook e))) mod 2 ^ 64)"
proof -
  have wf: "side_wf std_greater BUY (bids (orderBook e))"
    using reachable_book_wf [OF assms] by (simp add: book_wf_def)
  have "sorted_wrt (\<lambda>p p'. p' < p) (map fst (getBidDepth n (orderBook e)))"
    using bid_side.depth_sorted [OF wf, of "unat n"]
    by (simp add: getBidDepth_eq std_greater_def [abs_def])
  then show ?thesis
    using bid_side.depth_entry [OF wf, of "unat n"] by (simp add: getBidDepth_eq bid_queue_def min.commute)
qed

lemma ask_depth:
  assumes "reachable e"
  shows "length (getAskDepth n (orderBook e)) = min (unat n) (length (asks (orderBook e))) \<and>
    sorted_wrt (\<lambda>p p'. p < p') (map fst (getAskDepth n (orderBook e))) \<and>
    (\<forall>(p, q)\<in>set (getAskDepth n (orderBook e)).
       unat q = total (filter (\<lambda>x. deq (price x) p) (ask_queue (orderBook e))) mod 2 ^ 64)"
proof -
  have wf: "side_wf std_less SELL (asks (orderBook e))"
    using reachable_book_wf [OF assms] by (simp add: book_wf_def)
  have "sorted_wrt (\<lambda>p p'. p < p') (map fst (getAskDepth n (orderBook e)))"
    using ask_side.depth_sorted [OF wf, of "unat n"]
    by (simp add: getAskDepth_eq std_less_def [abs_def])
  then show ?thesis
    using ask_side.depth_entry [OF wf, of "unat n"] by (simp add: getAskDepth_eq ask_queue_def min.commute)
qed

text \<open>
  C33: \<open>getBidDepth(n)\<close> lists at most \<open>n\<close> prices, strictly decreasing, as many as there are
  bid levels if these are fewer; each quantity is the sum of the remaining quantities of the open
  bids at that price, modulo 2^64. \<open>getAskDepth(n)\<close> lists the asks in the same way, prices
  strictly increasing.
\<close>

theorem depth_aggregates:
  assumes "reachable e"
  shows "length (getBidDepth n (orderBook e)) = min (unat n) (length (bids (orderBook e))) \<and>
    sorted_wrt (\<lambda>p p'. p' < p) (map fst (getBidDepth n (orderBook e))) \<and>
    (\<forall>(p, q)\<in>set (getBidDepth n (orderBook e)).
       unat q = total (filter (\<lambda>x. deq (price x) p) (bid_queue (orderBook e))) mod 2 ^ 64) \<and>
    length (getAskDepth n (orderBook e)) = min (unat n) (length (asks (orderBook e))) \<and>
    sorted_wrt (\<lambda>p p'. p < p') (map fst (getAskDepth n (orderBook e))) \<and>
    (\<forall>(p, q)\<in>set (getAskDepth n (orderBook e)).
       unat q = total (filter (\<lambda>x. deq (price x) p) (ask_queue (orderBook e))) mod 2 ^ 64)"
  using bid_depth [OF assms] ask_depth [OF assms] by blast

theorem depth_aggregates_witness:
  "length (getBidDepth 10 (orderBook engine_two)) = 1 \<and> length (getAskDepth 10 (orderBook engine_two)) = 1"
proof -
  have "length (bids (orderBook engine_two)) = 1" "length (asks (orderBook engine_two)) = 1"
    by (simp_all add: engine_two_def engine_bid_def sample_eval)
  then show ?thesis using depth_aggregates [OF engine_two_reachable, of 10] by simp
qed

end
