(* ===== verification/Protocol_Types.thy ===== *)
theory Protocol_Types
  imports Book_Depth
begin

text \<open>
  The message types of the server, from \<open>server/include/Protocol.hpp\<close>. The server has its own
  \<open>Side\<close> and \<open>OrderType\<close> enumerations beside those of the engine; their constructors are
  prefixed here.
\<close>

datatype fside = F_BUY | F_SELL

datatype forder_type = F_LIMIT | F_MARKET

datatype order_status = ACCEPTED | PARTIALLY_FILLED | FILLED | CANCELLED

record place_order_request =
  req_side :: fside
  req_orderType :: forder_type
  req_price :: double
  req_quantity :: i64

record cancel_order_request =
  req_orderId :: i64

record trade_msg =
  tm_tradeId :: i64
  tm_price :: double
  tm_quantity :: i64

record order_update =
  ou_orderId :: i64
  ou_status :: order_status
  ou_remaining :: i64

record price_level =
  pl_price :: double
  pl_quantity :: i64

record snapshot =
  snap_bids :: "price_level list"
  snap_asks :: "price_level list"

record metrics_data =
  md_ordersProcessed :: i64
  md_tradesExecuted :: i64
  md_activeOrders :: i64
  md_totalVolume :: i64
  md_ordersPerSecond :: double

text \<open>The default member initialisers of \<open>PlaceOrderRequest\<close>: price 0.0.\<close>

definition double_zero :: double where
  "double_zero = Double 0"

end
