(* ===== verification/Protocol.thy ===== *)
theory Protocol
  imports Protocol_Types
begin

text \<open>
  The class \<open>Protocol\<close> (\<open>server/src/Protocol.cpp\<close>): parsing and validation of requests,
  construction of the messages the server sends. The JSON library (nlohmann/json, not part of the
  repository) is the parameter \<open>L\<close> of every definition here, a record of the library functions the
  code calls; the type \<open>'j\<close> is its value type \<open>json\<close>. A C++ exception is a value of
  \<open>cpp_exception\<close>: \<open>ProtocolError\<close> is the class of that name, \<open>StdException w\<close> any other exception
  derived from \<open>std::exception\<close>, with the text \<open>w\<close> of \<open>what()\<close>. The third value, \<open>Undefined\<close>, is not
  an exception but undefined behaviour: it is passed on like one, and no handler catches it.
\<close>

section \<open>The JSON library as a parameter\<close>

text \<open>The outcomes of \<open>json::parse\<close>: a value, a \<open>json::parse_error\<close>, or another exception
  (a number out of the range of \<open>double\<close> is a \<open>json::out_of_range\<close>).\<close>

datatype 'j parsed = Parsed 'j | Parse_Error | Parse_Exception string

text \<open>\<open>get<T>()\<close> and \<open>dump()\<close> may throw; \<open>Inl w\<close> is a library exception with text \<open>w\<close>.
  \<open>get<std::int64_t>()\<close> of a floating-point number is a \<open>static_cast\<close>, which is undefined when the
  truncated value is not an \<open>std::int64_t\<close> (such as \<open>1e300\<close>): its result is then \<open>None\<close>.\<close>

record 'j json_lib =
  js_parse :: "string \<Rightarrow> 'j parsed"
  js_dump :: "'j \<Rightarrow> string + string"
  js_contains :: "'j \<Rightarrow> string \<Rightarrow> bool"
  js_at :: "'j \<Rightarrow> string \<Rightarrow> 'j"
  js_is_string :: "'j \<Rightarrow> bool"
  js_is_number :: "'j \<Rightarrow> bool"
  js_is_null :: "'j \<Rightarrow> bool"
  js_get_string :: "'j \<Rightarrow> string + string"
  js_get_int64 :: "'j \<Rightarrow> (string + i64) option"
  js_get_double :: "'j \<Rightarrow> string + double"
  js_null :: 'j
  js_string :: "string \<Rightarrow> 'j"
  js_int64 :: "i64 \<Rightarrow> 'j"
  js_double :: "double \<Rightarrow> 'j"
  js_object :: "(string \<times> 'j) list \<Rightarrow> 'j"
  js_array :: "'j list \<Rightarrow> 'j"
  js_set :: "'j \<Rightarrow> string \<Rightarrow> 'j \<Rightarrow> 'j"

text \<open>
  Documented behaviour of the library, as hypotheses of the properties that rely on it.
  \<open>json_getters\<close>: \<open>get<T>()\<close> does not throw on a value of the matching kind (\<open>get<std::int64_t>()\<close>
  of a number may be undefined, but it does not throw).
  \<open>json_no_nan\<close>: the numbers of a parsed text are not NaN (JSON has no such literal).
  \<open>json_objects\<close>: an object built from a list of distinct keys, or extended by a key, has exactly
  these members; strings and numbers read back as they were written.
\<close>

definition json_getters :: "'j json_lib \<Rightarrow> bool" where
  "json_getters L \<longleftrightarrow>
     (\<forall>j. js_is_string L j \<longrightarrow> (\<exists>s. js_get_string L j = Inr s)) \<and>
     (\<forall>j. js_is_number L j \<longrightarrow>
        (\<forall>w. js_get_int64 L j \<noteq> Some (Inl w)) \<and> (\<exists>d. js_get_double L j = Inr d))"

definition json_no_nan :: "'j json_lib \<Rightarrow> bool" where
  "json_no_nan L \<longleftrightarrow>
     (\<forall>raw j k d. js_parse L raw = Parsed j \<longrightarrow> js_contains L j k \<longrightarrow>
        js_get_double L (js_at L j k) = Inr d \<longrightarrow> not_nan d)"

definition json_objects :: "'j json_lib \<Rightarrow> bool" where
  "json_objects L \<longleftrightarrow>
     (\<forall>kvs k. distinct (map fst kvs) \<longrightarrow>
        \<not> js_is_null L (js_object L kvs) \<and>
        (js_contains L (js_object L kvs) k \<longleftrightarrow> k \<in> fst ` set kvs) \<and>
        (\<forall>v. (k, v) \<in> set kvs \<longrightarrow> js_at L (js_object L kvs) k = v)) \<and>
     (\<forall>kvs k v. distinct (map fst kvs) \<longrightarrow> k \<notin> fst ` set kvs \<longrightarrow>
        js_set L (js_object L kvs) k v = js_object L (kvs @ [(k, v)])) \<and>
     (\<forall>s. js_is_string L (js_string L s) \<and> js_get_string L (js_string L s) = Inr s) \<and>
     (\<forall>i. js_is_number L (js_int64 L i) \<and> js_get_int64 L (js_int64 L i) = Some (Inr i)) \<and>
     (\<forall>d. js_is_number L (js_double L d) \<and> js_get_double L (js_double L d) = Inr d)"

section \<open>Exceptions\<close>

datatype cpp_exception = ProtocolError string | StdException string | Undefined

type_synonym 'a throws = "cpp_exception + 'a"

definition bind_throws :: "'a throws \<Rightarrow> ('a \<Rightarrow> 'b throws) \<Rightarrow> 'b throws" where
  "bind_throws m f = (case m of Inl e \<Rightarrow> Inl e | Inr x \<Rightarrow> f x)"

definition lib :: "string + 'a \<Rightarrow> 'a throws" where
  "lib m = (case m of Inl w \<Rightarrow> Inl (StdException w) | Inr x \<Rightarrow> Inr x)"

definition lib_defined :: "(string + 'a) option \<Rightarrow> 'a throws" where
  "lib_defined m = (case m of None \<Rightarrow> Inl Undefined | Some r \<Rightarrow> lib r)"

lemma throws_simps [simp]:
  "bind_throws (Inl e) f = Inl e" "bind_throws (Inr x) f = f x"
  "lib (Inl w) = Inl (StdException w)" "lib (Inr x) = Inr x"
  "lib_defined None = Inl Undefined" "lib_defined (Some r) = lib r"
  by (simp_all add: bind_throws_def lib_def lib_defined_def)

lemma bind_throws_Inr:
  "bind_throws m f = Inr y \<longleftrightarrow> (\<exists>x. m = Inr x \<and> f x = Inr y)"
  by (cases m) simp_all

lemma lib_Inr [simp]: "lib m = Inr x \<longleftrightarrow> m = Inr x"
  by (cases m) simp_all

lemma lib_defined_Inr [simp]: "lib_defined m = Inr x \<longleftrightarrow> m = Some (Inr x)"
  by (cases m) simp_all

lemma guard_Inr: "(if c then Inl e else m) = Inr y \<longleftrightarrow> \<not> c \<and> m = Inr y"
  by simp

lemma when_Inr: "(if c then m else Inr ()) = Inr () \<longleftrightarrow> (c \<longrightarrow> m = Inr ())"
  by simp

text \<open>Computations that throw nothing but \<open>ProtocolError\<close>s.\<close>

definition protocol_only :: "'a throws \<Rightarrow> bool" where
  "protocol_only m \<longleftrightarrow> (\<forall>w. m \<noteq> Inl (StdException w))"

lemma protocol_only_bind:
  "protocol_only m \<Longrightarrow> (\<And>x. m = Inr x \<Longrightarrow> protocol_only (f x)) \<Longrightarrow> protocol_only (bind_throws m f)"
  by (cases m) (simp_all add: protocol_only_def)

lemma protocol_only_intros:
  "protocol_only (Inr x)" "protocol_only (Inl (ProtocolError e))"
  "\<exists>x. l = Inr x \<Longrightarrow> protocol_only (lib l)" "\<forall>w. l' \<noteq> Some (Inl w) \<Longrightarrow> protocol_only (lib_defined l')"
  "(c \<Longrightarrow> protocol_only a) \<Longrightarrow> (\<not> c \<Longrightarrow> protocol_only b) \<Longrightarrow> protocol_only (if c then a else b)"
  by (auto simp: protocol_only_def lib_defined_def lib_def split: option.splits sum.splits)

section \<open>Requests\<close>

definition protocol_parse :: "'j json_lib \<Rightarrow> string \<Rightarrow> 'j throws" where
  "protocol_parse L raw =
     (if raw = [] then Inl (ProtocolError ''Empty message'')
      else case js_parse L raw of
             Parsed j \<Rightarrow> Inr j
           | Parse_Error \<Rightarrow> Inl (ProtocolError ''Invalid JSON'')
           | Parse_Exception w \<Rightarrow> Inl (StdException w))"

definition getMessageType :: "'j json_lib \<Rightarrow> 'j \<Rightarrow> string throws" where
  "getMessageType L msg =
     (if \<not> js_contains L msg ''type'' \<or> \<not> js_is_string L (js_at L msg ''type'')
      then Inl (ProtocolError ''Missing or invalid 'type' field'')
      else lib (js_get_string L (js_at L msg ''type'')))"

definition parseSide :: "string \<Rightarrow> fside throws" where
  "parseSide s =
     (if s = ''BUY'' then Inr F_BUY
      else if s = ''SELL'' then Inr F_SELL
      else Inl (ProtocolError (''Invalid side: '' @ s)))"

definition parseOrderType :: "string \<Rightarrow> forder_type throws" where
  "parseOrderType s =
     (if s = ''LIMIT'' then Inr F_LIMIT
      else if s = ''MARKET'' then Inr F_MARKET
      else Inl (ProtocolError (''Invalid orderType: '' @ s)))"

definition validatePlaceOrder :: "'j json_lib \<Rightarrow> 'j \<Rightarrow> unit throws" where
  "validatePlaceOrder L msg =
     (if \<not> js_contains L msg ''side'' \<or> \<not> js_is_string L (js_at L msg ''side'')
      then Inl (ProtocolError ''Missing or invalid 'side' field'')
      else if \<not> js_contains L msg ''orderType'' \<or> \<not> js_is_string L (js_at L msg ''orderType'')
      then Inl (ProtocolError ''Missing or invalid 'orderType' field'')
      else if \<not> js_contains L msg ''quantity'' \<or> \<not> js_is_number L (js_at L msg ''quantity'')
      then Inl (ProtocolError ''Missing or invalid 'quantity' field'')
      else
        bind_throws (lib_defined (js_get_int64 L (js_at L msg ''quantity''))) (\<lambda>qty.
          if qty \<le>s 0 then Inl (ProtocolError ''Quantity must be greater than 0'')
          else
            bind_throws (lib (js_get_string L (js_at L msg ''orderType''))) (\<lambda>orderType.
              if orderType = ''LIMIT'' then
                (if \<not> js_contains L msg ''price'' \<or> \<not> js_is_number L (js_at L msg ''price'')
                 then Inl (ProtocolError ''Missing or invalid 'price' field for LIMIT order'')
                 else
                   bind_throws (lib (js_get_double L (js_at L msg ''price''))) (\<lambda>price.
                     if price \<le> double_zero
                     then Inl (ProtocolError ''Price must be greater than 0'')
                     else Inr ()))
              else Inr ())))"

definition validateCancelOrder :: "'j json_lib \<Rightarrow> 'j \<Rightarrow> unit throws" where
  "validateCancelOrder L msg =
     (if \<not> js_contains L msg ''orderId'' \<or> \<not> js_is_number L (js_at L msg ''orderId'')
      then Inl (ProtocolError ''Missing or invalid 'orderId' field'')
      else Inr ())"

definition parsePlaceOrder :: "'j json_lib \<Rightarrow> 'j \<Rightarrow> place_order_request throws" where
  "parsePlaceOrder L msg =
     bind_throws (validatePlaceOrder L msg) (\<lambda>_.
     bind_throws (bind_throws (lib (js_get_string L (js_at L msg ''side''))) parseSide) (\<lambda>s.
     bind_throws (bind_throws (lib (js_get_string L (js_at L msg ''orderType''))) parseOrderType) (\<lambda>t.
     bind_throws (lib_defined (js_get_int64 L (js_at L msg ''quantity''))) (\<lambda>q.
       if t = F_LIMIT then
         bind_throws (lib (js_get_double L (js_at L msg ''price''))) (\<lambda>p.
           Inr \<lparr>req_side = s, req_orderType = t, req_price = p, req_quantity = q\<rparr>)
       else Inr \<lparr>req_side = s, req_orderType = t, req_price = double_zero, req_quantity = q\<rparr>))))"

definition parseCancelOrder :: "'j json_lib \<Rightarrow> 'j \<Rightarrow> cancel_order_request throws" where
  "parseCancelOrder L msg =
     bind_throws (validateCancelOrder L msg) (\<lambda>_.
     bind_throws (lib_defined (js_get_int64 L (js_at L msg ''orderId''))) (\<lambda>i.
       Inr \<lparr>req_orderId = i\<rparr>))"

section \<open>Messages\<close>

definition sideToString :: "fside \<Rightarrow> string" where
  "sideToString s = (case s of F_BUY \<Rightarrow> ''BUY'' | F_SELL \<Rightarrow> ''SELL'')"

definition orderStatusToString :: "order_status \<Rightarrow> string" where
  "orderStatusToString s =
     (case s of
        ACCEPTED \<Rightarrow> ''ACCEPTED''
      | PARTIALLY_FILLED \<Rightarrow> ''PARTIALLY_FILLED''
      | FILLED \<Rightarrow> ''FILLED''
      | CANCELLED \<Rightarrow> ''CANCELLED'')"

definition msg_orderAccepted :: "'j json_lib \<Rightarrow> i64 \<Rightarrow> 'j" where
  "msg_orderAccepted L i =
     js_object L [(''type'', js_string L ''ORDER_ACCEPTED''), (''orderId'', js_int64 L i)]"

definition msg_orderRejected :: "'j json_lib \<Rightarrow> string \<Rightarrow> 'j" where
  "msg_orderRejected L reason =
     js_object L [(''type'', js_string L ''ORDER_REJECTED''), (''reason'', js_string L reason)]"

definition msg_orderCancelled :: "'j json_lib \<Rightarrow> i64 \<Rightarrow> 'j" where
  "msg_orderCancelled L i =
     js_object L [(''type'', js_string L ''ORDER_CANCELLED''), (''orderId'', js_int64 L i)]"

definition msg_tradeEvent :: "'j json_lib \<Rightarrow> trade_msg \<Rightarrow> 'j" where
  "msg_tradeEvent L t =
     js_object L
       [(''type'', js_string L ''TRADE''), (''tradeId'', js_int64 L (tm_tradeId t)),
        (''price'', js_double L (tm_price t)), (''quantity'', js_int64 L (tm_quantity t))]"

definition msg_orderUpdate :: "'j json_lib \<Rightarrow> order_update \<Rightarrow> 'j" where
  "msg_orderUpdate L u =
     js_object L
       [(''type'', js_string L ''ORDER_STATUS''), (''orderId'', js_int64 L (ou_orderId u)),
        (''status'', js_string L (orderStatusToString (ou_status u))),
        (''remaining'', js_int64 L (ou_remaining u))]"

definition msg_level :: "'j json_lib \<Rightarrow> price_level \<Rightarrow> 'j" where
  "msg_level L l =
     js_object L [(''price'', js_double L (pl_price l)), (''quantity'', js_int64 L (pl_quantity l))]"

definition msg_orderBook :: "'j json_lib \<Rightarrow> snapshot \<Rightarrow> 'j" where
  "msg_orderBook L s =
     js_object L
       [(''type'', js_string L ''ORDER_BOOK_UPDATE''),
        (''bids'', js_array L (map (msg_level L) (snap_bids s))),
        (''asks'', js_array L (map (msg_level L) (snap_asks s)))]"

definition msg_metrics :: "'j json_lib \<Rightarrow> metrics_data \<Rightarrow> 'j" where
  "msg_metrics L m =
     js_object L
       [(''type'', js_string L ''METRICS''),
        (''ordersProcessed'', js_int64 L (md_ordersProcessed m)),
        (''tradesExecuted'', js_int64 L (md_tradesExecuted m)),
        (''activeOrders'', js_int64 L (md_activeOrders m)),
        (''totalVolume'', js_int64 L (md_totalVolume m)),
        (''ordersPerSecond'', js_double L (md_ordersPerSecond m))]"

definition msg_error :: "'j json_lib \<Rightarrow> string \<Rightarrow> 'j" where
  "msg_error L message =
     js_object L [(''type'', js_string L ''ERROR''), (''message'', js_string L message)]"

lemmas message_defs =
  msg_orderAccepted_def msg_orderRejected_def msg_orderCancelled_def msg_tradeEvent_def
  msg_orderUpdate_def msg_orderBook_def msg_metrics_def msg_error_def

end
