(* ===== verification/IEEE_Arith.thy ===== *)
theory IEEE_Arith
  imports IEEE_Double
begin

text \<open>
  The floating-point arithmetic the server's metrics need: the conversion of an integer to
  \<open>double\<close> and the division of two doubles, both correctly rounded (to nearest, ties to even), as
  IEEE 754 prescribes. Both are the rounding of a ratio of natural numbers.
\<close>

fun bit_length :: "nat \<Rightarrow> nat" where
  "bit_length n = (if n = 0 then 0 else Suc (bit_length (n div 2)))"

declare bit_length.simps [simp del]

definition round_half_even :: "nat \<Rightarrow> nat \<Rightarrow> nat" where
  "round_half_even n d =
     (let q = n div d; r = n mod d
      in if 2 * r < d \<or> 2 * r = d \<and> even q then q else q + 1)"

text \<open>The numerator and denominator of \<open>(n / d) / 2 ^ e\<close>.\<close>

definition scaled_num :: "nat \<Rightarrow> int \<Rightarrow> nat" where
  "scaled_num n e = (if 0 \<le> e then n else n * 2 ^ nat (- e))"

definition scaled_den :: "nat \<Rightarrow> int \<Rightarrow> nat" where
  "scaled_den d e = (if 0 \<le> e then d * 2 ^ nat e else d)"

text \<open>
  The exponent \<open>e\<close> with \<open>2 ^ 52 \<le> (n / d) / 2 ^ e < 2 ^ 53\<close>, or \<open>-1074\<close> when the number is smaller
  than the least normal double.
\<close>

definition ratio_exponent :: "nat \<Rightarrow> nat \<Rightarrow> int" where
  "ratio_exponent n d =
     (let b = int (bit_length n) - int (bit_length d);
          e = (if scaled_num n b < scaled_den d b then b - 53 else b - 52)
      in max e (- 1074))"

text \<open>The magnitude (the 63 bits below the sign) of the double nearest to \<open>n / d\<close>.\<close>

definition round_ratio :: "nat \<Rightarrow> nat \<Rightarrow> nat" where
  "round_ratio n d =
     (if n = 0 then 0
      else let e = ratio_exponent n d;
               q = round_half_even (scaled_num n e) (scaled_den d e)
           in min (nat (e + 1074) * 2 ^ 52 + q) 0x7FF0000000000000)"

definition signed_double :: "bool \<Rightarrow> nat \<Rightarrow> double" where
  "signed_double neg m = Double (of_nat (if neg then 2 ^ 63 + m else m))"

definition double_of_int64 :: "i64 \<Rightarrow> double" where
  "double_of_int64 w = signed_double (sint w < 0) (round_ratio (nat \<bar>sint w\<bar>) 1)"

definition is_infinite_double :: "double \<Rightarrow> bool" where
  "is_infinite_double d \<longleftrightarrow> dmag d = 0x7FF0000000000000"

definition double_div :: "double \<Rightarrow> double \<Rightarrow> double" where
  "double_div a b =
     (let neg = (dneg a \<noteq> dneg b) in
      if is_nan a \<or> is_nan b \<or> is_infinite_double a \<and> is_infinite_double b \<or> dmag a = 0 \<and> dmag b = 0
      then Double 0x7FF8000000000000
      else if is_infinite_double a \<or> dmag b = 0 then signed_double neg 0x7FF0000000000000
      else if is_infinite_double b then signed_double neg 0
      else signed_double neg (round_ratio (nat (scaled_mag (dmag a))) (nat (scaled_mag (dmag b)))))"

lemma dmag_signed_double: "m < 2 ^ 63 \<Longrightarrow> dmag (signed_double neg m) = int m"
  by (simp add: dmag_def signed_double_def unsigned_of_nat take_bit_nat_eq_self_iff
      uint_word_of_int take_bit_eq_mod of_nat_mod)

lemma round_ratio_le: "round_ratio n d \<le> 0x7FF0000000000000"
  by (simp add: round_ratio_def Let_def)

text \<open>The conversion of an integer is never NaN.\<close>

lemma double_of_int64_not_nan: "not_nan (double_of_int64 w)"
  using round_ratio_le [of "nat \<bar>sint w\<bar>" 1]
  by (simp add: not_nan_def is_nan_def double_of_int64_def dmag_signed_double)

end
