(* ===== verification/Metrics.thy ===== *)
theory Metrics
  imports Protocol_Types IEEE_Arith
begin

text \<open>
  The class \<open>Metrics\<close> (\<open>server/include/Metrics.hpp\<close>, \<open>server/src/Metrics.cpp\<close>). The counters are
  \<open>std::atomic<int64_t>\<close>, whose \<open>fetch_add\<close> wraps around. The time since \<open>startTime_\<close>, in seconds,
  is the argument \<open>seconds\<close> of \<open>metrics_snapshot\<close>.
\<close>

record metrics =
  ordersProcessed :: i64
  tradesExecuted :: i64
  activeOrders :: i64
  totalVolume :: i64

definition initial_metrics :: metrics where
  "initial_metrics =
     \<lparr>ordersProcessed = 0, tradesExecuted = 0, activeOrders = 0, totalVolume = 0\<rparr>"

definition recordOrder :: "metrics \<Rightarrow> metrics" where
  "recordOrder m = m\<lparr>ordersProcessed := ordersProcessed m + 1\<rparr>"

definition recordTrade :: "i64 \<Rightarrow> metrics \<Rightarrow> metrics" where
  "recordTrade v m =
     m\<lparr>tradesExecuted := tradesExecuted m + 1, totalVolume := totalVolume m + v\<rparr>"

definition recordCancel :: "metrics \<Rightarrow> metrics" where
  "recordCancel m = m"

definition setActiveOrders :: "i64 \<Rightarrow> metrics \<Rightarrow> metrics" where
  "setActiveOrders count m = m\<lparr>activeOrders := count\<rparr>"

definition metrics_snapshot :: "double \<Rightarrow> metrics \<Rightarrow> metrics_data" where
  "metrics_snapshot seconds m =
     \<lparr>md_ordersProcessed = ordersProcessed m, md_tradesExecuted = tradesExecuted m,
      md_activeOrders = activeOrders m, md_totalVolume = totalVolume m,
      md_ordersPerSecond =
        (if double_zero < seconds
         then double_div (double_of_int64 (ordersProcessed m)) seconds else double_zero)\<rparr>"

lemmas [server_simps] =
  initial_metrics_def recordOrder_def recordTrade_def recordCancel_def setActiveOrders_def

text \<open>The trades of one order, recorded one after the other.\<close>

lemma recordTrades:
  "fold (\<lambda>v m. recordTrade v m) vs m =
     m\<lparr>tradesExecuted := tradesExecuted m + of_nat (length vs), totalVolume := totalVolume m + sum_list vs\<rparr>"
  by (induction vs arbitrary: m) (simp_all add: recordTrade_def ac_simps)

end
