(* ===== verification/Engine_Adapter.thy ===== *)
theory Engine_Adapter
  imports Protocol_Types
begin

text \<open>
  The class \<open>EngineAdapter\<close> (\<open>server/include/EngineAdapter.hpp\<close>,
  \<open>server/src/EngineAdapter.cpp\<close>): it numbers the orders, calls the engine and turns the event
  stream back into a result. Each operation holds \<open>mutex_\<close> throughout, so it is one atomic
  function here. The system clock is the argument \<open>now\<close>. \<open>None\<close> is undefined behaviour: signed
  overflow of \<open>nextOrderId_\<close> or of the subtraction from \<open>remaining\<close>, a read of an uninitialised
  event field, or an invalid iterator.
\<close>

record engine_result =
  er_accepted :: bool
  er_rejectReason :: string
  er_orderId :: i64
  er_remaining :: i64
  er_status :: order_status
  er_trades :: "trade_msg list"
  er_orderUpdates :: "order_update list"
  er_bookChanged :: bool

record cancel_result =
  cr_success :: bool
  cr_reason :: string
  cr_orderId :: i64

record adapter =
  adapter_engine :: engine
  nextOrderId :: i64

definition new_result :: engine_result where
  "new_result =
     \<lparr>er_accepted = False, er_rejectReason = '''', er_orderId = 0, er_remaining = 0,
      er_status = ACCEPTED, er_trades = [], er_orderUpdates = [], er_bookChanged = False\<rparr>"

definition initial_adapter :: adapter where
  "initial_adapter = \<lparr>adapter_engine = initial_engine, nextOrderId = 1\<rparr>"

definition toEngineSide :: "fside \<Rightarrow> side" where
  "toEngineSide s = (if s = F_BUY then BUY else SELL)"

definition toEngineOrderType :: "forder_type \<Rightarrow> order_type" where
  "toEngineOrderType t = (if t = F_LIMIT then LIMIT else MARKET)"

definition INT64_MAX :: i64 where
  "INT64_MAX = 0x7FFFFFFFFFFFFFFF"

text \<open>The subtraction of two \<open>std::int64_t\<close>; \<open>None\<close> is signed overflow.\<close>

definition signed_sub :: "i64 \<Rightarrow> i64 \<Rightarrow> i64 option" where
  "signed_sub a b =
     (if - (2 ^ 63) \<le> sint a - sint b \<and> sint a - sint b < 2 ^ 63 then Some (a - b) else None)"

text \<open>One iteration of the loop over the events; the second component is \<open>remaining\<close>.\<close>

definition adapter_event ::
  "u64 \<Rightarrow> event \<Rightarrow> engine_result \<times> i64 \<Rightarrow> (engine_result \<times> i64) option" where
  "adapter_event oid ev = (\<lambda>(result, remaining).
     case event_type ev of
       ORDER_ACCEPTED \<Rightarrow> Some (result, remaining)
     | TRADE_EXECUTED \<Rightarrow>
         (case event_trade ev of
            None \<Rightarrow> None
          | Some t \<Rightarrow>
              let te = \<lparr>tm_tradeId = tradeId t, tm_price = trade_price t,
                        tm_quantity = trade_quantity t\<rparr>
              in case (if buyOrderId t = oid \<or> sellOrderId t = oid
                       then signed_sub remaining (trade_quantity t) else Some remaining) of
                   None \<Rightarrow> None
                 | Some remaining' \<Rightarrow>
                     Some (result\<lparr>er_trades := er_trades result @ [te]\<rparr>, remaining'))
     | ORDER_COMPLETELY_FILLED \<Rightarrow>
         (case event_orderId ev of
            None \<Rightarrow> None
          | Some i \<Rightarrow>
              if i = oid then
                Some (result\<lparr>er_status := FILLED, er_remaining := 0,
                        er_orderUpdates := er_orderUpdates result @
                          [\<lparr>ou_orderId = er_orderId result, ou_status = FILLED, ou_remaining = 0\<rparr>]\<rparr>,
                      remaining)
              else
                Some (result\<lparr>er_orderUpdates := er_orderUpdates result @
                          [\<lparr>ou_orderId = i, ou_status = FILLED, ou_remaining = 0\<rparr>]\<rparr>,
                      remaining))
     | ORDER_PARTIALLY_FILLED \<Rightarrow>
         (case event_orderId ev of
            None \<Rightarrow> None
          | Some i \<Rightarrow>
              if i = oid then
                Some (result\<lparr>er_status := PARTIALLY_FILLED, er_remaining := remaining,
                        er_orderUpdates := er_orderUpdates result @
                          [\<lparr>ou_orderId = er_orderId result, ou_status = PARTIALLY_FILLED,
                            ou_remaining = remaining\<rparr>]\<rparr>,
                      remaining)
              else
                Some (result\<lparr>er_orderUpdates := er_orderUpdates result @
                          [\<lparr>ou_orderId = i, ou_status = PARTIALLY_FILLED, ou_remaining = - 1\<rparr>]\<rparr>,
                      remaining))
     | ORDER_BOOK_CHANGED \<Rightarrow> Some (result\<lparr>er_bookChanged := True\<rparr>, remaining)
     | ORDER_CANCELLED \<Rightarrow> Some (result, remaining))"

fun adapter_events ::
  "u64 \<Rightarrow> event list \<Rightarrow> engine_result \<times> i64 \<Rightarrow> (engine_result \<times> i64) option" where
  "adapter_events oid [] st = Some st"
| "adapter_events oid (ev # evs) st =
     (case adapter_event oid ev st of None \<Rightarrow> None | Some st' \<Rightarrow> adapter_events oid evs st')"

definition make_order :: "i64 \<Rightarrow> fside \<Rightarrow> forder_type \<Rightarrow> double \<Rightarrow> i64 \<Rightarrow> u64 \<Rightarrow> order" where
  "make_order i s t p q now =
     \<lparr>orderId = i, symbol = ''BTC/USDT'', side = toEngineSide s, orderType = toEngineOrderType t,
      price = p, quantity = q, remainingQuantity = q, timestamp = now\<rparr>"

definition adapter_placeOrder ::
  "u64 \<Rightarrow> fside \<Rightarrow> forder_type \<Rightarrow> double \<Rightarrow> i64 \<Rightarrow> adapter \<Rightarrow> (adapter \<times> engine_result) option"
where
  "adapter_placeOrder now s t p q a =
     (if nextOrderId a = INT64_MAX then None
      else
        let x = make_order (nextOrderId a) s t p q now;
            (e', events) = placeOrder x (adapter_engine a);
            a' = a\<lparr>adapter_engine := e', nextOrderId := nextOrderId a + 1\<rparr>;
            result = new_result\<lparr>er_orderId := orderId x, er_accepted := True\<rparr>
        in case adapter_events (orderId x) events (result, q) of
             None \<Rightarrow> None
           | Some (result', remaining) \<Rightarrow>
               if er_status result' = ACCEPTED then
                 let result'' = result'\<lparr>er_remaining := remaining\<rparr>
                 in if t = F_MARKET \<and> remaining = q
                    then Some (a', result''\<lparr>er_accepted := False,
                                            er_rejectReason := ''No liquidity for market order''\<rparr>)
                    else Some (a', result'')
               else Some (a', result'))"

definition adapter_cancelOrder :: "i64 \<Rightarrow> adapter \<Rightarrow> (adapter \<times> cancel_result) option" where
  "adapter_cancelOrder i a =
     (case engine_cancelOrder i (adapter_engine a) of
        None \<Rightarrow> None
      | Some (e', events) \<Rightarrow>
          let a' = a\<lparr>adapter_engine := e'\<rparr> in
          if events = []
          then Some (a', \<lparr>cr_success = False, cr_reason = ''Order not found'', cr_orderId = i\<rparr>)
          else Some (a', \<lparr>cr_success = True, cr_reason = '''', cr_orderId = i\<rparr>))"

definition DEPTH_LEVELS :: u64 where
  "DEPTH_LEVELS = 10"

definition adapter_getOrderBook :: "adapter \<Rightarrow> snapshot" where
  "adapter_getOrderBook a =
     (let ob = getOrderBook (adapter_engine a) in
      \<lparr>snap_bids = map (\<lambda>(p, q). \<lparr>pl_price = p, pl_quantity = q\<rparr>) (getBidDepth DEPTH_LEVELS ob),
       snap_asks = map (\<lambda>(p, q). \<lparr>pl_price = p, pl_quantity = q\<rparr>) (getAskDepth DEPTH_LEVELS ob)\<rparr>)"

definition getActiveOrderCount :: "adapter \<Rightarrow> i64" where
  "getActiveOrderCount a = of_nat (length (engine_getOpenOrders (adapter_engine a)))"

lemmas [server_simps] =
  initial_adapter_def new_result_def toEngineSide_def toEngineOrderType_def INT64_MAX_def
  make_order_def signed_sub_def adapter_event_def adapter_placeOrder_def adapter_cancelOrder_def
  adapter_getOrderBook_def getActiveOrderCount_def DEPTH_LEVELS_def

end
