(* ===== verification/Engine_Theorems.thy ===== *)
theory Engine_Theorems
  imports Samples
begin

text \<open>
  The properties of the matching engine, each over the model of \<open>MatchingEngine\<close> in a reachable
  state. \<open>new_trades e e'\<close> are the trades an operation appended to \<open>recentTrades\<close>. The lemma
  \<open>place_outcome\<close> is the one fact all properties of \<open>placeOrder\<close> rest on.
\<close>

definition new_trades :: "engine \<Rightarrow> engine \<Rightarrow> trade list" where
  "new_trades e e' = drop (length (recentTrades e)) (recentTrades e')"

definition volume :: "trade list \<Rightarrow> nat" where
  "volume ts = sum_list (map (\<lambda>t. unat (trade_quantity t)) ts)"

text \<open>The order of a trade that was resting: the one that is not the incoming order.\<close>

definition resting_id :: "order \<Rightarrow> trade \<Rightarrow> u64" where
  "resting_id x t = (if side x = BUY then sellOrderId t else buyOrderId t)"

lemma volume_trades_of: "volume (trades_of x fs tid ts) = traded fs"
proof -
  have "volume (trades_of x fs tid ts) = sum_list (map unat (map trade_quantity (trades_of x fs tid ts)))"
    by (simp add: volume_def o_def)
  then show ?thesis by (simp add: trades_of_quantity traded_def o_def)
qed

lemma resting_ids_trades_of:
  "map (resting_id x) (trades_of x fs tid ts) = map (orderId \<circ> fst) fs"
  by (induction x fs tid ts rule: trades_of.induct) (simp_all add: mk_trade_def resting_id_def)

lemma place_outcome:
  assumes "book_wf (orderBook e)" and "admissible x e" and "placeOrder x e = (e', evs)"
  obtains fs n where
    "fills (crosses x) (remainingQuantity x) (opp_queue (side x) (orderBook e))
      = (fs, n, opp_queue (side x) (orderBook e'))"
    and "own_queue (side x) (orderBook e') = (if n \<noteq> 0 \<and> orderType x = LIMIT
      then enqueue (x\<lparr>remainingQuantity := n\<rparr>) (own_queue (side x) (orderBook e))
      else own_queue (side x) (orderBook e))"
    and "new_trades e e' = trades_of x fs (nextTradeId e) (nextTimestamp e)"
    and "recentTrades e' = recentTrades e @ new_trades e e'"
    and "evs = spec_events x fs n (nextTradeId e) (nextTimestamp e)"
    and "book_wf (orderBook e')"
proof -
  obtain fs n opp' own' where sp: "spec_place x (opp_queue (side x) (orderBook e))
      (own_queue (side x) (orderBook e)) = (fs, n, opp', own')"
    by (metis prod_cases4)
  obtain b' where p: "placeOrder x e =
      (log_trades (trades_of x fs (nextTradeId e) (nextTimestamp e)) b' e,
       spec_events x fs n (nextTradeId e) (nextTimestamp e))"
    and b': "book_wf b'" "opp_queue (side x) b' = opp'" "own_queue (side x) b' = own'"
    by (rule place_spec [OF assms(1,2) sp])
  show thesis
    using spec_place_fills [OF sp] spec_place_own [OF sp] b' p assms(3)
    by (intro that [of fs n]) (auto simp: new_trades_def)
qed

section \<open>The central refinement\<close>

text \<open>
  C1: \<open>placeOrder\<close> implements price-time priority matching. In every reachable state and for
  every admissible order, the trades it logs, the events it returns and both queues of resting
  orders afterwards are those of the specification \<open>spec_place\<close>, which takes liquidity from the
  front of the opposite queue and puts what is left of a limit order on its own queue.
\<close>

theorem placeOrder_implements_matching:
  assumes "reachable e" and "admissible x e" and "placeOrder x e = (e', evs)"
    and "spec_place x (opp_queue (side x) (orderBook e)) (own_queue (side x) (orderBook e))
         = (fs, n, opp', own')"
  shows "opp_queue (side x) (orderBook e') = opp' \<and> own_queue (side x) (orderBook e') = own' \<and>
    recentTrades e' = recentTrades e @ trades_of x fs (nextTradeId e) (nextTimestamp e) \<and>
    evs = spec_events x fs n (nextTradeId e) (nextTimestamp e)"
  using place_spec [OF reachable_book_wf [OF assms(1)] assms(2,4)] assms(3) by (metis log_trades_fields(1,2) prod.inject)

theorem placeOrder_implements_matching_witness:
  "ask_queue (orderBook (fst (placeOrder (limit_order 3 BUY d101 50) engine_two))) = [] \<and>
   map orderId (bid_queue (orderBook (fst (placeOrder (limit_order 3 BUY d101 50) engine_two)))) = [3, 1]"
  using placeOrder_implements_matching [OF engine_two_reachable, of "limit_order 3 BUY d101 50"
      "fst (placeOrder (limit_order 3 BUY d101 50) engine_two)"
      "snd (placeOrder (limit_order 3 BUY d101 50) engine_two)"]
  by (simp add: admissible_engine_two queues_of_side engine_two_book spec_place_def crosses_def
      crosses_buy_def enqueue_def enqueue_bid_def Let_def)

section \<open>Invariants\<close>

text \<open>
  C2: in every reachable state the order book is well formed: price levels strictly sorted and
  non-empty, every resting order on its side, at its level and with quantity left, order ids
  unique, and the index \<open>orderLocations\<close> holds exactly the resting orders, each with its side,
  its price and the address of its list node.
\<close>

theorem reachable_book_well_formed:
  assumes "reachable e"
  shows "book_wf (orderBook e)"
  by (rule reachable_book_wf [OF assms])

theorem reachable_book_well_formed_witness:
  "orderLocations (orderBook engine_two) = index_of (book_nodes (orderBook engine_two))"
  using reachable_book_well_formed [OF engine_two_reachable] by (simp add: book_wf_def)

text \<open>
  C3: the book is never crossed: when both sides hold orders, the best bid is strictly below the
  best ask.
\<close>

theorem book_never_crossed:
  assumes "reachable e" and "bestBid (orderBook e) = Some x" and "bestAsk (orderBook e) = Some y"
  shows "price x < price y"
proof -
  have "book_wf (orderBook e)" "uncrossed (orderBook e)"
    using reachable_engine_inv [OF assms(1)] by (simp_all add: engine_inv_def)
  then show ?thesis
    using assms(2,3) by (auto simp: bestBid_queue bestAsk_queue uncrossed_def split: list.splits)
qed

theorem book_never_crossed_witness: "price (limit_order 1 BUY d100 100) < price (limit_order 2 SELL d101 40)"
  by (rule book_never_crossed [OF engine_two_reachable])
     (simp_all add: bestBid_queue bestAsk_queue engine_two_book reachable_book_wf engine_two_reachable)

text \<open>
  C37: market orders never rest: every open order of a reachable state is a limit order with
  quantity left and a price that is not NaN.
\<close>

theorem market_orders_never_rest:
  assumes "reachable e" and "x \<in> set (engine_getOpenOrders e)"
  shows "orderType x = LIMIT \<and> 0 < remainingQuantity x \<and> not_nan (price x)"
  using reachable_engine_inv [OF assms(1)] assms(2) bid_queue_orders ask_queue_orders
  by (auto simp: engine_inv_def no_market_resting_def engine_getOpenOrders_def getOpenOrders_queues)

theorem market_orders_never_rest_witness:
  "0 < remainingQuantity (limit_order 2 SELL d101 40)"
  using market_orders_never_rest [OF engine_two_reachable, of "limit_order 2 SELL d101 40"]
  by (simp add: engine_getOpenOrders_def getOpenOrders_queues engine_two_book)

section \<open>Quantities, prices and priority of trades\<close>

text \<open>
  C4: no quantity is created or lost. What a limit order brings in is either on the book
  afterwards or traded, and every traded unit is taken from a resting order as well; for a market
  order what is neither traded nor offered is dropped.
\<close>

theorem placeOrder_conserves_quantity:
  assumes "reachable e" and "admissible x e" and "placeOrder x e = (e', evs)"
  shows "volume (new_trades e e') \<le> unat (remainingQuantity x) \<and>
    total (engine_getOpenOrders e') + volume (new_trades e e') =
      total (engine_getOpenOrders e) +
      (if orderType x = LIMIT then unat (remainingQuantity x) - volume (new_trades e e') else 0)"
proof -
  obtain fs n where f: "fills (crosses x) (remainingQuantity x) (opp_queue (side x) (orderBook e))
      = (fs, n, opp_queue (side x) (orderBook e'))"
    and own: "own_queue (side x) (orderBook e') = (if n \<noteq> 0 \<and> orderType x = LIMIT
      then enqueue (x\<lparr>remainingQuantity := n\<rparr>) (own_queue (side x) (orderBook e))
      else own_queue (side x) (orderBook e))"
    and new: "new_trades e e' = trades_of x fs (nextTradeId e) (nextTimestamp e)"
    by (rule place_outcome [OF reachable_book_wf [OF assms(1)] assms(2,3)])
  have "total (own_queue (side x) (orderBook e')) =
      total (own_queue (side x) (orderBook e)) + (if orderType x = LIMIT then unat n else 0)"
    by (simp add: own)
  then show ?thesis
    using fills_conserve_incoming [OF f] fills_conserve_resting [OF f]
    by (simp add: engine_getOpenOrders_def getOpenOrders_sides(2) [of _ "side x"] new volume_trades_of)
qed

theorem placeOrder_conserves_quantity_witness:
  "total (engine_getOpenOrders (fst (placeOrder (market_order 3 SELL 30) engine_two))) = 110"
  using placeOrder_conserves_quantity [OF engine_two_reachable, of "market_order 3 SELL 30"
      "fst (placeOrder (market_order 3 SELL 30) engine_two)"
      "snd (placeOrder (market_order 3 SELL 30) engine_two)"]
  by (simp add: admissible_engine_two engine_getOpenOrders_def getOpenOrders_queues
      engine_two_book engine_two_def engine_bid_def sample_eval volume_def new_trades_def
      bid_queue_def ask_queue_def)

text \<open>
  C7: the price of a trade is the price of the resting order, and never worse for the incoming
  limit order than its limit: at most the limit for a BUY, at least the limit for a SELL.
\<close>

theorem trades_respect_limit_price:
  assumes "reachable e" and "admissible x e" and "placeOrder x e = (e', evs)"
    and "t \<in> set (new_trades e e')"
  shows "(\<exists>r\<in>set (opp_queue (side x) (orderBook e)).
            orderId r = resting_id x t \<and> trade_price t = price r) \<and>
    (orderType x = LIMIT \<longrightarrow>
       (if side x = BUY then trade_price t \<le> price x else price x \<le> trade_price t))"
proof -
  note wf = reachable_book_wf [OF assms(1)]
  obtain fs n where f: "fills (crosses x) (remainingQuantity x) (opp_queue (side x) (orderBook e))
      = (fs, n, opp_queue (side x) (orderBook e'))"
    and new: "new_trades e e' = trades_of x fs (nextTradeId e) (nextTimestamp e)"
    by (rule place_outcome [OF wf assms(2,3)])
  obtain i where i: "i < length fs" "t = new_trades e e' ! i"
    using assms(4) by (auto simp: new in_set_conv_nth fills_length_trades)
  let ?r = "fst (fs ! i)"
  have t: "trade_price t = price ?r" "resting_id x t = orderId ?r"
    using i arg_cong [OF trades_of_price [of x fs "nextTradeId e" "nextTimestamp e"], of "\<lambda>l. l ! i"]
      arg_cong [OF resting_ids_trades_of [of x fs "nextTradeId e" "nextTimestamp e"], of "\<lambda>l. l ! i"]
    by (simp_all add: new fills_length_trades)
  have "?r \<in> set (map fst fs)" using i(1) by simp
  then have r: "?r \<in> set (opp_queue (side x) (orderBook e))"
    unfolding fills_prefix [OF f] by (rule in_set_takeD)
  have "crosses x ?r"
    using fills_quantities [OF f] own_opp_orders(1) [OF wf] i(1) by (meson nth_mem)
  moreover have "not_nan (price ?r)" using own_opp_orders(1) [OF wf r] by simp
  ultimately have "orderType x = LIMIT \<longrightarrow>
      (if side x = BUY then price ?r \<le> price x else price x \<le> price ?r)"
    using assms(2)
    by (auto simp: crosses_def crosses_buy_def crosses_sell_def admissible_def not_nan_less not_nan_le)
  with r t show ?thesis by auto
qed

theorem trades_respect_limit_price_witness:
  "trade_price \<lparr>tradeId = 1, buyOrderId = 3, sellOrderId = 2, trade_price = d101,
      trade_quantity = 40, trade_timestamp = 1\<rparr> \<le> price (limit_order 3 BUY d101 50)"
  using trades_respect_limit_price [OF engine_two_reachable, of "limit_order 3 BUY d101 50"
      "fst (placeOrder (limit_order 3 BUY d101 50) engine_two)"
      "snd (placeOrder (limit_order 3 BUY d101 50) engine_two)"
      "\<lparr>tradeId = 1, buyOrderId = 3, sellOrderId = 2, trade_price = d101,
        trade_quantity = 40, trade_timestamp = 1\<rparr>"]
  by (simp add: admissible_engine_two engine_two_def engine_bid_def sample_eval new_trades_def)

text \<open>
  C5: price-time priority. The resting orders an incoming order trades with are a prefix of the
  opposite queue, in its order, each at most once; every one of them but the last is filled
  completely.
\<close>

theorem price_time_priority:
  assumes "reachable e" and "admissible x e" and "placeOrder x e = (e', evs)"
  defines "new \<equiv> new_trades e e'" and "q \<equiv> opp_queue (side x) (orderBook e)"
  shows "length new \<le> length q \<and>
    map (resting_id x) new = map orderId (take (length new) q) \<and>
    (\<forall>i. Suc i < length new \<longrightarrow> trade_quantity (new ! i) = remainingQuantity (q ! i))"
proof -
  obtain fs n where f: "fills (crosses x) (remainingQuantity x) q
      = (fs, n, opp_queue (side x) (orderBook e'))"
    and new: "new = trades_of x fs (nextTradeId e) (nextTimestamp e)"
    unfolding new_def q_def by (rule place_outcome [OF reachable_book_wf [OF assms(1)] assms(2,3)])
  have len: "length new = length fs" by (simp add: new fills_length_trades)
  have pre: "map fst fs = take (length fs) q" by (rule fills_prefix [OF f])
  then have le: "length fs \<le> length q" by (metis length_map length_take min.cobounded1)
  have "trade_quantity (new ! i) = remainingQuantity (q ! i)" if i: "Suc i < length new" for i
  proof -
    have "fs ! i = butlast fs ! i" "i < length (butlast fs)" using i by (simp_all add: len nth_butlast)
    then have "snd (fs ! i) = remainingQuantity (fst (fs ! i))"
      using fills_full_but_last [OF f] by (metis nth_mem)
    moreover have "fst (fs ! i) = q ! i"
      using arg_cong [OF pre, of "\<lambda>l. l ! i"] i by (simp add: len)
    moreover have "trade_quantity (new ! i) = snd (fs ! i)"
      using arg_cong [OF trades_of_quantity [of x fs "nextTradeId e" "nextTimestamp e"], of "\<lambda>l. l ! i"] i
      by (simp add: new fills_length_trades)
    ultimately show ?thesis by simp
  qed
  moreover have "map (resting_id x) new = map orderId (map fst fs)"
    by (simp add: new resting_ids_trades_of)
  ultimately show ?thesis using le pre by (simp add: len)
qed

theorem price_time_priority_witness:
  "map (resting_id (market_order 3 BUY 10)) (new_trades engine_two
     (fst (placeOrder (market_order 3 BUY 10) engine_two))) = [2]"
  using price_time_priority [OF engine_two_reachable, of "market_order 3 BUY 10"
      "fst (placeOrder (market_order 3 BUY 10) engine_two)"
      "snd (placeOrder (market_order 3 BUY 10) engine_two)"]
  by (simp add: admissible_engine_two engine_two_def engine_bid_def sample_eval new_trades_def resting_id_def)

text \<open>
  C6: no match is missed. If an incoming order is not used up (the trades do not add up to its
  quantity), then afterwards no resting order of the opposite side would be acceptable to it; for
  a market order, the opposite side is empty.
\<close>

theorem no_missed_match:
  assumes "reachable e" and "admissible x e" and "placeOrder x e = (e', evs)"
    and "volume (new_trades e e') < unat (remainingQuantity x)"
  shows "(\<forall>r\<in>set (opp_queue (side x) (orderBook e')). \<not> crosses x r) \<and>
    (orderType x = MARKET \<longrightarrow> opp_queue (side x) (orderBook e') = [])"
proof -
  obtain fs n where f: "fills (crosses x) (remainingQuantity x) (opp_queue (side x) (orderBook e))
      = (fs, n, opp_queue (side x) (orderBook e'))"
    and new: "new_trades e e' = trades_of x fs (nextTradeId e) (nextTimestamp e)"
    and wf': "book_wf (orderBook e')"
    by (rule place_outcome [OF reachable_book_wf [OF assms(1)] assms(2,3)])
  have "n \<noteq> 0" using assms(4) fills_conserve_incoming [OF f] by (auto simp: new volume_trades_of)
  then have ex: "opp_queue (side x) (orderBook e') = [] \<or>
      \<not> crosses x (hd (opp_queue (side x) (orderBook e')))"
    using fills_exhaust [OF f] by simp
  have "\<not> crosses x r" if r: "r \<in> set (opp_queue (side x) (orderBook e'))" for r
  proof -
    have "\<not> crosses x (hd (opp_queue (side x) (orderBook e')))" using ex r by auto
    then have "orderType x = LIMIT" by (rule not_crossing [THEN conjunct1])
    then show ?thesis
      using rest_not_crossing [OF wf' refl ex r]
      by (auto simp: crosses_def crosses_buy_def crosses_sell_def split: if_splits)
  qed
  moreover have "opp_queue (side x) (orderBook e') = []" if "orderType x = MARKET"
    using ex that by (auto simp: crosses_def crosses_buy_def crosses_sell_def split: if_splits)
  ultimately show ?thesis by blast
qed

theorem no_missed_match_witness:
  "ask_queue (orderBook (fst (placeOrder (market_order 3 BUY 50) engine_two))) = []"
  using no_missed_match [OF engine_two_reachable, of "market_order 3 BUY 50"
      "fst (placeOrder (market_order 3 BUY 50) engine_two)"
      "snd (placeOrder (market_order 3 BUY 50) engine_two)"]
  by (simp add: admissible_engine_two queues_of_side)
     (simp add: engine_two_def engine_bid_def sample_eval new_trades_def volume_def)

section \<open>Resting, events and the trade log\<close>

text \<open>Where \<open>enqueue\<close> puts an order in a queue that is sorted by priority.\<close>

lemma enqueue_position:
  assumes "book_wf b" and "side x = s" and "not_nan (price x)"
  obtains l r where "own_queue s b = l @ r" and "enqueue x (own_queue s b) = l @ x # r"
    and "\<forall>y\<in>set l. if s = BUY then price x \<le> price y else price y \<le> price x"
    and "\<forall>y\<in>set r. if s = BUY then price y < price x else price x < price y"
proof -
  let ?P = "\<lambda>y. if s = BUY then price x \<le> price y else price y \<le> price x"
  let ?q = "own_queue s b"
  have sorted: "sorted_wrt (\<lambda>r r'. if s = BUY then price r' \<le> price r else price r \<le> price r') ?q"
    using bid_queue_sorted [OF assms(1)] ask_queue_sorted [OF assms(1)]
    by (cases s) (simp_all add: own_queue_def)
  have nn: "\<forall>y\<in>set ?q. not_nan (price y)" using own_opp_orders(2) [OF assms(1)] by blast
  have "\<forall>y\<in>set (dropWhile ?P ?q). if s = BUY then price y < price x else price x < price y"
  proof (cases "dropWhile ?P ?q")
    case (Cons y ys)
    then have "\<not> ?P y" by (simp add: dropWhile_eq_Cons_conv)
    have sub: "set (y # ys) \<subseteq> set ?q" unfolding Cons [symmetric] by (blast dest: set_dropWhileD)
    have "sorted_wrt (\<lambda>r r'. if s = BUY then price r' \<le> price r else price r \<le> price r')
        (takeWhile ?P ?q @ (y # ys))"
      using sorted by (simp only: Cons [symmetric] takeWhile_dropWhile_id)
    then have "sorted_wrt (\<lambda>r r'. if s = BUY then price r' \<le> price r else price r \<le> price r') (y # ys)"
      unfolding sorted_wrt_append by blast
    then have le: "if s = BUY then price z \<le> price y else price y \<le> price z" if "z \<in> set (y # ys)" for z
      using that nn sub by (auto simp: not_nan_le split: if_splits)
    have lt: "if s = BUY then price y < price x else price x < price y"
      using \<open>\<not> ?P y\<close> nn sub assms(3) by (auto simp: not_nan_le not_nan_less split: if_splits)
    show ?thesis
      unfolding Cons using le lt by (metis double_less_trans1 double_less_trans2)
  next
    case Nil
    show ?thesis unfolding Nil by simp
  qed
  moreover have "\<forall>y\<in>set (takeWhile ?P ?q). ?P y" using set_takeWhileD by fast
  ultimately show thesis
    using assms(2) by (intro that [of "takeWhile ?P ?q" "dropWhile ?P ?q"])
      (auto simp: enqueue_def enqueue_bid_def enqueue_ask_def)
qed

text \<open>
  Time priority of a resting order. An incoming limit order that is not used up is put on
  its own side, with the quantity that is left, behind every order priced as well or better and
  before every order priced strictly worse; the orders already there keep their order.
\<close>

lemma resting_order_queues_last_at_its_price:
  assumes "reachable e" and "admissible x e" and "placeOrder x e = (e', evs)"
    and "orderType x = LIMIT" and "volume (new_trades e e') < unat (remainingQuantity x)"
  shows "\<exists>l r n. own_queue (side x) (orderBook e) = l @ r \<and>
    own_queue (side x) (orderBook e') = l @ x\<lparr>remainingQuantity := n\<rparr> # r \<and>
    unat n = unat (remainingQuantity x) - volume (new_trades e e') \<and>
    (\<forall>y\<in>set l. if side x = BUY then price x \<le> price y else price y \<le> price x) \<and>
    (\<forall>y\<in>set r. if side x = BUY then price y < price x else price x < price y)"
proof -
  note wf = reachable_book_wf [OF assms(1)]
  obtain fs n where f: "fills (crosses x) (remainingQuantity x) (opp_queue (side x) (orderBook e))
      = (fs, n, opp_queue (side x) (orderBook e'))"
    and own: "own_queue (side x) (orderBook e') = (if n \<noteq> 0 \<and> orderType x = LIMIT
      then enqueue (x\<lparr>remainingQuantity := n\<rparr>) (own_queue (side x) (orderBook e))
      else own_queue (side x) (orderBook e))"
    and new: "new_trades e e' = trades_of x fs (nextTradeId e) (nextTimestamp e)"
    by (rule place_outcome [OF wf assms(2,3)])
  have n: "unat n = unat (remainingQuantity x) - volume (new_trades e e')" and n0: "n \<noteq> 0"
    using assms(5) fills_conserve_incoming [OF f] by (auto simp: new volume_trades_of)
  let ?x = "x\<lparr>remainingQuantity := n\<rparr>"
  have x': "side ?x = side x" "price ?x = price x" by simp_all
  have "not_nan (price ?x)" using assms(2,4) by (simp add: admissible_def)
  then obtain l r where "own_queue (side x) (orderBook e) = l @ r"
    "enqueue (x\<lparr>remainingQuantity := n\<rparr>) (own_queue (side x) (orderBook e)) = l @ x\<lparr>remainingQuantity := n\<rparr> # r"
    "\<forall>y\<in>set l. if side x = BUY then price x \<le> price y else price y \<le> price x"
    "\<forall>y\<in>set r. if side x = BUY then price y < price x else price x < price y"
    using enqueue_position [OF wf x'(1)] unfolding x' by metis
  then show ?thesis using own n n0 assms(4) by (intro exI [of _ l] exI [of _ r] exI [of _ n]) simp
qed

text \<open>
  The trade log only grows, its ids are 1, 2, 3, ... without gaps (as 64-bit counters), so
  they are pairwise distinct as long as fewer than 2^64 trades were made, and no trade is empty.
\<close>

lemma trade_log_numbered:
  assumes "reachable e" and "length (getRecentTrades e) < 2 ^ 64"
  shows "map tradeId (getRecentTrades e) = map (\<lambda>k. 1 + of_nat k) [0..<length (getRecentTrades e)] \<and>
    distinct (map tradeId (getRecentTrades e)) \<and>
    (\<forall>t\<in>set (getRecentTrades e). 0 < trade_quantity t)"
proof -
  let ?n = "length (recentTrades e)"
  have log: "map tradeId (recentTrades e) = map (\<lambda>k. 1 + of_nat k) [0..<?n]"
    "\<forall>t\<in>set (recentTrades e). 0 < trade_quantity t"
    using reachable_engine_inv [OF assms(1)] by (simp_all add: engine_inv_def log_wf_def Let_def)
  have "inj_on (\<lambda>k. 1 + of_nat k :: u64) {0..<?n}"
  proof (rule inj_onI)
    fix i j assume ij: "i \<in> {0..<?n}" "j \<in> {0..<?n}" "1 + of_nat i = (1 + of_nat j :: u64)"
    then have "unat (of_nat i :: u64) = unat (of_nat j :: u64)" by simp
    then show "i = j" using ij(1,2) assms(2) by (simp add: getRecentTrades_def unat_of_nat)
  qed
  then have "distinct (map (\<lambda>k. 1 + of_nat k :: u64) [0..<?n])" by (simp add: distinct_map)
  then show ?thesis using log by (simp add: getRecentTrades_def)
qed

lemma map_filter_append: "List.map_filter f (xs @ ys) = List.map_filter f xs @ List.map_filter f ys"
  by (simp add: List.map_filter_def)

lemma fill_events_trades: "List.map_filter event_trade (fill_events x fs tid ts) = trades_of x fs tid ts"
  by (induction x fs tid ts rule: fill_events.induct) (simp_all add: List.map_filter_simps)

lemma fill_events_initialised: "\<forall>ev\<in>set (fill_events x fs tid ts). event_initialised ev"
  by (induction x fs tid ts rule: fill_events.induct) auto

lemma fill_events_ids:
  "id_event t i \<in> set (fill_events x fs tid ts) \<Longrightarrow> i \<in> (orderId \<circ> fst) ` set fs"
  by (induction x fs tid ts rule: fill_events.induct) (auto simp: id_event_def trade_event_def)

text \<open>
  C29: the event stream of \<open>placeOrder\<close>. It starts with the acceptance and ends with the book
  change, every event carries the field its type promises (no consumer reads an uninitialised
  one), its trade events are exactly the trades that were logged, and it reports the incoming
  order as completely filled exactly when the trades used its quantity up.
\<close>

theorem placeOrder_event_stream:
  assumes "reachable e" and "admissible x e" and "placeOrder x e = (e', evs)"
  shows "hd evs = id_event ORDER_ACCEPTED (orderId x) \<and> last evs = book_event \<and>
    (\<forall>ev\<in>set evs. event_initialised ev) \<and>
    List.map_filter event_trade evs = new_trades e e' \<and>
    (id_event ORDER_COMPLETELY_FILLED (orderId x) \<in> set evs \<longleftrightarrow>
       volume (new_trades e e') = unat (remainingQuantity x))"
proof -
  obtain fs n where f: "fills (crosses x) (remainingQuantity x) (opp_queue (side x) (orderBook e))
      = (fs, n, opp_queue (side x) (orderBook e'))"
    and new: "new_trades e e' = trades_of x fs (nextTradeId e) (nextTimestamp e)"
    and evs: "evs = spec_events x fs n (nextTradeId e) (nextTimestamp e)"
    by (rule place_outcome [OF reachable_book_wf [OF assms(1)] assms(2,3)])
  have "set (map fst fs) \<subseteq> set (opp_queue (side x) (orderBook e))"
    unfolding fills_prefix [OF f] by (rule set_take_subset)
  then have ids: "(orderId \<circ> fst) ` set fs \<subseteq> open_ids (orderBook e)"
    by (fastforce simp: open_ids_def opp_queue_def split: if_splits)
  have "id_event ORDER_COMPLETELY_FILLED (orderId x) \<notin> set (fill_events x fs (nextTradeId e) (nextTimestamp e))"
    using fill_events_ids ids assms(2) by (fastforce simp: admissible_def)
  then have "id_event ORDER_COMPLETELY_FILLED (orderId x) \<in> set evs \<longleftrightarrow> n = 0"
    by (auto simp: evs spec_events_def final_events_def id_event_def book_event_def)
  moreover have "n = 0 \<longleftrightarrow> volume (new_trades e e') = unat (remainingQuantity x)"
    using fills_conserve_incoming [OF f] by (auto simp: new volume_trades_of unat_eq_zero)
  moreover have "List.map_filter event_trade evs = new_trades e e'"
    by (auto simp: evs spec_events_def final_events_def new List.map_filter_simps fill_events_trades
        map_filter_append)
  ultimately show ?thesis
    using fill_events_initialised by (auto simp: evs spec_events_def final_events_def)
qed

theorem placeOrder_event_stream_witness:
  "last (snd (placeOrder (limit_order 3 BUY d101 50) engine_two)) = book_event"
  using placeOrder_event_stream [OF engine_two_reachable, of "limit_order 3 BUY d101 50"
      "fst (placeOrder (limit_order 3 BUY d101 50) engine_two)"
      "snd (placeOrder (limit_order 3 BUY d101 50) engine_two)"]
  by (simp add: admissible_engine_two)

section \<open>Cancellation\<close>

text \<open>
  C28: \<open>cancelOrder\<close> in a reachable state never dereferences an invalid list iterator. It
  removes exactly the open order of that id, keeping the order of all others, and reports it; for
  an id that is not open it reports nothing and changes nothing. A second cancel of the same id
  always finds nothing.
\<close>

theorem cancelOrder_removes_exactly:
  assumes "reachable e"
  shows "\<exists>e' evs. engine_cancelOrder i e = Some (e', evs) \<and>
    engine_getOpenOrders e' = filter (\<lambda>x. orderId x \<noteq> i) (engine_getOpenOrders e) \<and>
    getRecentTrades e' = getRecentTrades e \<and>
    (if i \<in> orderId ` set (engine_getOpenOrders e)
     then evs = [id_event ORDER_CANCELLED i, book_event] else evs = [] \<and> e' = e) \<and>
    engine_cancelOrder i e' = Some (e', [])"
  using reachable_book_wf [OF assms]
proof (cases rule: cancel_cases [where i = i])
  case (hit b')
  have "i \<notin> open_ids b'" by (auto simp: open_ids_def hit(4,5))
  then have "engine_cancelOrder i (e\<lparr>orderBook := b'\<rparr>) = Some (e\<lparr>orderBook := b'\<rparr>, [])"
    using cancelOrder_miss [OF hit(3)] by (simp add: engine_cancelOrder_def)
  then show ?thesis
    using hit by (auto simp: engine_getOpenOrders_def getOpenOrders_queues getRecentTrades_def open_ids_def)
next
  case miss
  then have "filter (\<lambda>x. orderId x \<noteq> i) (engine_getOpenOrders e) = engine_getOpenOrders e"
    unfolding filter_id_conv engine_getOpenOrders_def getOpenOrders_queues
    by (metis UnE open_idsI(1,2) set_append)
  moreover have "i \<notin> orderId ` set (engine_getOpenOrders e)"
    using miss(1) by (simp add: engine_getOpenOrders_def getOpenOrders_queues open_ids_def)
  ultimately show ?thesis using miss(2) by simp
qed

theorem cancelOrder_removes_exactly_witness:
  "\<exists>e'. engine_cancelOrder 1 engine_two = Some (e', [id_event ORDER_CANCELLED 1, book_event]) \<and>
     engine_getOpenOrders e' = [limit_order 2 SELL d101 40]"
  using cancelOrder_removes_exactly [OF engine_two_reachable, of 1]
  by (auto simp: engine_getOpenOrders_def getOpenOrders_queues engine_two_book)

text \<open>
  C27: placing and cancelling is a round trip. A limit order that does not cross, once placed, can
  be cancelled by its id, and both queues and the trade log are then what they were before.
\<close>

theorem place_then_cancel_roundtrip:
  assumes "reachable e" and "admissible x e" and "orderType x = LIMIT" and "0 < remainingQuantity x"
    and "\<forall>r\<in>set (opp_queue (side x) (orderBook e)). \<not> crosses x r"
  shows "\<exists>e'. engine_cancelOrder (orderId x) (fst (placeOrder x e)) =
      Some (e', [id_event ORDER_CANCELLED (orderId x), book_event]) \<and>
    bid_queue (orderBook e') = bid_queue (orderBook e) \<and>
    ask_queue (orderBook e') = ask_queue (orderBook e) \<and>
    getRecentTrades e' = getRecentTrades e"
proof -
  note wf = reachable_book_wf [OF assms(1)]
  let ?opp = "opp_queue (side x) (orderBook e)" and ?own = "own_queue (side x) (orderBook e)"
  have "fills (crosses x) (remainingQuantity x) ?opp = ([], remainingQuantity x, ?opp)"
    using assms(5) by (cases ?opp) auto
  then have sp: "spec_place x ?opp ?own = ([], remainingQuantity x, ?opp, enqueue x ?own)"
    using assms(3,4) by (simp add: spec_place_def word_neq_0_conv)
  obtain b' where p: "fst (placeOrder x e) = log_trades [] b' e"
    and b': "book_wf b'" "opp_queue (side x) b' = ?opp" "own_queue (side x) b' = enqueue x ?own"
    by (rule place_spec [OF wf assms(2) sp]) auto
  have fresh: "\<forall>y\<in>set ?opp \<union> set ?own. orderId y \<noteq> orderId x"
    using assms(2) unfolding admissible_def by (metis UnE open_idsI(3,4))
  have "not_nan (price x)" using assms(2,3) by (simp add: admissible_def)
  then obtain l r where "?own = l @ r" "enqueue x ?own = l @ x # r"
    by (rule enqueue_position [OF wf refl])
  then have restored: "filter (\<lambda>y. orderId y \<noteq> orderId x) (enqueue x ?own) = ?own"
    "filter (\<lambda>y. orderId y \<noteq> orderId x) ?opp = ?opp"
    using fresh by (auto simp: filter_id_conv)
  have "x \<in> set (own_queue (side x) b')" by (simp add: b'(3))
  then have "orderId x \<in> open_ids b'" by (rule open_idsI)
  moreover have wf2: "book_wf (orderBook (fst (placeOrder x e)))" by (simp add: p b'(1))
  ultimately obtain b2 where b2: "engine_cancelOrder (orderId x) (fst (placeOrder x e)) =
      Some ((fst (placeOrder x e))\<lparr>orderBook := b2\<rparr>, [id_event ORDER_CANCELLED (orderId x), book_event])"
    "bid_queue b2 = filter (\<lambda>y. orderId y \<noteq> orderId x) (bid_queue b')"
    "ask_queue b2 = filter (\<lambda>y. orderId y \<noteq> orderId x) (ask_queue b')"
    by (cases rule: cancel_cases [OF wf2, of "orderId x"]) (auto simp: p)
  have "bid_queue b2 = bid_queue (orderBook e) \<and> ask_queue b2 = ask_queue (orderBook e)"
    using restored b'(2,3) b2(2,3) by (cases "side x") (simp_all add: queues_of_side)
  then show ?thesis using b2(1) by (auto simp: p getRecentTrades_def)
qed

theorem place_then_cancel_roundtrip_witness:
  "\<exists>e'. engine_cancelOrder 3 (fst (placeOrder (limit_order 3 BUY d99 50) engine_two)) =
      Some (e', [id_event ORDER_CANCELLED 3, book_event]) \<and>
    bid_queue (orderBook e') = [limit_order 1 BUY d100 100]"
  using place_then_cancel_roundtrip [OF engine_two_reachable, of "limit_order 3 BUY d99 50"]
  by (auto simp: admissible_engine_two engine_two_book queues_of_side crosses_def crosses_buy_def)

subsection \<open>Termination of the matching loop\<close>

text \<open>
  The loop with a bound on its iterations: \<open>None\<close> when \<open>n\<close> iterations are not enough. \<open>next_state\<close>
  is one evaluation of the loop condition and the body; \<open>None\<close> is the end of the loop.
\<close>

fun next_state :: "loop_state \<Rightarrow> loop_state option" where
  "next_state (x, e, evs) =
     (if 0 < remainingQuantity x
      then if side x = BUY then match_buy (x, e, evs) else match_sell (x, e, evs)
      else None)"

fun bounded_loop :: "nat \<Rightarrow> loop_state \<Rightarrow> loop_state option" where
  "bounded_loop n st =
     (case next_state st of
        None \<Rightarrow> Some st
      | Some st' \<Rightarrow> (case n of 0 \<Rightarrow> None | Suc k \<Rightarrow> bounded_loop k st'))"

declare bounded_loop.simps [simp del]

lemma next_state_decreases:
  assumes "next_state (x, e, evs) = Some st"
  shows "loop_measure st < loop_measure (x, e, evs)"
  using assms match_buy_decreases match_sell_decreases by (auto split: if_splits)

lemma match_loop_next:
  "match_loop st = (case next_state st of None \<Rightarrow> st | Some st' \<Rightarrow> match_loop st')"
  by (cases st) (simp add: match_loop.simps split: option.splits)

lemma bounded_loop_enough: "loop_measure st \<le> n \<Longrightarrow> bounded_loop n st = Some (match_loop st)"
proof (induction n arbitrary: st)
  case 0
  then have "next_state st = None"
    using next_state_decreases by (cases st; cases "next_state st") fastforce+
  then show ?case by (simp add: bounded_loop.simps match_loop_next [of st])
next
  case (Suc n)
  show ?case
  proof (cases "next_state st")
    case None
    then show ?thesis by (simp add: bounded_loop.simps match_loop_next [of st])
  next
    case (Some st')
    then have "loop_measure st' \<le> n"
      using Suc.prems next_state_decreases by (cases st) fastforce
    then show ?thesis
      using Suc.IH Some by (simp add: bounded_loop.simps match_loop_next [of st])
  qed
qed

text \<open>
  C8: the matching loop of \<open>placeOrder\<close> ends, for every order and every engine, whether reachable
  or not: after at most one iteration for each resting order of the other side and one more it
  has the result that \<open>match_loop\<close> stands for.
\<close>

theorem matching_loop_terminates:
  "bounded_loop (Suc (length (om_flat (if side x = BUY then asks (orderBook e) else bids (orderBook e))))) (x, e, evs) =
     Some (match_loop (x, e, evs))"
  by (rule bounded_loop_enough) (simp add: loop_measure_def resting_count_def)

end
