(* ===== verification/Adapter_Correct.thy ===== *)
theory Adapter_Correct
  imports Engine_Adapter Engine_Theorems
begin

text \<open>
  The adapter in its reachable states: order ids are fresh, so every call of the engine meets the
  engine's preconditions, and the result it derives from the event stream is the one the engine's
  trades and the order's remaining quantity determine.
\<close>

subsection \<open>Reachable adapter states\<close>

inductive adapter_reachable :: "adapter \<Rightarrow> bool" where
  adapter_init: "adapter_reachable initial_adapter"
| adapter_place: "adapter_reachable a \<Longrightarrow> (t = F_LIMIT \<longrightarrow> not_nan p) \<Longrightarrow>
    adapter_placeOrder now s t p q a = Some (a', r) \<Longrightarrow> adapter_reachable a'"
| adapter_cancel: "adapter_reachable a \<Longrightarrow> adapter_cancelOrder i a = Some (a', c) \<Longrightarrow>
    adapter_reachable a'"

definition adapter_inv :: "adapter \<Rightarrow> bool" where
  "adapter_inv a \<longleftrightarrow>
     reachable (adapter_engine a) \<and> 0 < nextOrderId a \<and> nextOrderId a \<le> INT64_MAX \<and>
     (\<forall>i\<in>open_ids (orderBook (adapter_engine a)). i < nextOrderId a)"

lemma make_order_fields [simp]:
  "orderId (make_order i s t p q now) = i" "side (make_order i s t p q now) = toEngineSide s"
  "orderType (make_order i s t p q now) = toEngineOrderType t" "price (make_order i s t p q now) = p"
  "quantity (make_order i s t p q now) = q" "remainingQuantity (make_order i s t p q now) = q"
  by (simp_all add: make_order_def)

lemma toEngine_simps [simp]:
  "toEngineSide s = BUY \<longleftrightarrow> s = F_BUY" "toEngineSide s = SELL \<longleftrightarrow> s = F_SELL"
  "toEngineOrderType t = LIMIT \<longleftrightarrow> t = F_LIMIT" "toEngineOrderType t = MARKET \<longleftrightarrow> t = F_MARKET"
  by (cases s; cases t; simp add: toEngineSide_def toEngineOrderType_def)+

lemma make_order_admissible:
  assumes "adapter_inv a" and "t = F_LIMIT \<longrightarrow> not_nan p"
  shows "admissible (make_order (nextOrderId a) s t p q now) (adapter_engine a)"
  using assms by (auto simp: admissible_def adapter_inv_def)

subsection \<open>The loop over the event stream\<close>

definition to_trade_msg :: "trade \<Rightarrow> trade_msg" where
  "to_trade_msg t =
     \<lparr>tm_tradeId = tradeId t, tm_price = trade_price t, tm_quantity = trade_quantity t\<rparr>"

definition resting_update :: "order \<times> u64 \<Rightarrow> order_update" where
  "resting_update f =
     (if snd f = remainingQuantity (fst f)
      then \<lparr>ou_orderId = orderId (fst f), ou_status = FILLED, ou_remaining = 0\<rparr>
      else \<lparr>ou_orderId = orderId (fst f), ou_status = PARTIALLY_FILLED, ou_remaining = - 1\<rparr>)"

lemma adapter_events_append:
  "adapter_events oid (xs @ ys) st =
     (case adapter_events oid xs st of None \<Rightarrow> None | Some st' \<Rightarrow> adapter_events oid ys st')"
  by (induction xs arbitrary: st) (auto split: option.splits)

text \<open>No subtraction of the quantities \<open>ks\<close> from \<open>n\<close>, one after the other, overflows.\<close>

fun subs_ok :: "i64 \<Rightarrow> u64 list \<Rightarrow> bool" where
  "subs_ok n [] \<longleftrightarrow> True"
| "subs_ok n (k # ks) \<longleftrightarrow> signed_sub n k \<noteq> None \<and> subs_ok (n - k) ks"

lemma signed_sub_Some: "signed_sub a b \<noteq> None \<Longrightarrow> signed_sub a b = Some (a - b)"
  by (simp add: signed_sub_def split: if_splits)

lemma nonneg_sub:
  assumes "0 \<le>s (n::i64)" and "unat k \<le> unat n"
  shows "signed_sub n k \<noteq> None" and "0 \<le>s n - k" and "unat (n - k) = unat n - unat k"
proof -
  have n: "n \<le> 0x7FFFFFFFFFFFFFFF" using assms(1) i64_nonneg_le by blast
  have le: "k \<le> n" "n - k \<le> n" using assms(2) by (simp_all add: word_le_nat_alt unat_sub)
  then show "unat (n - k) = unat n - unat k" by (simp add: unat_sub)
  have eq: "sint n = int (unat n)" "sint k = int (unat k)" "sint (n - k) = int (unat (n - k))"
    using i64_nonneg n order_trans [OF le(1) n] order_trans [OF le(2) n] by blast+
  have "int (unat n) < 2 ^ 63" using n by (simp add: word_le_def)
  then have "- (2 ^ 63) \<le> sint n - sint k \<and> sint n - sint k < 2 ^ 63"
    unfolding eq using assms(2) by linarith
  then show "signed_sub n k \<noteq> None" by (simp add: signed_sub_def)
  show "0 \<le>s n - k" unfolding word_sle_eq eq by simp
qed

lemma subs_ok_nonneg: "0 \<le>s n \<Longrightarrow> sum_list (map unat ks) \<le> unat n \<Longrightarrow> subs_ok n ks"
proof (induction ks arbitrary: n)
  case (Cons k ks)
  then show ?case using nonneg_sub [of n k] by simp
qed simp

lemma adapter_fill_events:
  assumes "orderId x = oid" and "\<forall>f\<in>set fs. orderId (fst f) \<noteq> oid"
  shows "adapter_events oid (fill_events x fs tid ts) (r, q) =
    (if subs_ok q (map snd fs)
     then Some (r\<lparr>er_trades := er_trades r @ map to_trade_msg (trades_of x fs tid ts),
                  er_orderUpdates := er_orderUpdates r @ map resting_update fs\<rparr>,
                q - sum_list (map snd fs))
     else None)"
  using assms
proof (induction x fs tid ts arbitrary: r q rule: fill_events.induct)
  case (2 x rest k fs tid ts)
  show ?case
  proof (cases "signed_sub q k = None")
    case True
    then show ?thesis using 2(2,3)
      by (simp add: adapter_event_def mk_trade_def)
  next
    case False
    then show ?thesis using 2 signed_sub_Some [OF False]
      by (simp add: adapter_event_def mk_trade_def to_trade_msg_def resting_update_def algebra_simps)
  qed
qed simp

lemma fills_word_sum: "fills ok n q = (fs, n', q') \<Longrightarrow> n = sum_list (map snd fs) + n'"
  by (induction rule: fills_induct) (simp_all add: algebra_simps)

lemma fills_no_trade:
  assumes "fills ok n q = (fs, n', q')" and "\<forall>r\<in>set q. 0 < remainingQuantity r"
  shows "traded fs = 0 \<longleftrightarrow> fs = []"
  using fills_quantities [OF assms] by (cases fs) (auto simp: unat_gt_0_word [symmetric])

text \<open>The result the adapter must return when \<open>n\<close> of the order's quantity is left.\<close>

definition spec_result ::
  "i64 \<Rightarrow> forder_type \<Rightarrow> i64 \<Rightarrow> trade list \<Rightarrow> order_update list \<Rightarrow> u64 \<Rightarrow> engine_result" where
  "spec_result oid t q ts ups n =
     (let status = (if n = 0 then FILLED else if n < q then PARTIALLY_FILLED else ACCEPTED);
          rejected = (t = F_MARKET \<and> status = ACCEPTED)
      in \<lparr>er_accepted = (\<not> rejected),
          er_rejectReason = (if rejected then ''No liquidity for market order'' else ''''),
          er_orderId = oid, er_remaining = n, er_status = status, er_trades = map to_trade_msg ts,
          er_orderUpdates = ups @ (if status = ACCEPTED then []
            else [\<lparr>ou_orderId = oid, ou_status = status, ou_remaining = n\<rparr>]),
          er_bookChanged = True\<rparr>)"

lemma adapter_place_exact:
  fixes a :: adapter and now :: u64 and s :: fside and t :: forder_type and p :: double and q :: i64
  assumes inv: "adapter_inv a" and room: "nextOrderId a \<noteq> INT64_MAX"
    and p: "t = F_LIMIT \<longrightarrow> not_nan p"
  defines "x \<equiv> make_order (nextOrderId a) s t p q now"
  obtains e' evs fs n where "placeOrder x (adapter_engine a) = (e', evs)"
    and "fills (crosses x) q (opp_queue (side x) (orderBook (adapter_engine a)))
           = (fs, n, opp_queue (side x) (orderBook e'))"
    and "own_queue (side x) (orderBook e') = (if n \<noteq> 0 \<and> t = F_LIMIT
      then enqueue (x\<lparr>remainingQuantity := n\<rparr>) (own_queue (side x) (orderBook (adapter_engine a)))
      else own_queue (side x) (orderBook (adapter_engine a)))"
    and "adapter_placeOrder now s t p q a =
      (if subs_ok q (map snd fs)
       then Some (a\<lparr>adapter_engine := e', nextOrderId := nextOrderId a + 1\<rparr>,
            spec_result (nextOrderId a) t q (new_trades (adapter_engine a) e') (map resting_update fs) n)
       else None)"
    and "volume (new_trades (adapter_engine a) e') + unat n = unat q"
proof -
  have wf: "book_wf (orderBook (adapter_engine a))"
    using inv reachable_book_wf by (simp add: adapter_inv_def)
  have ok: "admissible x (adapter_engine a)" unfolding x_def by (rule make_order_admissible [OF inv p])
  obtain e' evs where pl: "placeOrder x (adapter_engine a) = (e', evs)" by fastforce
  obtain fs n where f: "fills (crosses x) (remainingQuantity x) (opp_queue (side x) (orderBook (adapter_engine a)))
      = (fs, n, opp_queue (side x) (orderBook e'))"
    and own: "own_queue (side x) (orderBook e') = (if n \<noteq> 0 \<and> orderType x = LIMIT
      then enqueue (x\<lparr>remainingQuantity := n\<rparr>) (own_queue (side x) (orderBook (adapter_engine a)))
      else own_queue (side x) (orderBook (adapter_engine a)))"
    and new: "new_trades (adapter_engine a) e' =
      trades_of x fs (nextTradeId (adapter_engine a)) (nextTimestamp (adapter_engine a))"
    and evs: "evs = spec_events x fs n (nextTradeId (adapter_engine a)) (nextTimestamp (adapter_engine a))"
    by (rule place_outcome [OF wf ok pl])
  have x: "orderId x = nextOrderId a" "quantity x = q" "remainingQuantity x = q"
    "orderType x = LIMIT \<longleftrightarrow> t = F_LIMIT"
    by (simp_all add: x_def)
  have "set (map fst fs) \<subseteq> set (opp_queue (side x) (orderBook (adapter_engine a)))"
    unfolding fills_prefix [OF f] by (rule set_take_subset)
  then have ids: "\<forall>f\<in>set fs. orderId (fst f) \<noteq> nextOrderId a"
    using ok open_idsI(3) unfolding admissible_def x(1) by fastforce
  have n: "q - sum_list (map snd fs) = n" using fills_word_sum [OF f] by (simp add: x)
  have vol: "volume (new_trades (adapter_engine a) e') + unat n = unat q"
    using fills_conserve_incoming [OF f] by (simp add: new volume_trades_of x)
  have empty: "fs = []" "n = q" if "n \<noteq> 0" "\<not> n < q"
  proof -
    have "unat q \<le> unat n" using that(2) by (simp add: word_less_nat_alt)
    then have "traded fs = 0" "unat n = unat q" using vol by (simp_all add: new volume_trades_of)
    then show "fs = []" "n = q"
      using fills_no_trade [OF f] own_opp_orders(1) [OF wf] by (auto simp: word_unat_eq_iff)
  qed
  have "adapter_placeOrder now s t p q a =
      (if subs_ok q (map snd fs)
       then Some (a\<lparr>adapter_engine := e', nextOrderId := nextOrderId a + 1\<rparr>,
            spec_result (nextOrderId a) t q (new_trades (adapter_engine a) e') (map resting_update fs) n)
       else None)"
    using room pl empty n
    unfolding adapter_placeOrder_def x_def [symmetric] Let_def evs spec_events_def new
    by (simp add: adapter_events_append adapter_fill_events [OF x(1) ids] adapter_event_def
        final_events_def x spec_result_def new_result_def Let_def)
  with pl f own vol show thesis by (intro that [of e' evs fs n]) (simp_all add: x)
qed

lemma adapter_place_None: "nextOrderId a = INT64_MAX \<Longrightarrow> adapter_placeOrder now s t p q a = None"
  by (simp add: adapter_placeOrder_def)

lemma adapter_place_outcome:
  fixes a :: adapter and now :: u64 and s :: fside and t :: forder_type and p :: double and q :: i64
  assumes inv: "adapter_inv a" and some: "adapter_placeOrder now s t p q a \<noteq> None"
    and p: "t = F_LIMIT \<longrightarrow> not_nan p"
  defines "x \<equiv> make_order (nextOrderId a) s t p q now"
  obtains e' evs fs n where "placeOrder x (adapter_engine a) = (e', evs)"
    and "fills (crosses x) q (opp_queue (side x) (orderBook (adapter_engine a)))
           = (fs, n, opp_queue (side x) (orderBook e'))"
    and "own_queue (side x) (orderBook e') = (if n \<noteq> 0 \<and> t = F_LIMIT
      then enqueue (x\<lparr>remainingQuantity := n\<rparr>) (own_queue (side x) (orderBook (adapter_engine a)))
      else own_queue (side x) (orderBook (adapter_engine a)))"
    and "adapter_placeOrder now s t p q a =
      Some (a\<lparr>adapter_engine := e', nextOrderId := nextOrderId a + 1\<rparr>,
            spec_result (nextOrderId a) t q (new_trades (adapter_engine a) e') (map resting_update fs) n)"
    and "volume (new_trades (adapter_engine a) e') + unat n = unat q"
proof -
  have room: "nextOrderId a \<noteq> INT64_MAX" using some by (metis adapter_place_None)
  obtain e' evs fs n where o: "placeOrder x (adapter_engine a) = (e', evs)"
    "fills (crosses x) q (opp_queue (side x) (orderBook (adapter_engine a)))
       = (fs, n, opp_queue (side x) (orderBook e'))"
    "own_queue (side x) (orderBook e') = (if n \<noteq> 0 \<and> t = F_LIMIT
      then enqueue (x\<lparr>remainingQuantity := n\<rparr>) (own_queue (side x) (orderBook (adapter_engine a)))
      else own_queue (side x) (orderBook (adapter_engine a)))"
    and r: "adapter_placeOrder now s t p q a =
      (if subs_ok q (map snd fs)
       then Some (a\<lparr>adapter_engine := e', nextOrderId := nextOrderId a + 1\<rparr>,
            spec_result (nextOrderId a) t q (new_trades (adapter_engine a) e') (map resting_update fs) n)
       else None)"
    and v: "volume (new_trades (adapter_engine a) e') + unat n = unat q"
    unfolding x_def by (rule adapter_place_exact [OF inv room p])
  have "subs_ok q (map snd fs)" using some r by (simp split: if_splits)
  then show thesis using that [OF o _ v] r by simp
qed

text \<open>A quantity that is not negative is never overdrawn: the trades take at most the quantity.\<close>

lemma adapter_place_defined:
  assumes inv: "adapter_inv a" and room: "nextOrderId a \<noteq> INT64_MAX"
    and p: "t = F_LIMIT \<longrightarrow> not_nan p" and q: "0 \<le>s q"
  shows "adapter_placeOrder now s t p q a \<noteq> None"
proof -
  let ?x = "make_order (nextOrderId a) s t p q now"
  obtain e' evs fs n where
    f: "fills (crosses ?x) q (opp_queue (side ?x) (orderBook (adapter_engine a)))
           = (fs, n, opp_queue (side ?x) (orderBook e'))"
    and r: "adapter_placeOrder now s t p q a =
      (if subs_ok q (map snd fs)
       then Some (a\<lparr>adapter_engine := e', nextOrderId := nextOrderId a + 1\<rparr>,
            spec_result (nextOrderId a) t q (new_trades (adapter_engine a) e') (map resting_update fs) n)
       else None)"
    by (rule adapter_place_exact [OF inv room p])
  have "sum_list (map unat (map snd fs)) \<le> unat q"
    using fills_conserve_incoming [OF f] by (simp add: traded_def o_def)
  then show ?thesis using r subs_ok_nonneg [OF q] by simp
qed

subsection \<open>The invariant of the adapter\<close>

lemma adapter_inv_initial: "adapter_inv initial_adapter"
  by (simp add: adapter_inv_def initial_adapter_def reach_init INT64_MAX_def)
     (simp add: initial_engine_def open_ids_def)

lemma place_open_ids:
  assumes "fills ok n0 (opp_queue s b) = (fs, n, opp_queue s b')"
    and "own_queue s b' = own_queue s b \<or> own_queue s b' = enqueue y (own_queue s b)"
  shows "open_ids b' \<subseteq> insert (orderId y) (open_ids b)"
proof -
  have "orderId ` set (opp_queue s b') \<subseteq> orderId ` set (opp_queue s b)"
    by (rule fills_rest_set [OF _ assms(1)]) simp
  then show ?thesis using assms(2) unfolding open_ids_sides [of _ s] by auto
qed

lemma adapter_inv_place:
  assumes inv: "adapter_inv a" and p: "t = F_LIMIT \<longrightarrow> not_nan p"
    and pl: "adapter_placeOrder now s t p q a = Some (a', r)"
  shows "adapter_inv a'"
proof -
  let ?x = "make_order (nextOrderId a) s t p q now"
  have some: "adapter_placeOrder now s t p q a \<noteq> None" using pl by simp
  have room: "nextOrderId a \<noteq> INT64_MAX" using some by (metis adapter_place_None)
  obtain e' evs fs n where e': "placeOrder ?x (adapter_engine a) = (e', evs)"
    and f: "fills (crosses ?x) q (opp_queue (side ?x) (orderBook (adapter_engine a)))
           = (fs, n, opp_queue (side ?x) (orderBook e'))"
    and own: "own_queue (side ?x) (orderBook e') = (if n \<noteq> 0 \<and> t = F_LIMIT
      then enqueue (?x\<lparr>remainingQuantity := n\<rparr>) (own_queue (side ?x) (orderBook (adapter_engine a)))
      else own_queue (side ?x) (orderBook (adapter_engine a)))"
    and a': "adapter_placeOrder now s t p q a =
      Some (a\<lparr>adapter_engine := e', nextOrderId := nextOrderId a + 1\<rparr>,
            spec_result (nextOrderId a) t q (new_trades (adapter_engine a) e') (map resting_update fs) n)"
    by (rule adapter_place_outcome [OF inv some p])
  have lt: "nextOrderId a < INT64_MAX" using inv room by (simp add: adapter_inv_def order.strict_iff_order)
  have "reachable e'"
    using reach_place [OF _ make_order_admissible [OF inv p, of s q now]] inv
    by (simp add: adapter_inv_def e')
  moreover have "open_ids (orderBook e') \<subseteq> insert (nextOrderId a) (open_ids (orderBook (adapter_engine a)))"
    using place_open_ids [OF f, of "?x\<lparr>remainingQuantity := n\<rparr>"] own by (auto split: if_splits)
  moreover have "nextOrderId a < nextOrderId a + 1" "nextOrderId a + 1 \<le> INT64_MAX"
    using unat_plus1 [OF lt] lt by (simp_all add: word_less_nat_alt word_le_nat_alt)
  ultimately show ?thesis
    using inv a' pl by (fastforce simp: adapter_inv_def)
qed

lemma adapter_cancel_outcome:
  assumes "adapter_inv a"
  obtains e' where "adapter_cancelOrder i a =
      Some (a\<lparr>adapter_engine := e'\<rparr>,
            \<lparr>cr_success = (i \<in> open_ids (orderBook (adapter_engine a))),
             cr_reason = (if i \<in> open_ids (orderBook (adapter_engine a)) then '''' else ''Order not found''),
             cr_orderId = i\<rparr>)"
    and "reachable e'"
    and "engine_getOpenOrders e' = filter (\<lambda>x. orderId x \<noteq> i) (engine_getOpenOrders (adapter_engine a))"
    and "recentTrades e' = recentTrades (adapter_engine a)"
proof -
  have re: "reachable (adapter_engine a)" using assms by (simp add: adapter_inv_def)
  from reachable_book_wf [OF re] show thesis
  proof (cases rule: cancel_cases [where i = i])
    case (hit b')
    then show thesis
      using reach_cancel [OF re hit(2)]
      by (intro that [of "(adapter_engine a)\<lparr>orderBook := b'\<rparr>"])
        (auto simp: adapter_cancelOrder_def engine_getOpenOrders_def getOpenOrders_queues)
  next
    case miss
    have "filter (\<lambda>x. orderId x \<noteq> i) (engine_getOpenOrders (adapter_engine a)) =
        engine_getOpenOrders (adapter_engine a)"
      using miss(1) unfolding filter_id_conv engine_getOpenOrders_def getOpenOrders_queues
      by (metis UnE open_idsI(1,2) set_append)
    then show thesis
      using miss re by (intro that [of "adapter_engine a"]) (auto simp: adapter_cancelOrder_def)
  qed
qed

lemma open_ids_getOpenOrders: "open_ids (orderBook e) = orderId ` set (engine_getOpenOrders e)"
  by (simp add: engine_getOpenOrders_def getOpenOrders_queues open_ids_def)

lemma adapter_inv_cancel:
  assumes inv: "adapter_inv a" and c: "adapter_cancelOrder i a = Some (a', r)"
  shows "adapter_inv a'"
proof -
  obtain e' where a': "a' = a\<lparr>adapter_engine := e'\<rparr>" and re: "reachable e'"
    and o': "engine_getOpenOrders e' = filter (\<lambda>x. orderId x \<noteq> i) (engine_getOpenOrders (adapter_engine a))"
    using adapter_cancel_outcome [OF inv, of i] c by (metis option.inject prod.inject)
  then show ?thesis using inv by (auto simp: adapter_inv_def open_ids_getOpenOrders)
qed

lemma adapter_reachable_inv: "adapter_reachable a \<Longrightarrow> adapter_inv a"
  by (induction rule: adapter_reachable.induct)
     (auto intro: adapter_inv_initial adapter_inv_place adapter_inv_cancel)


subsection \<open>The trade log\<close>

lemma adapter_place_trades:
  assumes inv: "adapter_inv a" and p: "t = F_LIMIT \<longrightarrow> not_nan p"
    and pl: "adapter_placeOrder now s t p q a = Some (a', r)"
  shows "recentTrades (adapter_engine a') =
      recentTrades (adapter_engine a) @ new_trades (adapter_engine a) (adapter_engine a')"
    and "er_trades r = map to_trade_msg (new_trades (adapter_engine a) (adapter_engine a'))"
    and "er_orderId r = nextOrderId a" and "er_bookChanged r"
proof -
  have wf: "book_wf (orderBook (adapter_engine a))"
    using inv reachable_book_wf by (simp add: adapter_inv_def)
  have some: "adapter_placeOrder now s t p q a \<noteq> None" using pl by simp
  have room: "nextOrderId a \<noteq> INT64_MAX" using some by (metis adapter_place_None)
  obtain e' evs fs n where e': "placeOrder (make_order (nextOrderId a) s t p q now) (adapter_engine a) = (e', evs)"
    and r: "adapter_placeOrder now s t p q a =
      Some (a\<lparr>adapter_engine := e', nextOrderId := nextOrderId a + 1\<rparr>,
            spec_result (nextOrderId a) t q (new_trades (adapter_engine a) e') (map resting_update fs) n)"
    by (rule adapter_place_outcome [OF inv some p])
  then have eq: "adapter_engine a' = e'"
      "r = spec_result (nextOrderId a) t q (new_trades (adapter_engine a) e') (map resting_update fs) n"
    using pl by simp_all
  then show "er_trades r = map to_trade_msg (new_trades (adapter_engine a) (adapter_engine a'))"
    "er_orderId r = nextOrderId a" "er_bookChanged r"
    by (simp_all add: spec_result_def Let_def)
  show "recentTrades (adapter_engine a') =
      recentTrades (adapter_engine a) @ new_trades (adapter_engine a) (adapter_engine a')"
    unfolding eq by (rule place_outcome [OF wf make_order_admissible [OF inv p] e'])
qed

end
