(* ===== verification/Adapter_Theorems.thy ===== *)
theory Adapter_Theorems
  imports Adapter_Correct
begin

text \<open>
  The properties of \<open>EngineAdapter\<close>: no undefined behaviour, exact results, fresh order ids,
  rejections without effect, and the depth snapshot that is sent to the clients.
\<close>

abbreviation open_orders :: "adapter \<Rightarrow> order list" where
  "open_orders a \<equiv> engine_getOpenOrders (adapter_engine a)"

text \<open>An adapter after one accepted limit order, BUY 100 at 100; and the result of placing it.\<close>

definition sample_place :: "fside \<Rightarrow> forder_type \<Rightarrow> double \<Rightarrow> i64 \<Rightarrow> adapter \<Rightarrow> adapter" where
  "sample_place s t p q a = fst (the (adapter_placeOrder 0 s t p q a))"

definition adapter_one :: adapter where
  "adapter_one = sample_place F_BUY F_LIMIT d100 100 initial_adapter"

lemma sample_place_reachable:
  assumes "adapter_reachable a" and "t = F_LIMIT \<longrightarrow> not_nan p" and "nextOrderId a \<noteq> INT64_MAX"
    and "0 \<le>s q"
  shows "adapter_reachable (sample_place s t p q a)"
proof -
  obtain a' r where "adapter_placeOrder 0 s t p q a = Some (a', r)"
    using adapter_place_defined [OF adapter_reachable_inv [OF assms(1)] assms(3,2,4)] by fastforce
  then show ?thesis
    using adapter_place [OF assms(1,2)] by (simp add: sample_place_def)
qed

lemma adapter_one_reachable: "adapter_reachable adapter_one"
  unfolding adapter_one_def
  by (rule sample_place_reachable [OF adapter_init])
     (simp_all add: initial_adapter_def INT64_MAX_def word_sle_eq)

lemma adapter_one_state: "adapter_one = \<lparr>adapter_engine = fst (placeOrder (make_order 1 F_BUY F_LIMIT d100 100 0) initial_engine), nextOrderId = 2\<rparr>"
  by (simp add: adapter_one_def sample_place_def adapter_placeOrder_def adapter_event_def
      initial_adapter_def INT64_MAX_def new_result_def sample_eval)

text \<open>
  C16: no undefined behaviour. In a reachable state of the adapter, placing an order with a quantity
  that is not negative (and, for a limit order, a price that is a number) is defined exactly unless
  the signed counter of order ids is at its maximum: the trades never take more than the quantity,
  so the signed subtraction from \<open>remaining\<close> does not overflow, and no uninitialised event field is
  read. Cancelling any id is always defined: no invalid iterator is used. Without the validation of
  the quantity the subtraction can overflow (lemma \<open>negative_quantity_overflows\<close>).
\<close>

theorem adapter_no_undefined_behaviour:
  assumes "adapter_reachable a" and "t = F_LIMIT \<longrightarrow> not_nan p" and "0 \<le>s q"
  shows "(adapter_placeOrder now s t p q a = None \<longleftrightarrow> nextOrderId a = INT64_MAX) \<and>
    adapter_cancelOrder i a \<noteq> None"
proof -
  note inv = adapter_reachable_inv [OF assms(1)]
  have "adapter_cancelOrder i a \<noteq> None"
    using adapter_cancel_outcome [OF inv, of i] by (metis option.distinct(1))
  then show ?thesis
    using adapter_place_defined [OF inv _ assms(2,3), of now s] adapter_place_None by blast
qed

theorem adapter_no_undefined_behaviour_witness:
  "adapter_placeOrder 7 F_SELL F_LIMIT d100 60 adapter_one \<noteq> None"
  using adapter_no_undefined_behaviour [OF adapter_one_reachable, of F_LIMIT d100 60 7 F_SELL]
  by (simp add: adapter_one_state INT64_MAX_def word_sle_eq)

text \<open>The least \<open>std::int64_t\<close> as a quantity, against one resting order.\<close>

lemma negative_quantity_overflows:
  "adapter_placeOrder 7 F_SELL F_LIMIT d100 0x8000000000000000 adapter_one = None"
  by (simp add: adapter_one_state server_simps sample_eval)

text \<open>
  C9: the result of \<open>placeOrder\<close> is exact. It names the fresh order id; its trades are the
  trades the engine logged, in order; the remaining quantity is the order's quantity less what was
  traded; the status says whether nothing, a part or all was traded; the book is reported changed;
  and the order is accepted unless it is a market order that found nothing to trade with.
\<close>

theorem adapter_placeOrder_result:
  assumes "adapter_reachable a" and "t = F_LIMIT \<longrightarrow> not_nan p" and "0 <s q"
    and "adapter_placeOrder now s t p q a = Some (a', r)"
  defines "ts \<equiv> new_trades (adapter_engine a) (adapter_engine a')"
  shows "er_orderId r = nextOrderId a \<and> er_trades r = map to_trade_msg ts \<and>
    unat (er_remaining r) = unat q - volume ts \<and> volume ts \<le> unat q \<and>
    er_status r = (if volume ts = 0 then ACCEPTED
      else if volume ts < unat q then PARTIALLY_FILLED else FILLED) \<and>
    er_bookChanged r \<and> (er_accepted r \<longleftrightarrow> \<not> (t = F_MARKET \<and> volume ts = 0))"
proof -
  note inv = adapter_reachable_inv [OF assms(1)]
  have some: "adapter_placeOrder now s t p q a \<noteq> None" using assms(4) by simp
  obtain e' fs n where r: "adapter_placeOrder now s t p q a =
      Some (a\<lparr>adapter_engine := e', nextOrderId := nextOrderId a + 1\<rparr>,
            spec_result (nextOrderId a) t q (new_trades (adapter_engine a) e') (map resting_update fs) n)"
    and vol: "volume (new_trades (adapter_engine a) e') + unat n = unat q"
    by (rule adapter_place_outcome [OF inv some assms(2)])
  have q: "0 < unat q" using assms(3) by (auto simp: word_sless_alt unat_gt_0)
  have ts: "ts = new_trades (adapter_engine a) e'" using r assms(4) by (auto simp: ts_def)
  have n: "n = 0 \<longleftrightarrow> unat n = 0" "n < q \<longleftrightarrow> unat n < unat q"
    by (simp_all add: word_less_nat_alt unat_eq_zero)
  have "r = spec_result (nextOrderId a) t q ts (map resting_update fs) n" using r assms(4) ts by simp
  then show ?thesis
    using vol q unfolding ts [symmetric] by (auto simp: spec_result_def Let_def n)
qed

theorem adapter_placeOrder_result_witness:
  "er_status (snd (the (adapter_placeOrder 7 F_SELL F_LIMIT d100 60 adapter_one))) = FILLED"
proof -
  let ?p = "adapter_placeOrder 7 F_SELL F_LIMIT d100 60 adapter_one"
  have s: "?p = Some (fst (the ?p), snd (the ?p))"
    by (simp add: adapter_one_state server_simps sample_eval)
  show ?thesis
    using adapter_placeOrder_result [OF adapter_one_reachable _ _ s]
    by (simp add: adapter_one_state server_simps sample_eval new_trades_def volume_def word_sless_alt)
qed

text \<open>
  C36: order ids are never reused. The id a placed order gets is that of no open order and larger
  than every id still open, and the next order gets the next id; ids stay positive as signed
  64-bit numbers.
\<close>

theorem adapter_order_ids_fresh:
  assumes "adapter_reachable a" and "t = F_LIMIT \<longrightarrow> not_nan p"
    and "adapter_placeOrder now s t p q a = Some (a', r)"
  shows "nextOrderId a' = nextOrderId a + 1 \<and> 0 <s er_orderId r \<and>
    (\<forall>x\<in>set (open_orders a). orderId x < er_orderId r) \<and>
    (\<forall>x\<in>set (open_orders a'). orderId x < nextOrderId a')"
proof -
  note inv = adapter_reachable_inv [OF assms(1)]
  note inv' = adapter_inv_place [OF inv assms(2,3)]
  have some: "adapter_placeOrder now s t p q a \<noteq> None" using assms(3) by simp
  obtain e' fs n where r: "adapter_placeOrder now s t p q a =
      Some (a\<lparr>adapter_engine := e', nextOrderId := nextOrderId a + 1\<rparr>,
            spec_result (nextOrderId a) t q (new_trades (adapter_engine a) e') (map resting_update fs) n)"
    by (rule adapter_place_outcome [OF inv some assms(2)])
  have id: "er_orderId r = nextOrderId a" "nextOrderId a' = nextOrderId a + 1"
    using r assms(3) by (auto simp: spec_result_def Let_def)
  have "0 <s nextOrderId a" using inv by (auto simp: adapter_inv_def INT64_MAX_def i64_pos)
  then show ?thesis
    using inv inv' id by (auto simp: adapter_inv_def open_ids_getOpenOrders)
qed

theorem adapter_order_ids_fresh_witness:
  "er_orderId (snd (the (adapter_placeOrder 7 F_SELL F_LIMIT d101 60 adapter_one))) > 1"
proof -
  let ?p = "adapter_placeOrder 7 F_SELL F_LIMIT d101 60 adapter_one"
  have s: "?p = Some (fst (the ?p), snd (the ?p))"
    by (simp add: adapter_one_state server_simps sample_eval)
  have "make_order 1 F_BUY F_LIMIT d100 100 0 \<in> set (open_orders adapter_one)"
    by (simp add: adapter_one_state server_simps sample_eval)
  then show ?thesis
    using adapter_order_ids_fresh [OF adapter_one_reachable _ s] by fastforce
qed

lemma rejected_effect:
  assumes "adapter_reachable a" and "t = F_LIMIT \<longrightarrow> not_nan p" and "0 <s q"
    and "adapter_placeOrder now s t p q a = Some (a', r)" and "\<not> er_accepted r"
  shows "open_orders a' = open_orders a \<and>
    getRecentTrades (adapter_engine a') = getRecentTrades (adapter_engine a) \<and>
    er_rejectReason r = ''No liquidity for market order'' \<and> er_trades r = []"
proof -
  note inv = adapter_reachable_inv [OF assms(1)]
  have wf: "book_wf (orderBook (adapter_engine a))"
    using inv reachable_book_wf by (simp add: adapter_inv_def)
  let ?x = "make_order (nextOrderId a) s t p q now" and ?b = "orderBook (adapter_engine a)"
  have some: "adapter_placeOrder now s t p q a \<noteq> None" using assms(4) by simp
  obtain e' evs fs n where e': "placeOrder ?x (adapter_engine a) = (e', evs)"
    and f: "fills (crosses ?x) q (opp_queue (side ?x) ?b) = (fs, n, opp_queue (side ?x) (orderBook e'))"
    and own: "own_queue (side ?x) (orderBook e') = (if n \<noteq> 0 \<and> t = F_LIMIT
      then enqueue (?x\<lparr>remainingQuantity := n\<rparr>) (own_queue (side ?x) ?b) else own_queue (side ?x) ?b)"
    and r: "adapter_placeOrder now s t p q a =
      Some (a\<lparr>adapter_engine := e', nextOrderId := nextOrderId a + 1\<rparr>,
            spec_result (nextOrderId a) t q (new_trades (adapter_engine a) e') (map resting_update fs) n)"
    and vol: "volume (new_trades (adapter_engine a) e') + unat n = unat q"
    by (rule adapter_place_outcome [OF inv some assms(2)])
  have r': "r = spec_result (nextOrderId a) t q (new_trades (adapter_engine a) e') (map resting_update fs) n"
    and a': "adapter_engine a' = e'" using r assms(4) by auto
  have rej: "t = F_MARKET" "n \<noteq> 0" "\<not> n < q"
    using assms(5) unfolding r' by (auto simp: spec_result_def Let_def split: if_splits)
  then have "unat q \<le> unat n" by (simp add: word_less_nat_alt)
  then have "traded fs = 0" using fills_conserve_incoming [OF f] by simp
  then have fs: "fs = []" using fills_no_trade [OF f] own_opp_orders(1) [OF wf] by blast
  then have opp: "opp_queue (side ?x) (orderBook e') = opp_queue (side ?x) ?b"
    using fills_rest [OF f] by simp
  have "new_trades (adapter_engine a) e' = []" "recentTrades e' = recentTrades (adapter_engine a) @ new_trades (adapter_engine a) e'"
    using place_outcome [OF wf make_order_admissible [OF inv assms(2)] e'] f fs
    by (metis fst_conv make_order_fields(6) trades_of.simps(1))+
  then show ?thesis
    using opp own rej r' a'
    by (cases s) (auto simp: engine_getOpenOrders_def getOpenOrders_queues queues_of_side
        getRecentTrades_def spec_result_def Let_def toEngineSide_def)
qed

lemma rejected_trade_log:
  assumes "adapter_reachable a" and "t = F_LIMIT \<longrightarrow> not_nan p" and "0 <s q"
    and "adapter_placeOrder now s t p q a = Some (a', r)" and "\<not> er_accepted r"
  shows "getRecentTrades (adapter_engine a') = getRecentTrades (adapter_engine a)"
  using rejected_effect [OF assms] by blast


subsection \<open>What is reported about resting orders\<close>

lemma resting_update_simps [simp]:
  "ou_orderId (resting_update f) = orderId (fst f)"
  "ou_status (resting_update f) = (if snd f = remainingQuantity (fst f) then FILLED else PARTIALLY_FILLED)"
  "ou_remaining (resting_update f) = (if snd f = remainingQuantity (fst f) then 0 else - 1)"
  by (simp_all add: resting_update_def)

lemma fills_completed:
  assumes "fills ok n q = (fs, n', q')" and "distinct (map orderId q)"
  shows "(\<exists>f\<in>set fs. orderId (fst f) = i \<and> snd f = remainingQuantity (fst f)) \<longleftrightarrow>
    i \<in> orderId ` set q \<and> i \<notin> orderId ` set q'"
  using assms
proof (induction rule: fills_induct)
  case (Fill n r rs fs n' q')
  have "orderId ` set q' \<subseteq> orderId ` set rs" by (rule fills_rest_set [OF _ Fill(4)]) simp
  then show ?case using Fill by auto
qed auto

lemma fills_reduced:
  assumes "fills ok n q = (fs, n', q')" and "distinct (map orderId q)"
  shows "(\<exists>f\<in>set fs. orderId (fst f) = i \<and> snd f \<noteq> remainingQuantity (fst f)) \<longleftrightarrow>
    (\<exists>x\<in>set q. \<exists>y\<in>set q'. orderId x = i \<and> orderId y = i \<and> remainingQuantity y < remainingQuantity x)"
  using assms
proof (induction rule: fills_induct)
  case (Stop n q)
  then have "x = y" if "x \<in> set q" "y \<in> set q" "orderId x = orderId y" for x y
    using that by (simp add: distinct_key_eq)
  then show ?case by auto
next
  case (Fill n r rs fs n' q')
  have "orderId ` set q' \<subseteq> orderId ` set rs" by (rule fills_rest_set [OF _ Fill(4)]) simp
  moreover have "orderId r \<notin> orderId ` set rs" using Fill(6) by simp
  ultimately have "orderId y \<noteq> orderId r" if "y \<in> set q'" for y
    using imageI [OF that, of orderId] by (metis subsetD)
  then show ?case using Fill(5,6) by auto
next
  case (Partial n r rs)
  then have "distinct (map orderId rs)" "orderId r \<notin> orderId ` set rs" by simp_all
  then have eq: "x = y" if "x \<in> set rs" "y \<in> set rs" "orderId x = orderId y" for x y
    using distinct_key_eq [of orderId rs y x] that by blast
  have "remainingQuantity r - n < remainingQuantity r"
    using Partial(1,3) by (simp add: word_less_nat_alt unat_sub less_imp_le unat_gt_0 [symmetric])
  then show ?case using Partial eq by auto
qed

text \<open>The order ids of the two queues together are distinct.\<close>

lemma sides_distinct:
  assumes "book_wf b"
  shows "distinct (map orderId (opp_queue s b))" and "distinct (map orderId (own_queue s b))"
    and "orderId ` set (opp_queue s b) \<inter> orderId ` set (own_queue s b) = {}"
  using book_wf_distinct_ids [OF assms]
  by (cases s; auto simp: getOpenOrders_queues queues_of_side)+


text \<open>Orders other than the incoming one change only on the opposite side.\<close>

lemma place_other_orders:
  assumes wf: "book_wf b" and f: "fills ok n0 (opp_queue s b) = (fs, n, opp_queue s b')"
    and own: "own_queue s b' = own_queue s b \<or> own_queue s b' = enqueue z (own_queue s b)"
    and i: "i \<noteq> orderId z"
  shows "(\<exists>f\<in>set fs. orderId (fst f) = i \<and> snd f = remainingQuantity (fst f)) \<longleftrightarrow>
      i \<in> orderId ` set (getOpenOrders b) \<and> i \<notin> orderId ` set (getOpenOrders b')"
    and "(\<exists>f\<in>set fs. orderId (fst f) = i \<and> snd f \<noteq> remainingQuantity (fst f)) \<longleftrightarrow>
      (\<exists>x\<in>set (getOpenOrders b). \<exists>y\<in>set (getOpenOrders b').
         orderId x = i \<and> orderId y = i \<and> remainingQuantity y < remainingQuantity x)"
proof -
  note dist = sides_distinct [OF wf, of s]
  note opens = getOpenOrders_sides(1) [of _ s]
  have ids: "orderId ` set (opp_queue s b') \<subseteq> orderId ` set (opp_queue s b)"
    by (rule fills_rest_set [OF _ f]) simp
  have mine: "x \<in> set (own_queue s b') \<longleftrightarrow> x \<in> set (own_queue s b)" if "orderId x = i" for x
    using own that i by auto
  then have own_ids: "i \<in> orderId ` set (own_queue s b') \<longleftrightarrow> i \<in> orderId ` set (own_queue s b)"
    by blast
  have "i \<in> orderId ` set (opp_queue s b) \<Longrightarrow> i \<notin> orderId ` set (own_queue s b)"
    using dist(3) by (metis IntI empty_iff)
  then show "(\<exists>f\<in>set fs. orderId (fst f) = i \<and> snd f = remainingQuantity (fst f)) \<longleftrightarrow>
      i \<in> orderId ` set (getOpenOrders b) \<and> i \<notin> orderId ` set (getOpenOrders b')"
    unfolding fills_completed [OF f dist(1)] opens image_Un Un_iff own_ids by blast
  have same: "x = y" if "x \<in> set (own_queue s b)" "y \<in> set (own_queue s b)" "orderId x = orderId y" for x y
    using distinct_key_eq [OF dist(2) that(2,1)] that(3) by blast
  have sides: "orderId x \<noteq> orderId y" if "x \<in> set (own_queue s b)"
      "y \<in> set (opp_queue s b) \<or> y \<in> set (opp_queue s b')" for x y
  proof -
    have "orderId x \<in> orderId ` set (own_queue s b)" "orderId y \<in> orderId ` set (opp_queue s b)"
      using that ids by blast+
    then show ?thesis using dist(3) by (metis IntI empty_iff)
  qed
  have "x \<in> set (opp_queue s b) \<and> y \<in> set (opp_queue s b')"
    if xy: "x \<in> set (getOpenOrders b)" "y \<in> set (getOpenOrders b')" "orderId x = i" "orderId y = i"
      "remainingQuantity y < remainingQuantity x" for x y
  proof -
    have eq: "orderId x = orderId y" "x \<noteq> y" using xy(3-5) by auto
    have x: "x \<in> set (opp_queue s b) \<or> x \<in> set (own_queue s b)" using xy(1) opens by blast
    have y: "y \<in> set (opp_queue s b') \<or> y \<in> set (own_queue s b)"
      using xy(2) mine [OF xy(4)] opens by blast
    have "x \<notin> set (own_queue s b)" using y sides same eq by metis
    moreover have "y \<notin> set (own_queue s b)" using x sides same eq by metis
    ultimately show ?thesis using x y by blast
  qed
  then show "(\<exists>f\<in>set fs. orderId (fst f) = i \<and> snd f \<noteq> remainingQuantity (fst f)) \<longleftrightarrow>
      (\<exists>x\<in>set (getOpenOrders b). \<exists>y\<in>set (getOpenOrders b').
         orderId x = i \<and> orderId y = i \<and> remainingQuantity y < remainingQuantity x)"
    unfolding fills_reduced [OF f dist(1)] by (auto simp: opens)
qed

text \<open>
  What the clients are told about resting orders. Another order is reported as filled exactly
  when it was open before and is no longer open, and as partially filled exactly when it is still
  open with less left; but the report of a partial fill never carries the quantity that is left:
  it is the sentinel \<open>-1\<close>.
\<close>

lemma adapter_resting_updates:
  assumes "adapter_reachable a" and "t = F_LIMIT \<longrightarrow> not_nan p"
    and "adapter_placeOrder now s t p q a = Some (a', r)" and "i \<noteq> er_orderId r"
  shows "((\<exists>u\<in>set (er_orderUpdates r). ou_orderId u = i \<and> ou_status u = FILLED) \<longleftrightarrow>
      i \<in> orderId ` set (open_orders a) \<and> i \<notin> orderId ` set (open_orders a')) \<and>
    ((\<exists>u\<in>set (er_orderUpdates r). ou_orderId u = i \<and> ou_status u = PARTIALLY_FILLED) \<longleftrightarrow>
      (\<exists>x\<in>set (open_orders a). \<exists>y\<in>set (open_orders a').
         orderId x = i \<and> orderId y = i \<and> remainingQuantity y < remainingQuantity x)) \<and>
    (\<forall>u\<in>set (er_orderUpdates r). ou_orderId u = i \<longrightarrow>
      ou_remaining u = (if ou_status u = FILLED then 0 else - 1))"
proof -
  note inv = adapter_reachable_inv [OF assms(1)]
  have wf: "book_wf (orderBook (adapter_engine a))"
    using inv reachable_book_wf by (simp add: adapter_inv_def)
  let ?x = "make_order (nextOrderId a) s t p q now" and ?b = "orderBook (adapter_engine a)"
  let ?s = "side ?x"
  have some: "adapter_placeOrder now s t p q a \<noteq> None" using assms(3) by simp
  obtain e' evs fs n where f: "fills (crosses ?x) q (opp_queue ?s ?b) = (fs, n, opp_queue ?s (orderBook e'))"
    and own: "own_queue ?s (orderBook e') = (if n \<noteq> 0 \<and> t = F_LIMIT
      then enqueue (?x\<lparr>remainingQuantity := n\<rparr>) (own_queue ?s ?b) else own_queue ?s ?b)"
    and r: "adapter_placeOrder now s t p q a =
      Some (a\<lparr>adapter_engine := e', nextOrderId := nextOrderId a + 1\<rparr>,
            spec_result (nextOrderId a) t q (new_trades (adapter_engine a) e') (map resting_update fs) n)"
    by (rule adapter_place_outcome [OF inv some assms(2)])
  have i: "i \<noteq> nextOrderId a" and a': "adapter_engine a' = e'"
    using assms(3,4) r by (auto simp: spec_result_def Let_def)
  have own': "own_queue ?s (orderBook e') = own_queue ?s ?b \<or>
      own_queue ?s (orderBook e') = enqueue (?x\<lparr>remainingQuantity := n\<rparr>) (own_queue ?s ?b)"
    unfolding own by simp
  have i': "i \<noteq> orderId (?x\<lparr>remainingQuantity := n\<rparr>)" using i by simp
  note other = place_other_orders [OF wf f own' i']
  have ups: "u \<in> set (er_orderUpdates r) \<longleftrightarrow> u \<in> resting_update ` set fs" if "ou_orderId u = i" for u
    using assms(3) r that i by (auto simp: spec_result_def Let_def split: if_splits)
  have ex: "(\<exists>u\<in>set (er_orderUpdates r). ou_orderId u = i \<and> P u) \<longleftrightarrow>
      (\<exists>f\<in>set fs. orderId (fst f) = i \<and> P (resting_update f))" for P
  proof -
    have "(\<exists>u\<in>set (er_orderUpdates r). ou_orderId u = i \<and> P u) \<longleftrightarrow>
        (\<exists>u\<in>resting_update ` set fs. ou_orderId u = i \<and> P u)" using ups by blast
    then show ?thesis by simp
  qed
  have "(\<exists>u\<in>set (er_orderUpdates r). ou_orderId u = i \<and> ou_status u = FILLED) \<longleftrightarrow>
      (\<exists>f\<in>set fs. orderId (fst f) = i \<and> snd f = remainingQuantity (fst f))"
    "(\<exists>u\<in>set (er_orderUpdates r). ou_orderId u = i \<and> ou_status u = PARTIALLY_FILLED) \<longleftrightarrow>
      (\<exists>f\<in>set fs. orderId (fst f) = i \<and> snd f \<noteq> remainingQuantity (fst f))"
    unfolding ex by auto
  moreover have "\<forall>u\<in>set (er_orderUpdates r). ou_orderId u = i \<longrightarrow>
      ou_remaining u = (if ou_status u = FILLED then 0 else - 1)"
    using ups by (auto simp: image_iff split: if_splits)
  ultimately show ?thesis
    using other unfolding engine_getOpenOrders_def a' by (simp only: simp_thms)
qed


text \<open>
  \<open>cancelOrder\<close> succeeds exactly for the open orders, says so, and takes exactly that order
  off the book: the other orders keep their place, the active order count drops by one, and no
  trade is made. For any other id nothing changes and the reason is \<open>Order not found\<close>.
\<close>

lemma adapter_cancelOrder_result:
  assumes "adapter_reachable a" and "adapter_cancelOrder i a = Some (a', c)"
  shows "cr_orderId c = i \<and> (cr_success c \<longleftrightarrow> i \<in> orderId ` set (open_orders a)) \<and>
    cr_reason c = (if cr_success c then '''' else ''Order not found'') \<and>
    open_orders a' = filter (\<lambda>x. orderId x \<noteq> i) (open_orders a) \<and>
    getActiveOrderCount a' = (if cr_success c then getActiveOrderCount a - 1 else getActiveOrderCount a) \<and>
    getRecentTrades (adapter_engine a') = getRecentTrades (adapter_engine a) \<and>
    nextOrderId a' = nextOrderId a"
proof -
  note inv = adapter_reachable_inv [OF assms(1)]
  have wf: "book_wf (orderBook (adapter_engine a))"
    using inv reachable_book_wf by (simp add: adapter_inv_def)
  obtain e' where c: "adapter_cancelOrder i a =
      Some (a\<lparr>adapter_engine := e'\<rparr>,
            \<lparr>cr_success = (i \<in> open_ids (orderBook (adapter_engine a))),
             cr_reason = (if i \<in> open_ids (orderBook (adapter_engine a)) then '''' else ''Order not found''),
             cr_orderId = i\<rparr>)"
    and o': "engine_getOpenOrders e' = filter (\<lambda>x. orderId x \<noteq> i) (open_orders a)"
    and t': "recentTrades e' = recentTrades (adapter_engine a)"
    by (rule adapter_cancel_outcome [OF inv, of i])
  have d: "distinct (map orderId (open_orders a))"
    using book_wf_distinct_ids [OF wf] by (simp add: engine_getOpenOrders_def)
  have "length (open_orders a) =
      length (filter (\<lambda>x. orderId x \<noteq> i) (open_orders a)) + (if i \<in> orderId ` set (open_orders a) then 1 else 0)"
    by (rule length_filter_distinct [OF d])
  then show ?thesis
    using c assms(2) o' t'
    by (auto simp: open_ids_getOpenOrders getActiveOrderCount_def getRecentTrades_def)
qed


section \<open>The snapshot\<close>

lemma snapshot_entries:
  "snap_bids (adapter_getOrderBook a) =
     map (\<lambda>l. \<lparr>pl_price = fst l, pl_quantity = snd l\<rparr>) (getBidDepth 10 (orderBook (adapter_engine a)))"
  "snap_asks (adapter_getOrderBook a) =
     map (\<lambda>l. \<lparr>pl_price = fst l, pl_quantity = snd l\<rparr>) (getAskDepth 10 (orderBook (adapter_engine a)))"
  by (simp_all add: adapter_getOrderBook_def getOrderBook_def DEPTH_LEVELS_def Let_def case_prod_beta)

lemma total_filter_le: "total (filter P q) \<le> total q"
  by (induction q) auto

lemma depth_quantity_exact:
  assumes "unat (q::i64) = total xs mod 2 ^ 64" and "total xs < 2 ^ 63"
  shows "sint q = int (total xs)"
proof -
  have "unat q = total xs" using assms by simp
  then have "q \<le> 0x7FFFFFFFFFFFFFFF" using assms(2) by (simp add: word_le_nat_alt)
  then have "sint q = int (unat q)" by (rule i64_nonneg)
  then show ?thesis unfolding \<open>unat q = total xs\<close> .
qed

text \<open>
  C31: the snapshot sent to the clients shows at most ten levels a side, bids by falling and asks
  by rising price, and as long as the quantity resting on the book is below \<open>2 ^ 63\<close>, every shown
  quantity, read as the signed number it is sent as, is the sum of the quantities left at that
  price.
\<close>

theorem adapter_snapshot_exact:
  assumes "adapter_reachable a" and "total (open_orders a) < 2 ^ 63"
  shows "length (snap_bids (adapter_getOrderBook a)) \<le> 10 \<and>
    length (snap_asks (adapter_getOrderBook a)) \<le> 10 \<and>
    sorted_wrt (\<lambda>l l'. pl_price l' < pl_price l) (snap_bids (adapter_getOrderBook a)) \<and>
    sorted_wrt (\<lambda>l l'. pl_price l < pl_price l') (snap_asks (adapter_getOrderBook a)) \<and>
    (\<forall>l\<in>set (snap_bids (adapter_getOrderBook a)). sint (pl_quantity l) =
       int (total (filter (\<lambda>x. deq (price x) (pl_price l)) (bid_queue (orderBook (adapter_engine a)))))) \<and>
    (\<forall>l\<in>set (snap_asks (adapter_getOrderBook a)). sint (pl_quantity l) =
       int (total (filter (\<lambda>x. deq (price x) (pl_price l)) (ask_queue (orderBook (adapter_engine a))))))"
proof -
  let ?b = "orderBook (adapter_engine a)"
  have wf: "book_wf ?b"
    using adapter_reachable_inv [OF assms(1)] reachable_book_wf by (simp add: adapter_inv_def)
  have bs: "side_wf std_greater BUY (bids ?b)" and as: "side_wf std_less SELL (asks ?b)"
    using wf by (simp_all add: book_wf_def)
  have "total (bid_queue ?b) + total (ask_queue ?b) < 2 ^ 63"
    using assms(2) by (simp add: engine_getOpenOrders_def getOpenOrders_queues)
  then have "total (filter P (bid_queue ?b)) < 2 ^ 63" "total (filter P (ask_queue ?b)) < 2 ^ 63" for P
    using total_filter_le [of P "bid_queue ?b"] total_filter_le [of P "ask_queue ?b"] by linarith+
  then have "\<forall>(p, q)\<in>set (getBidDepth 10 ?b). sint q = int (total (filter (\<lambda>x. deq (price x) p) (bid_queue ?b)))"
    "\<forall>(p, q)\<in>set (getAskDepth 10 ?b). sint q = int (total (filter (\<lambda>x. deq (price x) p) (ask_queue ?b)))"
    using bid_side.depth_entry [OF bs, of 10] ask_side.depth_entry [OF as, of 10]
    by (fastforce simp: getBidDepth_eq getAskDepth_eq bid_queue_def ask_queue_def intro: depth_quantity_exact)+
  moreover have "sorted_wrt (\<lambda>p p'. p' < p) (map fst (getBidDepth 10 ?b))"
    "sorted_wrt (\<lambda>p p'. p < p') (map fst (getAskDepth 10 ?b))"
    using bid_side.depth_sorted [OF bs, of 10] ask_side.depth_sorted [OF as, of 10]
    by (simp_all add: getBidDepth_eq getAskDepth_eq std_greater_def [abs_def] std_less_def [abs_def])
  moreover have "length (getBidDepth 10 ?b) \<le> 10" "length (getAskDepth 10 ?b) \<le> 10"
    by (simp_all add: getBidDepth_eq getAskDepth_eq)
  ultimately show ?thesis
    by (auto simp: snapshot_entries sorted_wrt_map case_prod_beta)
qed

theorem adapter_snapshot_exact_witness:
  "int (total (filter (\<lambda>x. deq (price x) d100) [make_order 1 F_BUY F_LIMIT d100 100 0])) = 100"
proof -
  have "total (open_orders adapter_one) < 2 ^ 63"
    and "bid_queue (orderBook (adapter_engine adapter_one)) = [make_order 1 F_BUY F_LIMIT d100 100 0]"
    and "snap_bids (adapter_getOrderBook adapter_one) = [\<lparr>pl_price = d100, pl_quantity = 100\<rparr>]"
    by (simp_all add: adapter_one_state server_simps sample_eval bid_queue_def)
  then show ?thesis
    using adapter_snapshot_exact [OF adapter_one_reachable] by simp
qed

end
