(* ===== verification/Request_Handler.thy ===== *)
theory Request_Handler
  imports Protocol Metrics Adapter_Theorems
begin

text \<open>
  The class \<open>RequestHandler\<close> (\<open>server/include/RequestHandler.hpp\<close>,
  \<open>server/src/RequestHandler.cpp\<close>): one request text in, a direct response for its sender and
  broadcasts for all clients out, with the changes of the engine adapter and of the metrics it
  refers to. \<open>None\<close> is undefined behaviour, \<open>Inl\<close> an exception that leaves the function. The
  clock of the order and the elapsed seconds of the metrics are the arguments \<open>now\<close> and \<open>secs\<close>.
\<close>

record 'j handle_result =
  directResponse :: 'j
  broadcasts :: "'j list"

record server =
  srv_adapter :: adapter
  srv_metrics :: metrics

definition initial_server :: server where
  "initial_server = \<lparr>srv_adapter = initial_adapter, srv_metrics = initial_metrics\<rparr>"

definition direct :: "'j \<Rightarrow> 'j handle_result" where
  "direct j = \<lparr>directResponse = j, broadcasts = []\<rparr>"

definition getOrderBookMessage :: "'j json_lib \<Rightarrow> server \<Rightarrow> 'j" where
  "getOrderBookMessage L sv = msg_orderBook L (adapter_getOrderBook (srv_adapter sv))"

text \<open>The part of \<open>handlePlaceOrder\<close> that holds \<open>engineMutex_\<close>.\<close>

definition place_locked :: "u64 \<Rightarrow> place_order_request \<Rightarrow> server \<Rightarrow> (server \<times> engine_result) option" where
  "place_locked now req sv =
     (case adapter_placeOrder now (req_side req) (req_orderType req) (req_price req) (req_quantity req)
             (srv_adapter sv) of
        None \<Rightarrow> None
      | Some (a', r) \<Rightarrow>
          Some (sv\<lparr>srv_adapter := a',
                   srv_metrics := setActiveOrders (getActiveOrderCount a') (srv_metrics sv)\<rparr>, r))"

definition accepted_message :: "'j json_lib \<Rightarrow> place_order_request \<Rightarrow> i64 \<Rightarrow> 'j" where
  "accepted_message L req i =
     (let j0 = msg_orderAccepted L i;
          j1 = js_set L j0 ''side'' (js_string L (sideToString (req_side req)));
          j2 = js_set L j1 ''orderType''
                 (js_string L (if req_orderType req = F_LIMIT then ''LIMIT'' else ''MARKET''));
          j3 = js_set L j2 ''quantity'' (js_int64 L (req_quantity req))
      in if req_orderType req = F_LIMIT
         then js_set L j3 ''price'' (js_double L (req_price req)) else j3)"

text \<open>The outcome of an exception that leaves the reading of the fields.\<close>

definition raised :: "server \<Rightarrow> cpp_exception \<Rightarrow> (server \<times> 'a throws) option" where
  "raised sv e = (if e = Undefined then None else Some (sv, Inl e))"

definition handlePlaceOrder ::
  "'j json_lib \<Rightarrow> u64 \<Rightarrow> 'j \<Rightarrow> server \<Rightarrow> (server \<times> 'j handle_result throws) option" where
  "handlePlaceOrder L now msg sv =
     (case parsePlaceOrder L msg of
        Inl e \<Rightarrow> raised sv e
      | Inr req \<Rightarrow>
          (case place_locked now req sv of
             None \<Rightarrow> None
           | Some (sv', r) \<Rightarrow>
               if \<not> er_accepted r
               then Some (sv', Inr (direct (msg_orderRejected L (er_rejectReason r))))
               else
                 let m1 = recordOrder (srv_metrics sv');
                     m2 = fold (\<lambda>t m. recordTrade (tm_quantity t) m) (er_trades r) m1;
                     updates = filter (\<lambda>u. 0 \<le>s ou_remaining u) (er_orderUpdates r)
                 in Some (sv'\<lparr>srv_metrics := m2\<rparr>,
                      Inr \<lparr>directResponse = accepted_message L req (er_orderId r),
                           broadcasts = map (msg_tradeEvent L) (er_trades r) @
                             map (msg_orderUpdate L) updates @
                             (if er_bookChanged r then [getOrderBookMessage L sv'] else [])\<rparr>)))"

text \<open>The part of \<open>handleCancelOrder\<close> that holds \<open>engineMutex_\<close>.\<close>

definition cancel_locked :: "cancel_order_request \<Rightarrow> server \<Rightarrow> (server \<times> cancel_result) option" where
  "cancel_locked req sv =
     (case adapter_cancelOrder (req_orderId req) (srv_adapter sv) of
        None \<Rightarrow> None
      | Some (a', c) \<Rightarrow>
          Some (sv\<lparr>srv_adapter := a',
                   srv_metrics := setActiveOrders (getActiveOrderCount a') (srv_metrics sv)\<rparr>, c))"

definition handleCancelOrder ::
  "'j json_lib \<Rightarrow> 'j \<Rightarrow> server \<Rightarrow> (server \<times> 'j handle_result throws) option" where
  "handleCancelOrder L msg sv =
     (case parseCancelOrder L msg of
        Inl e \<Rightarrow> raised sv e
      | Inr req \<Rightarrow>
          (case cancel_locked req sv of
             None \<Rightarrow> None
           | Some (sv', c) \<Rightarrow>
               if \<not> cr_success c
               then Some (sv', Inr (direct (msg_orderRejected L (cr_reason c))))
               else
                 let sv'' = sv'\<lparr>srv_metrics := recordCancel (srv_metrics sv')\<rparr>;
                     u = \<lparr>ou_orderId = cr_orderId c, ou_status = CANCELLED, ou_remaining = 0\<rparr>
                 in Some (sv'',
                      Inr \<lparr>directResponse = msg_orderCancelled L (cr_orderId c),
                           broadcasts = [msg_orderUpdate L u, getOrderBookMessage L sv'']\<rparr>)))"

definition handleGetMetrics :: "'j json_lib \<Rightarrow> double \<Rightarrow> server \<Rightarrow> 'j handle_result" where
  "handleGetMetrics L secs sv = direct (msg_metrics L (metrics_snapshot secs (srv_metrics sv)))"

definition dispatch ::
  "'j json_lib \<Rightarrow> u64 \<Rightarrow> double \<Rightarrow> string \<Rightarrow> 'j \<Rightarrow> server \<Rightarrow> (server \<times> 'j handle_result throws) option"
where
  "dispatch L now secs type msg sv =
     (if type = ''PLACE_ORDER'' then handlePlaceOrder L now msg sv
      else if type = ''CANCEL_ORDER'' then handleCancelOrder L msg sv
      else if type = ''GET_METRICS'' then Some (sv, Inr (handleGetMetrics L secs sv))
      else Some (sv, Inr (direct (msg_error L (''Unknown message type: '' @ type)))))"

definition handle ::
  "'j json_lib \<Rightarrow> u64 \<Rightarrow> double \<Rightarrow> string \<Rightarrow> server \<Rightarrow> (server \<times> 'j handle_result throws) option" where
  "handle L now secs raw sv =
     (case protocol_parse L raw of
        Inl (ProtocolError e) \<Rightarrow> Some (sv, Inr (direct (msg_error L e)))
      | Inl (StdException w) \<Rightarrow> Some (sv, Inl (StdException w))
      | Inl Undefined \<Rightarrow> None
      | Inr msg \<Rightarrow>
          (case getMessageType L msg of
             Inl (ProtocolError e) \<Rightarrow> Some (sv, Inr (direct (msg_error L e)))
           | Inl (StdException w) \<Rightarrow> Some (sv, Inl (StdException w))
           | Inl Undefined \<Rightarrow> None
           | Inr type \<Rightarrow>
               (case dispatch L now secs type msg sv of
                  None \<Rightarrow> None
                | Some (sv', Inr r) \<Rightarrow> Some (sv', Inr r)
                | Some (sv', Inl (ProtocolError e)) \<Rightarrow> Some (sv', Inr (direct (msg_error L e)))
                | Some (sv', Inl (StdException w)) \<Rightarrow>
                    Some (sv', Inr (direct (msg_error L (''Internal error: '' @ w))))
                | Some (sv', Inl Undefined) \<Rightarrow> None)))"

lemmas [server_simps] =
  initial_server_def direct_def place_locked_def cancel_locked_def raised_def handlePlaceOrder_def
  handleCancelOrder_def handleGetMetrics_def dispatch_def handle_def protocol_parse_def
  getMessageType_def parsePlaceOrder_def validatePlaceOrder_def parseCancelOrder_def
  validateCancelOrder_def parseSide_def parseOrderType_def getOrderBookMessage_def

end
