(* ===== verification/Sample_Json.thy ===== *)
theory Sample_Json
  imports Protocol IEEE_Arith "HOL-Library.AList"
begin

text \<open>
  A concrete JSON library for the witnesses: JSON values as a datatype, the accessors on them, a
  printer, and a parser that knows a few request texts. It satisfies every hypothesis about the
  library, so these can hold together.
\<close>

datatype jval =
    JNull
  | JStr string
  | JInt i64
  | JDbl double
  | JArr "jval list"
  | JObj "(string \<times> jval) list"

definition show_int :: "int \<Rightarrow> string" where
  "show_int i = (if i < 0 then ''-'' @ digits (nat (- i)) else digits (nat i))"

definition quote_string :: "string \<Rightarrow> string" where
  "quote_string s = [CHR 0x22] @ s @ [CHR 0x22]"

fun separated :: "string list \<Rightarrow> string" where
  "separated [] = ''''"
| "separated [s] = s"
| "separated (s # t # ts) = s @ '','' @ separated (t # ts)"

fun jdump :: "jval \<Rightarrow> string" where
  "jdump JNull = ''null''"
| "jdump (JStr s) = quote_string s"
| "jdump (JInt i) = show_int (sint i)"
| "jdump (JDbl d) = show_int (dscaled d) @ ''p-1074''"
| "jdump (JArr js) = ''['' @ separated (map jdump js) @ '']''"
| "jdump (JObj kvs) =
     ''{'' @ separated (map (\<lambda>kv. quote_string (fst kv) @ '':'' @ jdump (snd kv)) kvs) @ ''}''"

definition jcontains :: "jval \<Rightarrow> string \<Rightarrow> bool" where
  "jcontains j k = (case j of JObj kvs \<Rightarrow> map_of kvs k \<noteq> None | _ \<Rightarrow> False)"

definition jat :: "jval \<Rightarrow> string \<Rightarrow> jval" where
  "jat j k = (case j of JObj kvs \<Rightarrow> (case map_of kvs k of Some v \<Rightarrow> v | None \<Rightarrow> JNull) | _ \<Rightarrow> JNull)"

definition jset :: "jval \<Rightarrow> string \<Rightarrow> jval \<Rightarrow> jval" where
  "jset j k v = (case j of JObj kvs \<Rightarrow> JObj (AList.update k v kvs) | _ \<Rightarrow> JObj [(k, v)])"

text \<open>The integer part of a double, \<open>None\<close> when it is no \<open>std::int64_t\<close>: from the exponent and the
  fraction, whose unit is \<open>2 ^ (e - 1075)\<close>.\<close>

definition truncated :: "double \<Rightarrow> i64 option" where
  "truncated d =
     (let e = dmag d div 2 ^ 52; f = 2 ^ 52 + dmag d mod 2 ^ 52;
          k = (if e < 1023 then 0
               else if e < 1075 then f div 2 ^ nat (1075 - e) else f * 2 ^ nat (e - 1075))
      in if dneg d \<and> dmag d = 1086 * 2 ^ 52 then Some 0x8000000000000000
         else if 1086 \<le> e then None
         else Some (word_of_int (if dneg d then - k else k)))"

definition jint :: "jval \<Rightarrow> (string + i64) option" where
  "jint j = (case j of JInt i \<Rightarrow> Some (Inr i)
             | JDbl d \<Rightarrow> map_option Inr (truncated d)
             | _ \<Rightarrow> Some (Inl ''type must be number''))"

definition jdouble :: "jval \<Rightarrow> string + double" where
  "jdouble j = (case j of JInt i \<Rightarrow> Inr (double_of_int64 i)
                | JDbl d \<Rightarrow> Inr d | _ \<Rightarrow> Inl ''type must be number'')"

definition jstring :: "jval \<Rightarrow> string + string" where
  "jstring j = (case j of JStr s \<Rightarrow> Inr s | _ \<Rightarrow> Inl ''type must be string'')"

text \<open>The request texts, and what they stand for.\<close>

definition request_object :: "string \<Rightarrow> string \<Rightarrow> i64 \<Rightarrow> (string \<times> jval) list \<Rightarrow> jval" where
  "request_object s t q rest =
     JObj ([(''type'', JStr ''PLACE_ORDER''), (''side'', JStr s), (''orderType'', JStr t),
            (''quantity'', JInt q)] @ rest)"

definition sample_texts :: "(string \<times> jval) list" where
  "sample_texts =
     [(''buy 100 at 100'', request_object ''BUY'' ''LIMIT'' 100 [(''price'', JDbl (Double 0x4059000000000000))]),
      (''sell 60 at 100'', request_object ''SELL'' ''LIMIT'' 60 [(''price'', JDbl (Double 0x4059000000000000))]),
      (''buy 60 at market'', request_object ''BUY'' ''MARKET'' 60 []),
      (''buy 0 at market'', request_object ''BUY'' ''MARKET'' 0 []),
      (''buy 1e300 at market'', JObj [(''type'', JStr ''PLACE_ORDER''), (''side'', JStr ''BUY''),
         (''orderType'', JStr ''MARKET''), (''quantity'', JDbl (Double 0x7E37E43C8800759C))]),
      (''cancel 1'', JObj [(''type'', JStr ''CANCEL_ORDER''), (''orderId'', JInt 1)]),
      (''cancel'', JObj [(''type'', JStr ''CANCEL_ORDER'')]),
      (''metrics'', JObj [(''type'', JStr ''GET_METRICS'')])]"

definition jparse :: "string \<Rightarrow> jval parsed" where
  "jparse raw =
     (if raw = ''1e999'' then Parse_Exception ''number overflow parsing 1e999''
      else case map_of sample_texts raw of Some j \<Rightarrow> Parsed j | None \<Rightarrow> Parse_Error)"

definition sample_json :: "jval json_lib" where
  "sample_json =
     \<lparr>js_parse = jparse, js_dump = (\<lambda>j. Inr (jdump j)), js_contains = jcontains, js_at = jat,
      js_is_string = (\<lambda>j. case j of JStr _ \<Rightarrow> True | _ \<Rightarrow> False),
      js_is_number = (\<lambda>j. case j of JInt _ \<Rightarrow> True | JDbl _ \<Rightarrow> True | _ \<Rightarrow> False),
      js_is_null = (\<lambda>j. case j of JNull \<Rightarrow> True | _ \<Rightarrow> False),
      js_get_string = jstring, js_get_int64 = jint, js_get_double = jdouble, js_null = JNull,
      js_string = JStr, js_int64 = JInt, js_double = JDbl, js_object = JObj, js_array = JArr,
      js_set = jset\<rparr>"

lemma truncated_sample [simp]: "truncated (Double 0x7E37E43C8800759C) = None"
  by (simp add: truncated_def dmag_def dneg_def Let_def)

lemmas sample_json_simps =
  sample_json_def jcontains_def jat_def jset_def jint_def jdouble_def jstring_def jparse_def
  sample_texts_def request_object_def

lemma sample_json_getters: "json_getters sample_json"
  by (auto simp: json_getters_def sample_json_def jstring_def jint_def jdouble_def
      split: jval.splits)

lemma update_fresh: "k \<notin> fst ` set kvs \<Longrightarrow> AList.update k v kvs = kvs @ [(k, v)]"
  by (induction kvs) auto

lemma jobject_members:
  assumes "distinct (map fst kvs)"
  shows "jcontains (JObj kvs) k \<longleftrightarrow> k \<in> fst ` set kvs" and "(k, v) \<in> set kvs \<Longrightarrow> jat (JObj kvs) k = v"
proof -
  show "jcontains (JObj kvs) k \<longleftrightarrow> k \<in> fst ` set kvs"
    by (simp add: jcontains_def map_of_eq_None_iff)
  show "jat (JObj kvs) k = v" if "(k, v) \<in> set kvs"
    using that assms by (simp add: jat_def)
qed

lemma sample_json_objects: "json_objects sample_json"
proof -
  have "js_object sample_json = JObj" "js_contains sample_json = jcontains" "js_at sample_json = jat"
    "js_set sample_json = jset" "js_string sample_json = JStr" "js_int64 sample_json = JInt"
    "js_get_string sample_json = jstring" "js_get_int64 sample_json = jint"
    "\<And>kvs. js_is_null sample_json (JObj kvs) = False" "\<And>s. js_is_string sample_json (JStr s) = True"
    "\<And>i. js_is_number sample_json (JInt i) = True"
    "js_double sample_json = JDbl" "js_get_double sample_json = jdouble"
    "\<And>d. js_is_number sample_json (JDbl d) = True"
    by (simp_all add: sample_json_def)
  note fields = this
  show ?thesis
    unfolding json_objects_def fields
    by (simp add: jobject_members jset_def update_fresh jstring_def jint_def jdouble_def)
qed

text \<open>No member of a known request is a NaN, whichever way it is read.\<close>

definition member_not_nan :: "jval \<Rightarrow> bool" where
  "member_not_nan v = (case jdouble v of Inr d \<Rightarrow> not_nan d | Inl _ \<Rightarrow> True)"

lemma sample_texts_not_nan:
  "list_all (\<lambda>tj. case snd tj of JObj kvs \<Rightarrow> list_all (\<lambda>kv. member_not_nan (snd kv)) kvs | _ \<Rightarrow> False)
     sample_texts"
  by (simp add: sample_texts_def request_object_def member_not_nan_def jdouble_def
      double_of_int64_not_nan) (simp add: not_nan_def is_nan_def dmag_def)

lemma sample_json_no_nan: "json_no_nan sample_json"
proof -
  have "not_nan d" if p: "jparse raw = Parsed j" and c: "jcontains j k" and d: "jdouble (jat j k) = Inr d"
    for raw j k d
  proof -
    obtain t where "(t, j) \<in> set sample_texts"
      using p by (auto simp: jparse_def split: if_splits option.splits dest: map_of_SomeD)
    then obtain kvs where j: "j = JObj kvs" and nn: "\<forall>kv\<in>set kvs. member_not_nan (snd kv)"
      using sample_texts_not_nan by (cases j) (force simp: list_all_iff)+
    obtain v where "map_of kvs k = Some v" using c by (auto simp: j jcontains_def)
    then have "member_not_nan v" "jat j k = v" using nn by (auto simp: j jat_def dest!: map_of_SomeD)
    then show ?thesis using d by (simp add: member_not_nan_def)
  qed
  then show ?thesis by (auto simp: json_no_nan_def sample_json_def)
qed


lemma sample_price_positive [simp]: "\<not> Double 0x4059000000000000 \<le> double_zero"
  by (simp add: double_zero_def less_eq_double_def not_nan_def is_nan_def dkey_def dneg_def dmag_def)

end
