(* ===== verification/Protocol_Theorems.thy ===== *)
theory Protocol_Theorems
  imports Sample_Json
begin

text \<open>
  The properties of \<open>Protocol\<close>: exactly which messages are accepted as requests and what they are
  read as, that a refused request is always a \<open>ProtocolError\<close>, and that the documented request
  format and the messages of the server read back.
\<close>

definition orderTypeName :: "forder_type \<Rightarrow> string" where
  "orderTypeName t = (if t = F_LIMIT then ''LIMIT'' else ''MARKET'')"

lemma parseSide_Inr: "parseSide s = Inr x \<longleftrightarrow> s = sideToString x"
  by (cases x) (auto simp: parseSide_def sideToString_def)

lemma parseOrderType_Inr: "parseOrderType s = Inr x \<longleftrightarrow> s = orderTypeName x"
  by (cases x) (auto simp: parseOrderType_def orderTypeName_def)

lemma orderTypeName_LIMIT: "orderTypeName t = ''LIMIT'' \<longleftrightarrow> t = F_LIMIT"
  by (simp add: orderTypeName_def)

lemma signed_not_le: "\<not> (q::i64) \<le>s 0 \<longleftrightarrow> 0 <s q"
  by (simp add: word_sle_eq word_sless_alt not_le)

lemma validatePlaceOrder_Inr:
  "validatePlaceOrder L msg = Inr () \<longleftrightarrow>
     js_contains L msg ''side'' \<and> js_is_string L (js_at L msg ''side'') \<and>
     js_contains L msg ''orderType'' \<and> js_is_string L (js_at L msg ''orderType'') \<and>
     js_contains L msg ''quantity'' \<and> js_is_number L (js_at L msg ''quantity'') \<and>
     (\<exists>q. js_get_int64 L (js_at L msg ''quantity'') = Some (Inr q) \<and> 0 <s q) \<and>
     (\<exists>t. js_get_string L (js_at L msg ''orderType'') = Inr t \<and>
       (t = ''LIMIT'' \<longrightarrow> js_contains L msg ''price'' \<and> js_is_number L (js_at L msg ''price'') \<and>
         (\<exists>p. js_get_double L (js_at L msg ''price'') = Inr p \<and> \<not> p \<le> double_zero)))"
  unfolding validatePlaceOrder_def guard_Inr when_Inr bind_throws_Inr lib_Inr lib_defined_Inr signed_not_le
    de_Morgan_disj not_not Inl_Inr_False Inr_Inl_False simp_thms
  by blast

lemma parsePlaceOrder_Inr:
  "parsePlaceOrder L msg = Inr req \<longleftrightarrow>
     js_contains L msg ''side'' \<and> js_is_string L (js_at L msg ''side'') \<and>
     js_contains L msg ''orderType'' \<and> js_is_string L (js_at L msg ''orderType'') \<and>
     js_contains L msg ''quantity'' \<and> js_is_number L (js_at L msg ''quantity'') \<and>
     js_get_string L (js_at L msg ''side'') = Inr (sideToString (req_side req)) \<and>
     js_get_string L (js_at L msg ''orderType'') = Inr (orderTypeName (req_orderType req)) \<and>
     js_get_int64 L (js_at L msg ''quantity'') = Some (Inr (req_quantity req)) \<and> 0 <s req_quantity req \<and>
     (if req_orderType req = F_LIMIT
      then js_contains L msg ''price'' \<and> js_is_number L (js_at L msg ''price'') \<and>
        js_get_double L (js_at L msg ''price'') = Inr (req_price req) \<and> \<not> req_price req \<le> double_zero
      else req_price req = double_zero)"
proof -
  have "parsePlaceOrder L msg = Inr req \<longleftrightarrow>
      validatePlaceOrder L msg = Inr () \<and>
      js_get_string L (js_at L msg ''side'') = Inr (sideToString (req_side req)) \<and>
      js_get_string L (js_at L msg ''orderType'') = Inr (orderTypeName (req_orderType req)) \<and>
      js_get_int64 L (js_at L msg ''quantity'') = Some (Inr (req_quantity req)) \<and>
      (if req_orderType req = F_LIMIT
       then js_get_double L (js_at L msg ''price'') = Inr (req_price req)
       else req_price req = double_zero)"
    by (cases req) (auto simp: parsePlaceOrder_def bind_throws_Inr parseSide_Inr parseOrderType_Inr
        split: if_splits)
  then show ?thesis
    by (auto simp: validatePlaceOrder_Inr orderTypeName_LIMIT)
qed

text \<open>
  C26: the requests that are accepted. \<open>parsePlaceOrder\<close> returns a request exactly when the
  fields \<open>side\<close>, \<open>orderType\<close> and \<open>quantity\<close> are present, of their JSON types and read as the side,
  the order type and the positive quantity of the request, and a limit order has a numeric price
  that is not at most zero; a market order gets price zero whatever the message says.
\<close>

theorem parsePlaceOrder_accepts:
  "parsePlaceOrder L msg = Inr req \<longleftrightarrow>
     js_contains L msg ''side'' \<and> js_is_string L (js_at L msg ''side'') \<and>
     js_contains L msg ''orderType'' \<and> js_is_string L (js_at L msg ''orderType'') \<and>
     js_contains L msg ''quantity'' \<and> js_is_number L (js_at L msg ''quantity'') \<and>
     js_get_string L (js_at L msg ''side'') = Inr (sideToString (req_side req)) \<and>
     js_get_string L (js_at L msg ''orderType'') = Inr (orderTypeName (req_orderType req)) \<and>
     js_get_int64 L (js_at L msg ''quantity'') = Some (Inr (req_quantity req)) \<and> 0 <s req_quantity req \<and>
     (if req_orderType req = F_LIMIT
      then js_contains L msg ''price'' \<and> js_is_number L (js_at L msg ''price'') \<and>
        js_get_double L (js_at L msg ''price'') = Inr (req_price req) \<and> \<not> req_price req \<le> double_zero
      else req_price req = double_zero)"
  by (rule parsePlaceOrder_Inr)

lemma requests_protocol_only:
  assumes "json_getters L"
  shows "getMessageType L msg \<noteq> Inl (StdException w) \<and>
    parsePlaceOrder L msg \<noteq> Inl (StdException w) \<and> parseCancelOrder L msg \<noteq> Inl (StdException w)"
proof -
  have str: "\<exists>s. js_get_string L j = Inr s" if "js_is_string L j" for j
    using assms that by (simp add: json_getters_def)
  have num: "\<forall>w. js_get_int64 L j \<noteq> Some (Inl w)" "\<exists>d. js_get_double L j = Inr d" if "js_is_number L j" for j
    using assms that by (simp_all add: json_getters_def)
  have "protocol_only (validatePlaceOrder L msg)"
    unfolding validatePlaceOrder_def by (intro protocol_only_intros protocol_only_bind str num) blast+
  moreover have "protocol_only (parseSide s)" "protocol_only (parseOrderType s)" for s
    unfolding parseSide_def parseOrderType_def by (intro protocol_only_intros protocol_only_bind)+
  ultimately have "protocol_only (parsePlaceOrder L msg)"
    unfolding parsePlaceOrder_def
    by (intro protocol_only_intros protocol_only_bind)
      (auto simp: validatePlaceOrder_Inr bind_throws_Inr parseOrderType_Inr orderTypeName_LIMIT str)
  moreover have "protocol_only (getMessageType L msg)"
    unfolding getMessageType_def by (intro protocol_only_intros protocol_only_bind str) blast
  moreover have "protocol_only (parseCancelOrder L msg)"
    unfolding parseCancelOrder_def validateCancelOrder_def
    by (intro protocol_only_intros protocol_only_bind num) (simp split: if_splits)
  ultimately show ?thesis by (simp add: protocol_only_def)
qed


section \<open>Round trips\<close>

lemma object_member:
  assumes "json_objects L" and "distinct (map fst kvs)" and "(k, v) \<in> set kvs"
  shows "js_contains L (js_object L kvs) k" and "js_at L (js_object L kvs) k = v"
proof -
  show "js_at L (js_object L kvs) k = v" using assms unfolding json_objects_def by blast
  have "js_contains L (js_object L kvs) k \<longleftrightarrow> k \<in> fst ` set kvs"
    using assms(1,2) unfolding json_objects_def by blast
  then show "js_contains L (js_object L kvs) k" using assms(3) by force
qed

lemma json_scalars:
  assumes "json_objects L"
  shows "js_is_string L (js_string L s)" and "js_get_string L (js_string L s) = Inr s"
    and "js_is_number L (js_int64 L i)" and "js_get_int64 L (js_int64 L i) = Some (Inr i)"
    and "js_is_number L (js_double L d)" and "js_get_double L (js_double L d) = Inr d"
  using assms unfolding json_objects_def by blast+

lemma message_type:
  assumes "json_objects L" and "distinct (map fst kvs)" and "(''type'', js_string L t) \<in> set kvs"
  shows "getMessageType L (js_object L kvs) = Inr t"
  using object_member [OF assms] json_scalars(1,2) [OF assms(1)] by (simp add: getMessageType_def)

text \<open>The \<open>PLACE_ORDER\<close> request of \<open>server/protocol.md\<close> for a given order.\<close>

definition place_members :: "'j json_lib \<Rightarrow> place_order_request \<Rightarrow> (string \<times> 'j) list" where
  "place_members L req =
     [(''type'', js_string L ''PLACE_ORDER''), (''side'', js_string L (sideToString (req_side req))),
      (''orderType'', js_string L (orderTypeName (req_orderType req)))] @
     (if req_orderType req = F_LIMIT then [(''price'', js_double L (req_price req))] else []) @
     [(''quantity'', js_int64 L (req_quantity req))]"

definition place_message :: "'j json_lib \<Rightarrow> place_order_request \<Rightarrow> 'j" where
  "place_message L req = js_object L (place_members L req)"

lemma place_members_distinct: "distinct (map fst (place_members L req))"
  by (simp add: place_members_def)

text \<open>
  C34: round trip of requests. The documented message for an order with a positive quantity, and a
  positive price if it is a limit order, is recognised as \<open>PLACE_ORDER\<close> and read back as exactly
  that order.
\<close>

theorem place_message_roundtrip:
  assumes "json_objects L" and "0 <s req_quantity req"
    and "if req_orderType req = F_LIMIT then double_zero < req_price req else req_price req = double_zero"
  shows "getMessageType L (place_message L req) = Inr ''PLACE_ORDER'' \<and>
    parsePlaceOrder L (place_message L req) = Inr req"
proof -
  have price: "\<not> req_price req \<le> double_zero" if "req_orderType req = F_LIMIT"
    using assms(3) that by (auto simp: less_double_def less_eq_double_def)
  have m: "js_contains L (place_message L req) k \<and> js_at L (place_message L req) k = v"
    if "(k, v) \<in> set (place_members L req)" for k v
    using object_member [OF assms(1) place_members_distinct that] by (simp add: place_message_def)
  have "(''side'', js_string L (sideToString (req_side req))) \<in> set (place_members L req)"
    "(''orderType'', js_string L (orderTypeName (req_orderType req))) \<in> set (place_members L req)"
    "(''quantity'', js_int64 L (req_quantity req)) \<in> set (place_members L req)"
    by (simp_all add: place_members_def)
  note fields = this [THEN m]
  have "(''price'', js_double L (req_price req)) \<in> set (place_members L req)"
    if "req_orderType req = F_LIMIT"
    using that by (simp add: place_members_def)
  note fprice = this [THEN m]
  have "getMessageType L (place_message L req) = Inr ''PLACE_ORDER''"
    unfolding place_message_def
    by (rule message_type [OF assms(1) place_members_distinct]) (simp add: place_members_def)
  then show ?thesis
    unfolding parsePlaceOrder_Inr
    using fields fprice json_scalars [OF assms(1)] assms(2,3) price by simp
qed

theorem place_message_roundtrip_witness:
  "parsePlaceOrder sample_json (place_message sample_json
     \<lparr>req_side = F_SELL, req_orderType = F_LIMIT, req_price = d101, req_quantity = 5\<rparr>) =
   Inr \<lparr>req_side = F_SELL, req_orderType = F_LIMIT, req_price = d101, req_quantity = 5\<rparr>"
proof -
  have "double_zero < d101"
    by (simp add: double_zero_def d101_def less_double_def not_nan_def is_nan_def dkey_def dneg_def dmag_def)
  then show ?thesis
    using place_message_roundtrip [OF sample_json_objects,
        of "\<lparr>req_side = F_SELL, req_orderType = F_LIMIT, req_price = d101, req_quantity = 5\<rparr>"]
    by (simp add: word_sless_alt)
qed

text \<open>
  The type of every message the server sends. Status changes of an order are sent as
  \<open>ORDER_STATUS\<close> with the member \<open>remaining\<close>, the book as \<open>ORDER_BOOK_UPDATE\<close>; the protocol
  document calls them \<open>ORDER_UPDATE\<close> with \<open>remainingQuantity\<close>, and \<open>ORDER_BOOK\<close>.
\<close>

lemma message_types:
  assumes "json_objects L"
  shows "getMessageType L (msg_orderAccepted L i) = Inr ''ORDER_ACCEPTED'' \<and>
    getMessageType L (msg_orderRejected L w) = Inr ''ORDER_REJECTED'' \<and>
    getMessageType L (msg_orderCancelled L i) = Inr ''ORDER_CANCELLED'' \<and>
    getMessageType L (msg_tradeEvent L t) = Inr ''TRADE'' \<and>
    getMessageType L (msg_orderUpdate L u) = Inr ''ORDER_STATUS'' \<and>
    js_contains L (msg_orderUpdate L u) ''remaining'' \<and>
    \<not> js_contains L (msg_orderUpdate L u) ''remainingQuantity'' \<and>
    getMessageType L (msg_orderBook L b) = Inr ''ORDER_BOOK_UPDATE'' \<and>
    getMessageType L (msg_metrics L m) = Inr ''METRICS'' \<and>
    getMessageType L (msg_error L w) = Inr ''ERROR''"
proof -
  have member: "js_contains L (js_object L kvs) k \<longleftrightarrow> k \<in> fst ` set kvs" if "distinct (map fst kvs)" for kvs k
    using assms that unfolding json_objects_def by blast
  show ?thesis
    unfolding message_defs by (simp add: message_type [OF assms] member)
qed

end
