(* ===== verification/Handler_Correct.thy ===== *)
theory Handler_Correct
  imports Request_Handler Protocol_Theorems
begin

text \<open>
  What \<open>RequestHandler::handle\<close> does, in terms of the request it was sent: \<open>read_request\<close> is the
  reading of a message (parsing, type, fields) as one function, and \<open>handle\<close> is reading followed
  by serving. Then the states of the server that its requests reach, and their invariant: the
  metrics agree with the engine.
\<close>

datatype request = Place place_order_request | Cancel cancel_order_request | Get_Metrics

definition read_fields :: "'j json_lib \<Rightarrow> 'j \<Rightarrow> string \<Rightarrow> request throws" where
  "read_fields L msg type =
     (if type = ''PLACE_ORDER'' then bind_throws (parsePlaceOrder L msg) (\<lambda>r. Inr (Place r))
      else if type = ''CANCEL_ORDER'' then bind_throws (parseCancelOrder L msg) (\<lambda>r. Inr (Cancel r))
      else if type = ''GET_METRICS'' then Inr Get_Metrics
      else Inl (ProtocolError (''Unknown message type: '' @ type)))"

definition read_request :: "'j json_lib \<Rightarrow> string \<Rightarrow> request throws" where
  "read_request L raw =
     bind_throws (protocol_parse L raw) (\<lambda>msg.
     bind_throws (getMessageType L msg) (\<lambda>type. read_fields L msg type))"

subsection \<open>Serving a request\<close>

definition serve_place ::
  "'j json_lib \<Rightarrow> u64 \<Rightarrow> place_order_request \<Rightarrow> server \<Rightarrow> (server \<times> 'j handle_result) option" where
  "serve_place L now req sv =
     (case place_locked now req sv of
        None \<Rightarrow> None
      | Some (sv', r) \<Rightarrow>
          if \<not> er_accepted r then Some (sv', direct (msg_orderRejected L (er_rejectReason r)))
          else
            Some (sv'\<lparr>srv_metrics := fold (\<lambda>t m. recordTrade (tm_quantity t) m) (er_trades r)
                                       (recordOrder (srv_metrics sv'))\<rparr>,
              \<lparr>directResponse = accepted_message L req (er_orderId r),
               broadcasts = map (msg_tradeEvent L) (er_trades r) @
                 map (msg_orderUpdate L) (filter (\<lambda>u. 0 \<le>s ou_remaining u) (er_orderUpdates r)) @
                 (if er_bookChanged r then [getOrderBookMessage L sv'] else [])\<rparr>))"

definition serve_cancel ::
  "'j json_lib \<Rightarrow> cancel_order_request \<Rightarrow> server \<Rightarrow> (server \<times> 'j handle_result) option" where
  "serve_cancel L req sv =
     (case cancel_locked req sv of
        None \<Rightarrow> None
      | Some (sv', c) \<Rightarrow>
          if \<not> cr_success c then Some (sv', direct (msg_orderRejected L (cr_reason c)))
          else
            Some (sv',
              \<lparr>directResponse = msg_orderCancelled L (cr_orderId c),
               broadcasts =
                 [msg_orderUpdate L \<lparr>ou_orderId = cr_orderId c, ou_status = CANCELLED, ou_remaining = 0\<rparr>,
                  getOrderBookMessage L sv']\<rparr>))"

definition serve ::
  "'j json_lib \<Rightarrow> u64 \<Rightarrow> double \<Rightarrow> request \<Rightarrow> server \<Rightarrow> (server \<times> 'j handle_result) option" where
  "serve L now secs req sv =
     (case req of
        Place r \<Rightarrow> serve_place L now r sv
      | Cancel r \<Rightarrow> serve_cancel L r sv
      | Get_Metrics \<Rightarrow> Some (sv, handleGetMetrics L secs sv))"

text \<open>The outcome when the reading of the request fails; undefined behaviour has none.\<close>

definition unread :: "'j json_lib \<Rightarrow> cpp_exception \<Rightarrow> 'j handle_result throws option" where
  "unread L e =
     (case e of ProtocolError m \<Rightarrow> Some (Inr (direct (msg_error L m)))
      | StdException w \<Rightarrow> Some (Inl (StdException w))
      | Undefined \<Rightarrow> None)"

lemma handle_serve:
  assumes "json_getters L"
  shows "handle L now secs raw sv =
    (case read_request L raw of
       Inl e \<Rightarrow> map_option (Pair sv) (unread L e)
     | Inr req \<Rightarrow> map_option (apsnd Inr) (serve L now secs req sv))"
proof (cases "protocol_parse L raw")
  case (Inl e)
  then show ?thesis by (cases e) (simp_all add: handle_def read_request_def unread_def)
next
  case (Inr msg)
  note only = requests_protocol_only [OF assms, of msg]
  show ?thesis
  proof (cases "getMessageType L msg")
    case (Inl e)
    then show ?thesis using Inr by (cases e) (simp_all add: handle_def read_request_def unread_def)
  next
    case type: (Inr type)
    have place: "handlePlaceOrder L now msg sv =
        (case parsePlaceOrder L msg of Inl e \<Rightarrow> raised sv e
         | Inr req \<Rightarrow> map_option (apsnd Inr) (serve_place L now req sv))"
      by (simp add: handlePlaceOrder_def serve_place_def Let_def split: option.splits sum.splits)
    have cancel: "handleCancelOrder L msg sv =
        (case parseCancelOrder L msg of Inl e \<Rightarrow> raised sv e
         | Inr req \<Rightarrow> map_option (apsnd Inr) (serve_cancel L req sv))"
      by (simp add: handleCancelOrder_def serve_cancel_def recordCancel_def Let_def
          split: option.splits sum.splits)
    show ?thesis
      using Inr type only
      by (auto simp: handle_def read_request_def read_fields_def dispatch_def place cancel unread_def
          raised_def serve_def split: option.splits sum.splits cpp_exception.splits)
  qed
qed


subsection \<open>The requests that reach the engine\<close>

lemma read_request_Place:
  assumes "json_no_nan L" and "read_request L raw = Inr (Place req)"
  shows "0 <s req_quantity req" and "req_orderType req = F_LIMIT \<Longrightarrow> double_zero < req_price req"
    and "req_orderType req = F_LIMIT \<longrightarrow> not_nan (req_price req)"
proof -
  obtain msg where raw: "js_parse L raw = Parsed msg" and p: "parsePlaceOrder L msg = Inr req"
    using assms(2)
    by (auto simp: read_request_def read_fields_def bind_throws_Inr protocol_parse_def
        split: if_splits parsed.splits)
  show "0 <s req_quantity req" using p unfolding parsePlaceOrder_Inr by blast
  show nn: "req_orderType req = F_LIMIT \<longrightarrow> not_nan (req_price req)"
    using assms(1) raw p unfolding parsePlaceOrder_Inr json_no_nan_def by (metis (full_types))
  show "double_zero < req_price req" if l: "req_orderType req = F_LIMIT"
  proof -
    have "\<not> req_price req \<le> double_zero" using p l unfolding parsePlaceOrder_Inr by simp
    moreover have "not_nan double_zero" by (simp add: double_zero_def not_nan_def is_nan_def dmag_def)
    ultimately show ?thesis using nn l by (simp add: not_nan_le not_nan_less)
  qed
qed

subsection \<open>Reachable server states and their invariant\<close>

inductive server_reachable :: "'j json_lib \<Rightarrow> server \<Rightarrow> bool" for L :: "'j json_lib" where
  server_init: "server_reachable L initial_server"
| server_handle: "server_reachable L sv \<Longrightarrow> handle L now secs raw sv = Some (sv', res) \<Longrightarrow>
    server_reachable L sv'"

definition metrics_agree :: "server \<Rightarrow> bool" where
  "metrics_agree sv \<longleftrightarrow>
     (let a = srv_adapter sv; m = srv_metrics sv; ts = getRecentTrades (adapter_engine a) in
        activeOrders m = of_nat (length (open_orders a)) \<and>
        tradesExecuted m = of_nat (length ts) \<and>
        totalVolume m = of_nat (volume ts))"

lemma sum_list_of_nat_unat: "(of_nat (sum_list (map (\<lambda>x. unat (f x)) xs)) :: i64) = sum_list (map f xs)"
  by (induction xs) simp_all

lemma recordTrades_trades:
  "fold (\<lambda>t m. recordTrade (tm_quantity t) m) (map to_trade_msg ts) m =
     m\<lparr>tradesExecuted := tradesExecuted m + of_nat (length ts), totalVolume := totalVolume m + of_nat (volume ts)\<rparr>"
proof -
  have "fold (\<lambda>t m. recordTrade (tm_quantity t) m) (map to_trade_msg ts) m =
      fold (\<lambda>v m. recordTrade v m) (map trade_quantity ts) m"
    by (simp add: fold_map o_def to_trade_msg_def)
  then show ?thesis by (simp add: recordTrades volume_def sum_list_of_nat_unat)
qed

lemma volume_append: "volume (xs @ ys) = volume xs + volume ys"
  by (simp add: volume_def)

lemma serve_place_keeps:
  assumes a: "adapter_reachable (srv_adapter sv)" and m: "metrics_agree sv" and q: "0 <s req_quantity req"
    and p: "req_orderType req = F_LIMIT \<longrightarrow> not_nan (req_price req)"
    and s: "serve_place L now req sv = Some (sv', res)"
  shows "adapter_reachable (srv_adapter sv') \<and> metrics_agree sv'"
proof -
  obtain a' r where pl: "adapter_placeOrder now (req_side req) (req_orderType req) (req_price req)
      (req_quantity req) (srv_adapter sv) = Some (a', r)" and a': "srv_adapter sv' = a'"
    using s by (auto simp: serve_place_def place_locked_def split: option.splits if_splits)
  note trades = adapter_place_trades [OF adapter_reachable_inv [OF a] p pl]
  have re: "adapter_reachable a'" by (rule adapter_place [OF a p pl])
  show ?thesis
  proof (cases "er_accepted r")
    case True
    have "srv_metrics sv' = fold (\<lambda>t m. recordTrade (tm_quantity t) m) (er_trades r)
        (recordOrder (setActiveOrders (getActiveOrderCount a') (srv_metrics sv)))"
      using s pl True by (auto simp: serve_place_def place_locked_def)
    then show ?thesis
      using m re unfolding trades(2) recordTrades_trades
      by (simp add: a' metrics_agree_def Let_def getRecentTrades_def trades(1) recordOrder_def
          setActiveOrders_def getActiveOrderCount_def volume_append)
  next
    case False
    have "srv_metrics sv' = setActiveOrders (getActiveOrderCount a') (srv_metrics sv)"
      using s pl False by (auto simp: serve_place_def place_locked_def)
    moreover have "getRecentTrades (adapter_engine a') = getRecentTrades (adapter_engine (srv_adapter sv))"
      by (rule rejected_trade_log [OF a p q pl False])
    ultimately show ?thesis
      using m re by (simp add: a' metrics_agree_def Let_def setActiveOrders_def getActiveOrderCount_def)
  qed
qed

lemma serve_cancel_keeps:
  assumes a: "adapter_reachable (srv_adapter sv)" and m: "metrics_agree sv"
    and s: "serve_cancel L req sv = Some (sv', res)"
  shows "adapter_reachable (srv_adapter sv') \<and> metrics_agree sv'"
proof -
  obtain a' c where pl: "adapter_cancelOrder (req_orderId req) (srv_adapter sv) = Some (a', c)"
    and sv': "sv' = sv\<lparr>srv_adapter := a', srv_metrics := setActiveOrders (getActiveOrderCount a') (srv_metrics sv)\<rparr>"
    using s by (auto simp: serve_cancel_def cancel_locked_def split: option.splits if_splits)
  have "recentTrades (adapter_engine a') = recentTrades (adapter_engine (srv_adapter sv))"
    by (rule adapter_cancel_outcome [OF adapter_reachable_inv [OF a], of "req_orderId req"]) (use pl in auto)
  then show ?thesis
    using m adapter_cancel [OF a pl]
    by (simp add: sv' metrics_agree_def Let_def setActiveOrders_def getActiveOrderCount_def getRecentTrades_def)
qed

lemma server_reachable_inv:
  assumes "json_getters L" and "json_no_nan L" and "server_reachable L sv"
  shows "adapter_reachable (srv_adapter sv) \<and> metrics_agree sv"
  using assms(3)
proof (induction rule: server_reachable.induct)
  case server_init
  show ?case
    by (simp add: initial_server_def adapter_init metrics_agree_def Let_def initial_metrics_def volume_def)
       (simp add: initial_adapter_def initial_engine_def engine_getOpenOrders_def getOpenOrders_queues
          getRecentTrades_def volume_def)
next
  case (server_handle sv now secs raw sv' res)
  show ?case
  proof (cases "read_request L raw")
    case (Inl e)
    then have "sv' = sv" using server_handle.hyps handle_serve [OF assms(1), of now secs raw sv] by auto
    then show ?thesis using server_handle.IH by simp
  next
    case (Inr req)
    then obtain r where s: "serve L now secs req sv = Some (sv', r)"
      using server_handle.hyps handle_serve [OF assms(1), of now secs raw sv] by auto
    show ?thesis
    proof (cases req)
      case (Place pr)
      note pr = read_request_Place [OF assms(2) Inr [unfolded Place]]
      show ?thesis
        using serve_place_keeps [OF _ _ pr(1,3)] server_handle.IH s unfolding Place serve_def request.case
        by blast
    next
      case (Cancel c)
      then show ?thesis using serve_cancel_keeps server_handle.IH s by (simp add: serve_def) blast
    next
      case Get_Metrics
      then show ?thesis using server_handle.IH s by (simp add: serve_def)
    qed
  qed
qed

end
