(* ===== verification/Handler_Theorems.thy ===== *)
theory Handler_Theorems
  imports Handler_Correct
begin

text \<open>
  The properties of the request handler and of the server's state: the outcome of every kind of
  request, the messages it sends, and the agreement of the metrics with the engine.
\<close>

subsection \<open>The outcome of placing an order\<close>

lemma nonneg_less:
  assumes "0 <s (q::i64)" and "n < q"
  shows "0 \<le>s n"
proof -
  have "uint q < 2 ^ 63"
    using i64_pos_unat(2) [OF assms(1)] sint_range_size [of q] by (simp add: word_size)
  then have "n \<le> 0x7FFFFFFFFFFFFFFF" using assms(2) by (simp add: word_less_def word_le_def)
  then show ?thesis by (simp add: word_sle_eq i64_nonneg)
qed

lemma new_trades_empty:
  assumes "reachable e'" and "recentTrades e' = recentTrades e @ new_trades e e'"
  shows "volume (new_trades e e') = 0 \<longleftrightarrow> new_trades e e' = []"
proof -
  have "\<forall>t\<in>set (recentTrades e'). 0 < trade_quantity t"
    using reachable_engine_inv [OF assms(1)] by (simp add: engine_inv_def log_wf_def Let_def)
  then have "\<forall>t\<in>set (new_trades e e'). 0 < unat (trade_quantity t)"
    unfolding assms(2) by (auto simp: unat_gt_0_word)
  then show ?thesis by (auto simp: volume_def)
qed

lemma spec_result_sent:
  assumes q: "0 <s q" and acc: "er_accepted (spec_result i t q ts (map resting_update fs) n)"
    and id: "\<forall>f\<in>set fs. orderId (fst f) \<noteq> i" and vol: "volume ts + unat n = unat q"
  defines "us \<equiv> filter (\<lambda>u. 0 \<le>s ou_remaining u)
    (er_orderUpdates (spec_result i t q ts (map resting_update fs) n))"
  shows "(\<forall>j. j \<noteq> i \<longrightarrow> ((\<exists>u\<in>set us. ou_orderId u = j) \<longleftrightarrow>
      (\<exists>f\<in>set fs. orderId (fst f) = j \<and> snd f = remainingQuantity (fst f)))) \<and>
    (\<forall>u\<in>set us. ou_orderId u = i \<or> ou_status u = FILLED \<and> ou_remaining u = 0) \<and>
    ((\<exists>u\<in>set us. ou_orderId u = i) \<longleftrightarrow> volume ts \<noteq> 0)"
proof -
  have zero: "0 \<le>s (0 :: i64)" by (simp add: word_sle_eq)
  have neg: "\<not> 0 \<le>s (- 1 :: i64)" by (simp add: word_sle_eq)
  have n: "n \<noteq> 0 \<Longrightarrow> n < q \<Longrightarrow> 0 \<le>s n" using nonneg_less [OF q] by blast
  have lt: "n = 0 \<or> n < q \<longleftrightarrow> volume ts \<noteq> 0"
    using vol i64_pos_unat(1) [OF q] by (auto simp: word_less_nat_alt unat_eq_zero)
  have us: "us = map resting_update (filter (\<lambda>f. snd f = remainingQuantity (fst f)) fs) @
      (if n = 0 then [\<lparr>ou_orderId = i, ou_status = FILLED, ou_remaining = n\<rparr>]
       else if n < q then [\<lparr>ou_orderId = i, ou_status = PARTIALLY_FILLED, ou_remaining = n\<rparr>] else [])"
  proof -
    have rest: "filter (\<lambda>u. 0 \<le>s ou_remaining u) (map resting_update fs) =
        map resting_update (filter (\<lambda>f. snd f = remainingQuantity (fst f)) fs)"
      by (induction fs) (simp_all add: neg zero)
    consider "n = 0" | "n \<noteq> 0" "n < q" | "n \<noteq> 0" "\<not> n < q" by blast
    then show ?thesis
      by cases (simp_all add: us_def spec_result_def Let_def rest n zero)
  qed
  have own: "(\<exists>u\<in>set us. ou_orderId u = j) \<longleftrightarrow>
      (\<exists>f\<in>set fs. orderId (fst f) = j \<and> snd f = remainingQuantity (fst f))" if "j \<noteq> i" for j
    using that unfolding us by (simp add: bex_Un) (metis fst_conv prod.collapse snd_conv)
  have "\<forall>u\<in>set us. ou_orderId u = i \<or> ou_status u = FILLED \<and> ou_remaining u = 0"
    unfolding us by auto
  moreover have "(\<exists>u\<in>set us. ou_orderId u = i) \<longleftrightarrow> n = 0 \<or> n < q"
    using id unfolding us by (simp add: bex_Un)
  ultimately show ?thesis using own lt by blast
qed


lemma serve_place_messages:
  fixes sv :: server
  assumes pl: "adapter_placeOrder now (req_side req) (req_orderType req) (req_price req)
      (req_quantity req) (srv_adapter sv) = Some (a', r)"
    and r: "er_accepted r" "er_bookChanged r" "er_trades r = map to_trade_msg new"
    and s: "serve_place L now req sv = Some (sv', res)"
  shows "ordersProcessed (srv_metrics sv') = ordersProcessed (srv_metrics sv) + 1"
    and "res = \<lparr>directResponse = accepted_message L req (er_orderId r),
      broadcasts = map (msg_tradeEvent L \<circ> to_trade_msg) new @
        map (msg_orderUpdate L) (filter (\<lambda>u. 0 \<le>s ou_remaining u) (er_orderUpdates r)) @
        [getOrderBookMessage L sv']\<rparr>"
proof -
  define sv1 where "sv1 = sv\<lparr>srv_adapter := a',
    srv_metrics := setActiveOrders (getActiveOrderCount a') (srv_metrics sv)\<rparr>"
  have sv1: "place_locked now req sv = Some (sv1, r)"
    and m1: "srv_metrics sv1 = setActiveOrders (getActiveOrderCount a') (srv_metrics sv)"
    using pl by (simp_all add: place_locked_def sv1_def)
  have sv': "sv' = sv1\<lparr>srv_metrics := fold (\<lambda>t m. recordTrade (tm_quantity t) m) (er_trades r)
      (recordOrder (srv_metrics sv1))\<rparr>"
    and res: "res = \<lparr>directResponse = accepted_message L req (er_orderId r),
        broadcasts = map (msg_tradeEvent L) (er_trades r) @
          map (msg_orderUpdate L) (filter (\<lambda>u. 0 \<le>s ou_remaining u) (er_orderUpdates r)) @
          (if er_bookChanged r then [getOrderBookMessage L sv1] else [])\<rparr>"
    using s r(1) unfolding serve_place_def sv1 by auto
  show "ordersProcessed (srv_metrics sv') = ordersProcessed (srv_metrics sv) + 1"
    unfolding sv' r(3) recordTrades_trades by (simp add: m1 recordOrder_def setActiveOrders_def)
  have book: "getOrderBookMessage L sv1 = getOrderBookMessage L sv'"
    by (simp add: getOrderBookMessage_def sv')
  show "res = \<lparr>directResponse = accepted_message L req (er_orderId r),
      broadcasts = map (msg_tradeEvent L \<circ> to_trade_msg) new @
        map (msg_orderUpdate L) (filter (\<lambda>u. 0 \<le>s ou_remaining u) (er_orderUpdates r)) @
        [getOrderBookMessage L sv']\<rparr>"
    unfolding res book r(3) using r(2) by simp
qed

text \<open>What the adapter's result of an accepted order lets the handler broadcast.\<close>

lemma adapter_place_updates:
  fixes t :: forder_type and ad :: adapter
  assumes a: "adapter_reachable ad" and q: "0 <s q" and p: "t = F_LIMIT \<longrightarrow> not_nan pr"
    and pl: "adapter_placeOrder now s t pr q ad = Some (a', r)"
  defines "new \<equiv> new_trades (adapter_engine ad) (adapter_engine a')"
    and "i \<equiv> nextOrderId ad" and "us \<equiv> filter (\<lambda>u. 0 \<le>s ou_remaining u) (er_orderUpdates r)"
  shows "er_accepted r \<longleftrightarrow> \<not> (t = F_MARKET \<and> new = [])"
    and "er_trades r = map to_trade_msg new \<and> er_orderId r = i \<and> er_bookChanged r"
    and "er_accepted r \<Longrightarrow>
      (\<forall>j. j \<noteq> i \<longrightarrow> ((\<exists>u\<in>set us. ou_orderId u = j) \<longleftrightarrow>
        j \<in> orderId ` set (open_orders ad) \<and> j \<notin> orderId ` set (open_orders a'))) \<and>
      (\<forall>u\<in>set us. ou_orderId u = i \<or> ou_status u = FILLED \<and> ou_remaining u = 0) \<and>
      ((\<exists>u\<in>set us. ou_orderId u = i) \<longleftrightarrow> new \<noteq> [])"
proof -
  let ?b = "orderBook (adapter_engine ad)"
  let ?x = "make_order i s t pr q now"
  note inv = adapter_reachable_inv [OF a]
  have wf: "book_wf ?b" using inv reachable_book_wf by (simp add: adapter_inv_def)
  have some: "adapter_placeOrder now s t pr q ad \<noteq> None" using pl by simp
  obtain e' evs fs n where f: "fills (crosses ?x) q (opp_queue (side ?x) ?b) = (fs, n, opp_queue (side ?x) (orderBook e'))"
    and own: "own_queue (side ?x) (orderBook e') = (if n \<noteq> 0 \<and> t = F_LIMIT
      then enqueue (?x\<lparr>remainingQuantity := n\<rparr>) (own_queue (side ?x) ?b) else own_queue (side ?x) ?b)"
    and out: "adapter_placeOrder now s t pr q ad =
      Some (ad\<lparr>adapter_engine := e', nextOrderId := nextOrderId ad + 1\<rparr>,
            spec_result i t q (new_trades (adapter_engine ad) e') (map resting_update fs) n)"
    and vol: "volume (new_trades (adapter_engine ad) e') + unat n = unat q"
    unfolding i_def by (rule adapter_place_outcome [OF inv some p])
  have e': "adapter_engine a' = e'" and r: "r = spec_result i t q new (map resting_update fs) n"
    and new: "new = new_trades (adapter_engine ad) e'"
    using out pl by (auto simp: new_def)
  have "reachable e'" using adapter_inv_place [OF inv p pl] e' by (simp add: adapter_inv_def)
  moreover have "recentTrades e' = recentTrades (adapter_engine ad) @ new_trades (adapter_engine ad) e'"
    using adapter_place_trades(1) [OF inv p pl] by (simp add: e')
  ultimately have empty: "volume new = 0 \<longleftrightarrow> new = []" unfolding new by (rule new_trades_empty)
  show "er_accepted r \<longleftrightarrow> \<not> (t = F_MARKET \<and> new = [])"
    using vol i64_pos_unat(1) [OF q] unfolding empty [symmetric] r new [symmetric]
    by (auto simp: spec_result_def Let_def word_less_nat_alt unat_eq_zero)
  show "er_trades r = map to_trade_msg new \<and> er_orderId r = i \<and> er_bookChanged r"
    by (simp add: r spec_result_def Let_def)
  have own': "own_queue (side ?x) (orderBook e') = own_queue (side ?x) ?b \<or>
      own_queue (side ?x) (orderBook e') = enqueue (?x\<lparr>remainingQuantity := n\<rparr>) (own_queue (side ?x) ?b)"
    unfolding own by simp
  have "set (map fst fs) \<subseteq> set (opp_queue (side ?x) ?b)"
    unfolding fills_prefix [OF f] by (rule set_take_subset)
  then have ids: "\<forall>f\<in>set fs. orderId (fst f) \<noteq> i"
    using inv open_idsI(3) unfolding adapter_inv_def i_def by fastforce
  have other: "(\<exists>f\<in>set fs. orderId (fst f) = j \<and> snd f = remainingQuantity (fst f)) \<longleftrightarrow>
      j \<in> orderId ` set (open_orders ad) \<and> j \<notin> orderId ` set (open_orders a')" if "j \<noteq> i" for j
    unfolding engine_getOpenOrders_def e'
    by (rule place_other_orders(1) [OF wf f own']) (use that in simp)
  assume "er_accepted r"
  then show "(\<forall>j. j \<noteq> i \<longrightarrow> ((\<exists>u\<in>set us. ou_orderId u = j) \<longleftrightarrow>
        j \<in> orderId ` set (open_orders ad) \<and> j \<notin> orderId ` set (open_orders a'))) \<and>
      (\<forall>u\<in>set us. ou_orderId u = i \<or> ou_status u = FILLED \<and> ou_remaining u = 0) \<and>
      ((\<exists>u\<in>set us. ou_orderId u = i) \<longleftrightarrow> new \<noteq> [])"
    using spec_result_sent [OF q _ ids, of t new n] vol other unfolding us_def r new [symmetric] empty by simp
qed

text \<open>What serving an accepted order returns.\<close>

lemma serve_place_accepted:
  fixes sv :: server
  assumes a: "adapter_reachable (srv_adapter sv)" and q: "0 <s req_quantity req"
    and p: "req_orderType req = F_LIMIT \<longrightarrow> not_nan (req_price req)"
    and s: "serve_place L now req sv = Some (sv', res)"
  defines "new \<equiv> new_trades (adapter_engine (srv_adapter sv)) (adapter_engine (srv_adapter sv'))"
    and "i \<equiv> nextOrderId (srv_adapter sv)"
  shows "if req_orderType req = F_MARKET \<and> new = []
    then res = direct (msg_orderRejected L ''No liquidity for market order'') \<and>
      ordersProcessed (srv_metrics sv') = ordersProcessed (srv_metrics sv)
    else ordersProcessed (srv_metrics sv') = ordersProcessed (srv_metrics sv) + 1 \<and>
      (\<exists>us. res = \<lparr>directResponse = accepted_message L req i,
           broadcasts = map (msg_tradeEvent L \<circ> to_trade_msg) new @ map (msg_orderUpdate L) us @
             [getOrderBookMessage L sv']\<rparr> \<and>
         (\<forall>j. j \<noteq> i \<longrightarrow> ((\<exists>u\<in>set us. ou_orderId u = j) \<longleftrightarrow>
            j \<in> orderId ` set (open_orders (srv_adapter sv)) \<and>
            j \<notin> orderId ` set (open_orders (srv_adapter sv')))) \<and>
         (\<forall>u\<in>set us. ou_orderId u = i \<or> ou_status u = FILLED \<and> ou_remaining u = 0) \<and>
         ((\<exists>u\<in>set us. ou_orderId u = i) \<longleftrightarrow> new \<noteq> []))"
proof -
  obtain a' r where pl: "adapter_placeOrder now (req_side req) (req_orderType req) (req_price req)
      (req_quantity req) (srv_adapter sv) = Some (a', r)"
    and a': "a' = srv_adapter sv'"
    using s by (auto simp: serve_place_def place_locked_def split: option.splits if_splits)
  note updates = adapter_place_updates [OF a q p pl [unfolded a'], folded new_def i_def]
  show ?thesis
  proof (cases "er_accepted r")
    case False
    then have "res = direct (msg_orderRejected L (er_rejectReason r))"
      and "srv_metrics sv' = setActiveOrders (getActiveOrderCount a') (srv_metrics sv)"
      using s pl by (auto simp: serve_place_def place_locked_def)
    then show ?thesis
      using False updates(1) rejected_effect [OF a p q pl False] by (simp add: setActiveOrders_def)
  next
    case True
    then have "\<not> (req_orderType req = F_MARKET \<and> new = [])" using updates(1) by blast
    moreover note updates(3) [OF True]
    moreover note serve_place_messages [OF pl True _ _ s, of new] updates(2)
    ultimately show ?thesis
      by (simp only: if_False) (intro conjI exI [of _ "filter (\<lambda>u. 0 \<le>s ou_remaining u) (er_orderUpdates r)"]; simp)
  qed
qed


subsection \<open>A server that has served one request\<close>

definition sample_serve :: "string \<Rightarrow> server \<Rightarrow> server" where
  "sample_serve raw sv = fst (the (handle sample_json 0 double_zero raw sv))"

definition server_one :: server where
  "server_one = sample_serve ''buy 100 at 100'' initial_server"

lemma server_one_state:
  "server_one = \<lparr>srv_adapter = adapter_one,
     srv_metrics = \<lparr>ordersProcessed = 1, tradesExecuted = 0, activeOrders = 1, totalVolume = 0\<rparr>\<rparr>"
  by (simp add: server_one_def sample_serve_def adapter_one_state)
     (simp add: server_simps sample_json_simps sample_eval d100_def word_sle_eq)

lemma server_one_step:
  "handle sample_json 0 double_zero ''buy 100 at 100'' initial_server \<noteq> None"
  by (simp add: server_simps sample_json_simps sample_eval d100_def word_sle_eq)

lemma server_one_reachable: "server_reachable sample_json server_one"
proof -
  obtain sv' res where "handle sample_json 0 double_zero ''buy 100 at 100'' initial_server = Some (sv', res)"
    using server_one_step by auto
  then show ?thesis
    unfolding server_one_def sample_serve_def using server_handle [OF server_init] by simp
qed


section \<open>The properties\<close>

text \<open>
  The metrics agree with the engine. In every state the requests of clients reach, the active
  orders of the metrics are the open orders of the book, the executed trades those of the trade
  log, and the total volume the sum of their quantities (as 64-bit counters).
\<close>

lemma metrics_agree_with_engine:
  assumes "json_getters L" and "json_no_nan L" and "server_reachable L sv"
  shows "activeOrders (srv_metrics sv) = of_nat (length (open_orders (srv_adapter sv))) \<and>
    tradesExecuted (srv_metrics sv) = of_nat (length (getRecentTrades (adapter_engine (srv_adapter sv)))) \<and>
    totalVolume (srv_metrics sv) = of_nat (volume (getRecentTrades (adapter_engine (srv_adapter sv))))"
  using server_reachable_inv [OF assms] by (simp add: metrics_agree_def Let_def)

lemma null_messages:
  assumes "json_objects L"
  shows "\<not> js_is_null L (accepted_message L req i)" and "\<not> js_is_null L (msg_orderRejected L w)"
    and "\<not> js_is_null L (msg_orderCancelled L i)" and "\<not> js_is_null L (msg_metrics L m)"
    and "\<not> js_is_null L (msg_error L w)"
proof -
  have null: "\<not> js_is_null L (js_object L kvs)" if "distinct (map fst kvs)" for kvs
    using assms that unfolding json_objects_def by blast
  have set: "js_set L (js_object L kvs) k v = js_object L (kvs @ [(k, v)])"
    if "distinct (map fst kvs)" "k \<notin> fst ` set kvs" for kvs k v
    using assms that unfolding json_objects_def by blast
  show "\<not> js_is_null L (accepted_message L req i)"
    by (simp add: accepted_message_def msg_orderAccepted_def Let_def null set)
  show "\<not> js_is_null L (msg_orderRejected L w)" "\<not> js_is_null L (msg_orderCancelled L i)"
    "\<not> js_is_null L (msg_metrics L m)" "\<not> js_is_null L (msg_error L w)"
    unfolding message_defs by (simp_all add: null)
qed

lemma positive_nonneg: "0 <s (q::i64) \<Longrightarrow> 0 \<le>s q"
  by (simp add: word_sless_alt word_sle_eq)

lemma serve_defined:
  assumes a: "adapter_reachable (srv_adapter sv)" and room: "nextOrderId (srv_adapter sv) \<noteq> INT64_MAX"
    and p: "\<And>pr. req = Place pr \<Longrightarrow> req_orderType pr = F_LIMIT \<longrightarrow> not_nan (req_price pr)"
    and q: "\<And>pr. req = Place pr \<Longrightarrow> 0 <s req_quantity pr"
    and L: "json_objects L"
  obtains sv' r where "serve L now secs req sv = Some (sv', r)" and "\<not> js_is_null L (directResponse r)"
proof (cases req)
  case (Place pr)
  obtain a' r where "adapter_placeOrder now (req_side pr) (req_orderType pr) (req_price pr)
      (req_quantity pr) (srv_adapter sv) = Some (a', r)"
    using adapter_place_defined [OF adapter_reachable_inv [OF a] room p [OF Place] positive_nonneg [OF q [OF Place]]]
    by fastforce
  then show thesis
    using null_messages [OF L] that [unfolded Place serve_def serve_place_def place_locked_def]
    by (cases "er_accepted r") (simp_all add: direct_def)
next
  case (Cancel c)
  obtain a' r where "adapter_cancelOrder (req_orderId c) (srv_adapter sv) = Some (a', r)"
    using adapter_cancel_outcome [OF adapter_reachable_inv [OF a]] by metis
  then show thesis
    using null_messages [OF L] that [unfolded Cancel serve_def serve_cancel_def cancel_locked_def]
    by (cases "cr_success r") (simp_all add: direct_def)
next
  case Get_Metrics
  then show thesis
    using that null_messages [OF L] by (auto simp: serve_def handleGetMetrics_def direct_def)
qed

lemma read_request_StdException:
  assumes "json_getters L"
  shows "read_request L raw = Inl (StdException w) \<longleftrightarrow> raw \<noteq> [] \<and> js_parse L raw = Parse_Exception w"
proof -
  have "protocol_only (read_fields L msg type)" for msg type
    using requests_protocol_only [OF assms, of msg] unfolding read_fields_def
    by (intro protocol_only_intros protocol_only_bind) (simp_all add: protocol_only_def)
  then show ?thesis
    using requests_protocol_only [OF assms]
    by (cases "protocol_parse L raw"; cases "getMessageType L (projr (protocol_parse L raw))")
      (auto simp: read_request_def protocol_only_def protocol_parse_def split: if_splits parsed.splits)
qed

lemma bind_throws_Undefined:
  "bind_throws m f = Inl Undefined \<longleftrightarrow> m = Inl Undefined \<or> (\<exists>x. m = Inr x \<and> f x = Inl Undefined)"
  by (cases m) simp_all

lemma protocol_parse_Undefined: "protocol_parse L raw \<noteq> Inl Undefined"
  by (simp add: protocol_parse_def split: parsed.splits)

lemma protocol_parse_Inr: "protocol_parse L raw = Inr msg \<longleftrightarrow> raw \<noteq> [] \<and> js_parse L raw = Parsed msg"
  by (simp add: protocol_parse_def split: parsed.splits)

lemma lib_Undefined: "lib m \<noteq> Inl Undefined"
  by (cases m) simp_all

lemma guard_Undefined:
  "(if c then Inl (ProtocolError e) else m) = Inl Undefined \<longleftrightarrow> \<not> c \<and> m = Inl Undefined"
  by simp

lemma when_Undefined: "(if c then m else Inr x) = Inl Undefined \<longleftrightarrow> c \<and> m = Inl Undefined"
  by simp

lemma lib_defined_Undefined: "lib_defined m = Inl Undefined \<longleftrightarrow> m = None"
  by (cases m) (simp_all add: lib_Undefined)

lemma getMessageType_Undefined: "getMessageType L msg \<noteq> Inl Undefined"
  by (simp add: getMessageType_def lib_Undefined)

lemma getMessageType_Inr:
  "getMessageType L msg = Inr t \<longleftrightarrow> js_contains L msg ''type'' \<and>
     js_is_string L (js_at L msg ''type'') \<and> js_get_string L (js_at L msg ''type'') = Inr t"
  by (auto simp: getMessageType_def)

lemma parse_names_Undefined: "parseSide s \<noteq> Inl Undefined" "parseOrderType s \<noteq> Inl Undefined"
  by (simp_all add: parseSide_def parseOrderType_def)

lemma validatePlaceOrder_Undefined:
  "validatePlaceOrder L msg = Inl Undefined \<longleftrightarrow>
     js_contains L msg ''side'' \<and> js_is_string L (js_at L msg ''side'') \<and>
     js_contains L msg ''orderType'' \<and> js_is_string L (js_at L msg ''orderType'') \<and>
     js_contains L msg ''quantity'' \<and> js_is_number L (js_at L msg ''quantity'') \<and>
     js_get_int64 L (js_at L msg ''quantity'') = None"
proof -
  have "validatePlaceOrder L msg = Inl Undefined \<longleftrightarrow>
      \<not> (\<not> js_contains L msg ''side'' \<or> \<not> js_is_string L (js_at L msg ''side'')) \<and>
      \<not> (\<not> js_contains L msg ''orderType'' \<or> \<not> js_is_string L (js_at L msg ''orderType'')) \<and>
      \<not> (\<not> js_contains L msg ''quantity'' \<or> \<not> js_is_number L (js_at L msg ''quantity'')) \<and>
      js_get_int64 L (js_at L msg ''quantity'') = None"
    unfolding validatePlaceOrder_def guard_Undefined bind_throws_Undefined lib_defined_Undefined
    by (simp add: bind_throws_Undefined lib_Undefined)
  then show ?thesis by blast
qed

lemma parsePlaceOrder_Undefined:
  "parsePlaceOrder L msg = Inl Undefined \<longleftrightarrow> validatePlaceOrder L msg = Inl Undefined"
  by (auto simp: parsePlaceOrder_def bind_throws_Undefined lib_Undefined lib_defined_Undefined
      parse_names_Undefined validatePlaceOrder_Inr)

lemma parseCancelOrder_Undefined:
  "parseCancelOrder L msg = Inl Undefined \<longleftrightarrow>
     js_contains L msg ''orderId'' \<and> js_is_number L (js_at L msg ''orderId'') \<and>
     js_get_int64 L (js_at L msg ''orderId'') = None"
  by (auto simp: parseCancelOrder_def validateCancelOrder_def bind_throws_Undefined lib_defined_Undefined)

lemma read_fields_Undefined:
  "read_fields L msg t = Inl Undefined \<longleftrightarrow>
     t = ''PLACE_ORDER'' \<and> parsePlaceOrder L msg = Inl Undefined \<or>
     t = ''CANCEL_ORDER'' \<and> parseCancelOrder L msg = Inl Undefined"
  by (simp add: read_fields_def bind_throws_Undefined)

text \<open>
  C32: the only undefined behaviour in the reading of a request is the conversion of a number that
  no \<open>std::int64_t\<close> can hold, and it is met exactly by a \<open>PLACE_ORDER\<close> with its side and order type
  and such a quantity, and by a \<open>CANCEL_ORDER\<close> with such an order id: the validation checks that
  they are numbers, and nothing checks their range before \<open>get<std::int64_t>()\<close>.
\<close>

theorem reading_undefined_exactly:
  "read_request L raw = Inl Undefined \<longleftrightarrow>
     raw \<noteq> [] \<and> (\<exists>msg t. js_parse L raw = Parsed msg \<and>
       js_contains L msg ''type'' \<and> js_is_string L (js_at L msg ''type'') \<and>
       js_get_string L (js_at L msg ''type'') = Inr t \<and>
       (t = ''PLACE_ORDER'' \<and>
          js_contains L msg ''side'' \<and> js_is_string L (js_at L msg ''side'') \<and>
          js_contains L msg ''orderType'' \<and> js_is_string L (js_at L msg ''orderType'') \<and>
          js_contains L msg ''quantity'' \<and> js_is_number L (js_at L msg ''quantity'') \<and>
          js_get_int64 L (js_at L msg ''quantity'') = None \<or>
        t = ''CANCEL_ORDER'' \<and>
          js_contains L msg ''orderId'' \<and> js_is_number L (js_at L msg ''orderId'') \<and>
          js_get_int64 L (js_at L msg ''orderId'') = None))"
  unfolding read_request_def bind_throws_Undefined protocol_parse_Inr getMessageType_Inr
    read_fields_Undefined parsePlaceOrder_Undefined validatePlaceOrder_Undefined parseCancelOrder_Undefined
  by (simp add: protocol_parse_Undefined getMessageType_Undefined)

theorem reading_undefined_exactly_witness:
  "read_request sample_json ''buy 1e300 at market'' = Inl Undefined"
  unfolding reading_undefined_exactly
  by (simp add: sample_json_simps)

lemma answered:
  assumes "json_getters L" and "json_no_nan L" and "json_objects L" and "server_reachable L sv"
    and "nextOrderId (srv_adapter sv) \<noteq> INT64_MAX" and "\<forall>w. js_parse L raw \<noteq> Parse_Exception w"
    and "read_request L raw \<noteq> Inl Undefined"
  shows "\<exists>sv' r. handle L now secs raw sv = Some (sv', Inr r) \<and> \<not> js_is_null L (directResponse r)"
proof (cases "read_request L raw")
  case (Inl e)
  then obtain m where "e = ProtocolError m"
    using read_request_StdException [OF assms(1)] assms(6,7) by (cases e) auto
  then show ?thesis
    using Inl handle_serve [OF assms(1)] null_messages(5) [OF assms(3)] by (simp add: unread_def direct_def)
next
  case (Inr req)
  obtain sv' r where "serve L now secs req sv = Some (sv', r)" "\<not> js_is_null L (directResponse r)"
    using serve_defined [OF _ assms(5) _ _ assms(3)] server_reachable_inv [OF assms(1,2,4)]
      read_request_Place(1,3) [OF assms(2)] Inr by metis
  then show ?thesis using Inr handle_serve [OF assms(1)] by simp
qed




text \<open>Every request that can be read is served by that server.\<close>

lemma every_step_defined:
  assumes "read_request sample_json raw \<noteq> Inl Undefined"
  shows "handle sample_json now secs raw server_one \<noteq> None"
proof (cases "read_request sample_json raw")
  case (Inl e)
  then show ?thesis
    using assms handle_serve [OF sample_json_getters] by (cases e) (simp_all add: unread_def)
next
  case (Inr req)
  have "adapter_reachable (srv_adapter server_one)" "nextOrderId (srv_adapter server_one) \<noteq> INT64_MAX"
    by (simp_all add: server_one_state adapter_one_reachable) (simp add: adapter_one_state INT64_MAX_def)
  then show ?thesis
    using serve_defined [OF _ _ _ _ sample_json_objects, of server_one req now secs]
      read_request_Place(1,3) [OF sample_json_no_nan] Inr handle_serve [OF sample_json_getters]
    by (metis option.map_disc_iff option.distinct(1) sum.simps(6))
qed

text \<open>
  C25: a request that is not valid changes nothing. If reading it (as JSON, its type, its fields)
  raises a \<open>ProtocolError\<close>, the sender gets an \<open>ERROR\<close> message with its text, nothing is broadcast,
  and neither the engine nor the metrics change.
\<close>

theorem invalid_request_has_no_effect:
  assumes "json_getters L" and "read_request L raw = Inl (ProtocolError m)"
  shows "handle L now secs raw sv =
    Some (sv, Inr \<lparr>directResponse = msg_error L m, broadcasts = []\<rparr>)"
  using handle_serve [OF assms(1)] assms(2) by (simp add: unread_def direct_def)

theorem invalid_request_has_no_effect_witness:
  "handle sample_json 0 double_zero ''buy 0 at market'' server_one =
     Some (server_one, Inr \<lparr>directResponse = msg_error sample_json ''Quantity must be greater than 0'',
                             broadcasts = []\<rparr>)"
  by (rule invalid_request_has_no_effect [OF sample_json_getters])
     (simp add: read_request_def read_fields_def server_simps sample_json_simps word_sle_eq)

text \<open>
  C35: an exception of the JSON parser that is not a parse error (such as a number that no double
  can hold) is not turned into an error response: it leaves \<open>handle\<close>, and it is the only exception
  that does.
\<close>

theorem parser_exception_escapes:
  assumes "json_getters L" and "handle L now secs raw sv = Some (sv', res)"
  shows "res = Inl e \<longleftrightarrow> (\<exists>w. e = StdException w \<and> raw \<noteq> [] \<and> js_parse L raw = Parse_Exception w)"
proof (cases "read_request L raw")
  case (Inl e')
  then have "unread L e' = Some res" using assms(2) handle_serve [OF assms(1), of now secs raw sv] by auto
  then show ?thesis
    using Inl read_request_StdException [OF assms(1), of raw] by (cases e') (auto simp: unread_def)
next
  case (Inr req)
  then obtain r where "res = Inr r" using assms(2) handle_serve [OF assms(1), of now secs raw sv] by auto
  then show ?thesis using Inr read_request_StdException [OF assms(1), of raw] by auto
qed

theorem parser_exception_escapes_witness:
  "snd (the (handle sample_json 0 double_zero ''1e999'' server_one)) =
     Inl (StdException ''number overflow parsing 1e999'')"
proof -
  have "handle sample_json 0 double_zero ''1e999'' server_one =
      Some (server_one, snd (the (handle sample_json 0 double_zero ''1e999'' server_one)))"
    by (simp add: server_simps sample_json_simps)
  then show ?thesis
    using parser_exception_escapes [OF sample_json_getters] by (simp add: sample_json_simps)
qed

text \<open>
  C10: what a \<open>PLACE_ORDER\<close> request sends. A market order that finds nothing to trade with is
  answered by a rejection, and nothing is broadcast. Any other order is accepted with the fresh
  order id and counted, and the broadcasts are: one \<open>TRADE\<close> for every trade the engine logged, in
  order; then status updates, for another order exactly if it left the book, and for the placed
  order exactly if it traded; last the order book as it is afterwards. A resting order that is
  partially filled gets no status update.
\<close>

theorem place_request_messages:
  assumes "json_getters L" and "json_no_nan L" and "server_reachable L sv"
    and "read_request L raw = Inr (Place req)" and "handle L now secs raw sv = Some (sv', res)"
  defines "new \<equiv> new_trades (adapter_engine (srv_adapter sv)) (adapter_engine (srv_adapter sv'))"
    and "i \<equiv> nextOrderId (srv_adapter sv)"
  shows "if req_orderType req = F_MARKET \<and> new = []
    then res = Inr \<lparr>directResponse = msg_orderRejected L ''No liquidity for market order'', broadcasts = []\<rparr> \<and>
      ordersProcessed (srv_metrics sv') = ordersProcessed (srv_metrics sv)
    else ordersProcessed (srv_metrics sv') = ordersProcessed (srv_metrics sv) + 1 \<and>
      (\<exists>us. res = Inr \<lparr>directResponse = accepted_message L req i,
           broadcasts = map (msg_tradeEvent L \<circ> to_trade_msg) new @ map (msg_orderUpdate L) us @
             [getOrderBookMessage L sv']\<rparr> \<and>
         (\<forall>j. j \<noteq> i \<longrightarrow> ((\<exists>u\<in>set us. ou_orderId u = j) \<longleftrightarrow>
            j \<in> orderId ` set (open_orders (srv_adapter sv)) \<and>
            j \<notin> orderId ` set (open_orders (srv_adapter sv')))) \<and>
         (\<forall>u\<in>set us. ou_orderId u = i \<or> ou_status u = FILLED \<and> ou_remaining u = 0) \<and>
         ((\<exists>u\<in>set us. ou_orderId u = i) \<longleftrightarrow> new \<noteq> []))"
proof -
  note pr = read_request_Place [OF assms(2,4)]
  have a: "adapter_reachable (srv_adapter sv)" using server_reachable_inv [OF assms(1-3)] by blast
  obtain r where s: "serve_place L now req sv = Some (sv', r)" and res: "res = Inr r"
    using assms(5) handle_serve [OF assms(1), of now secs raw sv] by (auto simp: assms(4) serve_def)
  show ?thesis
    using serve_place_accepted [OF a pr(1,3) s, folded new_def i_def] unfolding res direct_def by simp
qed

theorem place_request_messages_witness:
  "ordersProcessed (srv_metrics (sample_serve ''sell 60 at 100'' server_one)) = 2"
proof -
  let ?h = "handle sample_json 0 double_zero ''sell 60 at 100'' server_one"
  have r: "read_request sample_json ''sell 60 at 100'' = Inr (Place
      \<lparr>req_side = F_SELL, req_orderType = F_LIMIT, req_price = d100, req_quantity = 60\<rparr>)"
    by (simp add: read_request_def read_fields_def server_simps sample_json_simps word_sle_eq d100_def)
  have h: "?h = Some (sample_serve ''sell 60 at 100'' server_one, snd (the ?h))"
    using every_step_defined [of "''sell 60 at 100''" 0 double_zero] r by (simp add: sample_serve_def)
  show ?thesis
    using place_request_messages [OF sample_json_getters sample_json_no_nan server_one_reachable r h]
    by (simp add: server_one_state)
qed

text \<open>
  C30: what a \<open>CANCEL_ORDER\<close> request sends. Cancelling an open order removes exactly that order,
  confirms it, and broadcasts its new status with nothing remaining and the book as it is
  afterwards. Any other id, of an unknown order or of one that was filled, is answered with an
  \<open>ORDER_REJECTED\<close> message with the reason \<open>Order not found\<close>, nothing is broadcast and the book
  stays as it is; \<open>server/README.md\<close> promises an \<open>ERROR\<close> message \<open>Order not found: <id>\<close> there. The
  count of processed orders is not changed by either.
\<close>

theorem cancel_request_messages:
  assumes "json_getters L" and "json_no_nan L" and "server_reachable L sv"
    and "read_request L raw = Inr (Cancel req)" and "handle L now secs raw sv = Some (sv', res)"
  shows "open_orders (srv_adapter sv') =
      filter (\<lambda>x. orderId x \<noteq> req_orderId req) (open_orders (srv_adapter sv)) \<and>
    ordersProcessed (srv_metrics sv') = ordersProcessed (srv_metrics sv) \<and>
    res = Inr (if req_orderId req \<in> orderId ` set (open_orders (srv_adapter sv))
      then \<lparr>directResponse = msg_orderCancelled L (req_orderId req),
            broadcasts = [msg_orderUpdate L \<lparr>ou_orderId = req_orderId req, ou_status = CANCELLED, ou_remaining = 0\<rparr>,
                          getOrderBookMessage L sv']\<rparr>
      else \<lparr>directResponse = msg_orderRejected L ''Order not found'', broadcasts = []\<rparr>)"
proof -
  have a: "adapter_inv (srv_adapter sv)"
    using server_reachable_inv [OF assms(1-3)] adapter_reachable_inv by blast
  obtain r where s: "serve_cancel L req sv = Some (sv', r)" and res: "res = Inr r"
    using assms(5) handle_serve [OF assms(1), of now secs raw sv] by (auto simp: assms(4) serve_def)
  obtain e' where "adapter_cancelOrder (req_orderId req) (srv_adapter sv) =
      Some (srv_adapter sv\<lparr>adapter_engine := e'\<rparr>,
        \<lparr>cr_success = (req_orderId req \<in> open_ids (orderBook (adapter_engine (srv_adapter sv)))),
         cr_reason = (if req_orderId req \<in> open_ids (orderBook (adapter_engine (srv_adapter sv)))
                      then '''' else ''Order not found''),
         cr_orderId = req_orderId req\<rparr>)"
    and "engine_getOpenOrders e' = filter (\<lambda>x. orderId x \<noteq> req_orderId req) (open_orders (srv_adapter sv))"
    by (rule adapter_cancel_outcome [OF a, of "req_orderId req"])
  then show ?thesis
    using s res
    by (auto simp: serve_cancel_def cancel_locked_def direct_def setActiveOrders_def open_ids_getOpenOrders
        split: if_splits)
qed

theorem cancel_request_messages_witness:
  "open_orders (srv_adapter (sample_serve ''cancel 1'' server_one)) = []"
proof -
  let ?h = "handle sample_json 0 double_zero ''cancel 1'' server_one"
  have r: "read_request sample_json ''cancel 1'' = Inr (Cancel \<lparr>req_orderId = 1\<rparr>)"
    by (simp add: read_request_def read_fields_def server_simps sample_json_simps)
  have h: "?h = Some (sample_serve ''cancel 1'' server_one, snd (the ?h))"
    using every_step_defined [of "''cancel 1''" 0 double_zero] r by (simp add: sample_serve_def)
  have o: "map orderId (open_orders adapter_one) = [1]"
    by (simp add: adapter_one_state server_simps sample_eval)
  show ?thesis
    using cancel_request_messages [OF sample_json_getters sample_json_no_nan server_one_reachable r h] o
    by (auto simp: server_one_state filter_empty_conv map_eq_Cons_conv)
qed

text \<open>
  C38: what a \<open>GET_METRICS\<close> request sends: a \<open>METRICS\<close> message that reports the open orders, the
  trades made and their volume as they are, only to its sender, without any effect on the state.
\<close>

theorem metrics_request_reports:
  assumes "json_getters L" and "json_no_nan L" and "server_reachable L sv"
    and "read_request L raw = Inr Get_Metrics" and "double_zero < secs"
  shows "handle L now secs raw sv = Some (sv, Inr \<lparr>directResponse = msg_metrics L
      \<lparr>md_ordersProcessed = ordersProcessed (srv_metrics sv),
       md_tradesExecuted = of_nat (length (getRecentTrades (adapter_engine (srv_adapter sv)))),
       md_activeOrders = of_nat (length (open_orders (srv_adapter sv))),
       md_totalVolume = of_nat (volume (getRecentTrades (adapter_engine (srv_adapter sv)))),
       md_ordersPerSecond = double_div (double_of_int64 (ordersProcessed (srv_metrics sv))) secs\<rparr>,
      broadcasts = []\<rparr>)"
  using server_reachable_inv [OF assms(1-3)] handle_serve [OF assms(1), of now secs raw sv] assms(4,5)
  by (simp add: serve_def handleGetMetrics_def direct_def metrics_snapshot_def metrics_agree_def Let_def)

theorem metrics_request_reports_witness:
  "handle sample_json 0 d100 ''metrics'' server_one \<noteq> None"
proof -
  have r: "read_request sample_json ''metrics'' = Inr Get_Metrics"
    by (simp add: read_request_def read_fields_def server_simps sample_json_simps)
  have "double_zero < d100"
    by (simp add: double_zero_def d100_def less_double_def not_nan_def is_nan_def dkey_def dneg_def dmag_def)
  then show ?thesis
    using metrics_request_reports [OF sample_json_getters sample_json_no_nan server_one_reachable r] by simp
qed

end
