(* ===== verification/WebSocket_Session.thy ===== *)
theory WebSocket_Session
  imports Handler_Theorems
begin

text \<open>
  The write side of the class \<open>WebSocketSession\<close> (\<open>server/src/WebSocketSession.cpp\<close>) and the class
  \<open>ClientManager\<close> (\<open>server/src/ClientManager.cpp\<close>). A session is a strand: its handlers run one at a
  time. Next to the members \<open>writeQueue_\<close> and \<open>closed_\<close>, the record \<open>session\<close> keeps what the code has
  handed to Boost.Asio (not part of the repository): the messages of the posted \<open>onSend\<close> handlers
  that have not run, the buffer of the outstanding \<open>async_write\<close>, whether a handshake or an
  \<open>async_read\<close> is outstanding; and two histories, the messages \<open>send\<close> was called with while the
  session was open, and the messages written completely. \<open>None\<close> is a violation of a contract:
  starting a second \<open>async_write\<close> or \<open>async_read\<close>, or erasing from an empty vector.
\<close>

record session =
  closed :: bool
  writeQueue :: "string list"
  posted :: "string list"
  inflight :: "string option"
  handshaking :: bool
  reading :: bool
  sent :: "string list"
  wire :: "string list"

definition new_session :: session where
  "new_session =
     \<lparr>closed = False, writeQueue = [], posted = [], inflight = None, handshaking = False,
      reading = False, sent = [], wire = []\<rparr>"

text \<open>\<open>run\<close> sets options of the WebSocket stream and starts the handshake.\<close>

definition run_session :: "session \<Rightarrow> session" where
  "run_session s = s\<lparr>handshaking := True\<rparr>"

definition async_write :: "session \<Rightarrow> session option" where
  "async_write s =
     (if inflight s \<noteq> None \<or> writeQueue s = [] then None
      else Some (s\<lparr>inflight := Some (hd (writeQueue s))\<rparr>))"

definition send :: "string \<Rightarrow> session \<Rightarrow> session" where
  "send m s = (if closed s then s else s\<lparr>posted := posted s @ [m], sent := sent s @ [m]\<rparr>)"

definition onSend :: "string \<Rightarrow> session \<Rightarrow> session option" where
  "onSend m s =
     (if closed s then Some s
      else
        let s' = s\<lparr>writeQueue := writeQueue s @ [m]\<rparr> in
        if 1 < length (writeQueue s') then Some s' else async_write s')"

text \<open>\<open>onWrite\<close> without an error; with one, the session is disconnected (below).\<close>

definition onWrite :: "session \<Rightarrow> session option" where
  "onWrite s =
     (if closed s then Some s
      else if writeQueue s = [] then None
      else
        let s' = s\<lparr>writeQueue := tl (writeQueue s)\<rparr> in
        if writeQueue s' \<noteq> [] then async_write s' else Some s')"

definition doRead :: "session \<Rightarrow> session option" where
  "doRead s = (if closed s then Some s else if reading s then None else Some (s\<lparr>reading := True\<rparr>))"

text \<open>Running the first posted handler; the completion of the outstanding write.\<close>

definition run_posted :: "session \<Rightarrow> session option" where
  "run_posted s =
     (case posted s of [] \<Rightarrow> None | m # ms \<Rightarrow> onSend m (s\<lparr>posted := ms\<rparr>))"

definition write_completed :: "session \<Rightarrow> session option" where
  "write_completed s =
     (case inflight s of
        None \<Rightarrow> None
      | Some m \<Rightarrow> onWrite (s\<lparr>inflight := None, wire := wire s @ [m]\<rparr>))"

subsection \<open>The sessions of the server and the client manager\<close>

text \<open>
  Sessions are numbered in the order of \<open>doAccept\<close>. \<open>clients\<close> is the set \<open>sessions_\<close> of the
  client manager; a broadcast copies it and sends to every member, in an order that does not
  matter because each call only appends to the handlers of its own session.
\<close>

record hub =
  sessions :: "nat \<Rightarrow> session option"
  accepted :: nat
  clients :: "nat set"
  srv :: server

definition initial_hub :: hub where
  "initial_hub = \<lparr>sessions = (\<lambda>_. None), accepted = 0, clients = {}, srv = initial_server\<rparr>"

definition set_session :: "nat \<Rightarrow> session \<Rightarrow> hub \<Rightarrow> hub" where
  "set_session i s h = h\<lparr>sessions := (sessions h)(i \<mapsto> s)\<rparr>"

definition addClient :: "nat \<Rightarrow> hub \<Rightarrow> hub" where
  "addClient i h = h\<lparr>clients := insert i (clients h)\<rparr>"

definition removeClient :: "nat \<Rightarrow> hub \<Rightarrow> hub" where
  "removeClient i h = h\<lparr>clients := clients h - {i}\<rparr>"

definition clientCount :: "hub \<Rightarrow> nat" where
  "clientCount h = card (clients h)"

definition broadcast :: "string \<Rightarrow> hub \<Rightarrow> hub" where
  "broadcast m h =
     h\<lparr>sessions := (\<lambda>i. if i \<in> clients h then map_option (send m) (sessions h i) else sessions h i)\<rparr>"

definition disconnect :: "nat \<Rightarrow> session \<Rightarrow> hub \<Rightarrow> hub" where
  "disconnect i s h =
     (if closed s then set_session i s h
      else removeClient i (set_session i (s\<lparr>closed := True\<rparr>) h))"

end
