(* ===== verification/Server_Loop.thy ===== *)
theory Server_Loop
  imports WebSocket_Session
begin

text \<open>
  The event loop of the server (\<open>server/src/Server.cpp\<close> and the read side of
  \<open>server/src/WebSocketSession.cpp\<close>) as a step function on events: a connection, the end of a
  handshake, a message that was read, a posted handler that runs, a write that ends. Each handler
  is one step; the header of the development says what that leaves out. \<open>None\<close> is undefined
  behaviour or an exception that leaves the handler, and with it \<open>io_context::run\<close>.
\<close>

text \<open>\<open>sendInitialOrderBook\<close> catches the exception of \<open>dump()\<close>.\<close>

definition sendInitialOrderBook :: "'j json_lib \<Rightarrow> nat \<Rightarrow> hub \<Rightarrow> hub" where
  "sendInitialOrderBook L i h =
     (case (js_dump L (getOrderBookMessage L (srv h)), sessions h i) of
        (Inr m, Some s) \<Rightarrow> set_session i (send m s) h
      | _ \<Rightarrow> h)"

text \<open>
  The completion of \<open>async_accept\<close>: a new session, numbered in the order of acceptance, is run; after
  an error nothing changes. \<open>doAccept\<close> is called again in both cases, so that an \<open>async_accept\<close> is
  always outstanding.
\<close>

definition doAccept :: "bool \<Rightarrow> hub \<Rightarrow> hub" where
  "doAccept ec h =
     (if ec then h
      else (set_session (accepted h) (run_session new_session) h)\<lparr>accepted := Suc (accepted h)\<rparr>)"

definition start_read :: "nat \<Rightarrow> hub \<Rightarrow> hub option" where
  "start_read i h =
     (case sessions h i of
        None \<Rightarrow> None
      | Some s \<Rightarrow> (case doRead s of None \<Rightarrow> None | Some s' \<Rightarrow> Some (set_session i s' h)))"

definition onAccept :: "'j json_lib \<Rightarrow> nat \<Rightarrow> bool \<Rightarrow> hub \<Rightarrow> hub option" where
  "onAccept L i ec h =
     (if ec then Some h else start_read i (sendInitialOrderBook L i (addClient i h)))"

text \<open>The broadcasts of a request up to the first one whose \<open>dump()\<close> throws.\<close>

fun send_broadcasts :: "'j json_lib \<Rightarrow> 'j list \<Rightarrow> hub \<Rightarrow> hub \<times> string option" where
  "send_broadcasts L [] h = (h, None)"
| "send_broadcasts L (b # bs) h =
     (case js_dump L b of
        Inl w \<Rightarrow> (h, Some w)
      | Inr m \<Rightarrow> send_broadcasts L bs (broadcast m h))"

definition send_to :: "nat \<Rightarrow> string \<Rightarrow> hub \<Rightarrow> hub" where
  "send_to i m h = (case sessions h i of None \<Rightarrow> h | Some s \<Rightarrow> set_session i (send m s) h)"

definition deliver :: "'j json_lib \<Rightarrow> nat \<Rightarrow> 'j handle_result \<Rightarrow> hub \<Rightarrow> hub \<times> string option" where
  "deliver L i r h =
     (if js_is_null L (directResponse r) then send_broadcasts L (broadcasts r) h
      else case js_dump L (directResponse r) of
             Inl w \<Rightarrow> (h, Some w)
           | Inr m \<Rightarrow> send_broadcasts L (broadcasts r) (send_to i m h))"

text \<open>The text of an exception; undefined behaviour, which \<open>handle\<close> does not return, has none.\<close>

definition what :: "cpp_exception \<Rightarrow> string" where
  "what e = (case e of ProtocolError m \<Rightarrow> m | StdException w \<Rightarrow> w | Undefined \<Rightarrow> '''')"

definition onRead ::
  "'j json_lib \<Rightarrow> u64 \<Rightarrow> double \<Rightarrow> nat \<Rightarrow> bool \<Rightarrow> string \<Rightarrow> session \<Rightarrow> hub \<Rightarrow> hub option" where
  "onRead L now secs i ec message s h =
     (if ec then Some (disconnect i s h)
      else
        case handle L now secs message (srv h) of
          None \<Rightarrow> None
        | Some (sv', res) \<Rightarrow>
            let h1 = h\<lparr>srv := sv'\<rparr>;
                (h2, exn) = (case res of Inl e \<Rightarrow> (h1, Some (what e)) | Inr r \<Rightarrow> deliver L i r h1)
            in case exn of
                 None \<Rightarrow> start_read i h2
               | Some w \<Rightarrow>
                   (case js_dump L (msg_error L (''Server error: '' @ w)) of
                      Inl w' \<Rightarrow> None
                    | Inr m \<Rightarrow> start_read i (send_to i m h2)))"

datatype server_event =
    Connect bool
  | Handshake nat bool
  | Message_Read nat bool string
  | Posted nat
  | Write_Done nat bool

text \<open>Which completions Boost.Asio can report, given what was started.\<close>

definition enabled :: "server_event \<Rightarrow> hub \<Rightarrow> bool" where
  "enabled ev h =
     (case ev of
        Connect ec \<Rightarrow> True
      | Handshake i ec \<Rightarrow> (case sessions h i of None \<Rightarrow> False | Some s \<Rightarrow> handshaking s)
      | Message_Read i ec m \<Rightarrow> (case sessions h i of None \<Rightarrow> False | Some s \<Rightarrow> reading s)
      | Posted i \<Rightarrow> (case sessions h i of None \<Rightarrow> False | Some s \<Rightarrow> posted s \<noteq> [])
      | Write_Done i ec \<Rightarrow> (case sessions h i of None \<Rightarrow> False | Some s \<Rightarrow> inflight s \<noteq> None))"

definition server_step ::
  "'j json_lib \<Rightarrow> u64 \<Rightarrow> double \<Rightarrow> server_event \<Rightarrow> hub \<Rightarrow> hub option" where
  "server_step L now secs ev h =
     (case ev of
        Connect ec \<Rightarrow> Some (doAccept ec h)
      | Handshake i ec \<Rightarrow>
          let s = the (sessions h i) in onAccept L i ec (set_session i (s\<lparr>handshaking := False\<rparr>) h)
      | Message_Read i ec m \<Rightarrow>
          let s = the (sessions h i)\<lparr>reading := False\<rparr>
          in onRead L now secs i ec m s (set_session i s h)
      | Posted i \<Rightarrow>
          (case run_posted (the (sessions h i)) of None \<Rightarrow> None | Some s \<Rightarrow> Some (set_session i s h))
      | Write_Done i ec \<Rightarrow>
          (let s = the (sessions h i) in
           if ec then Some (disconnect i (s\<lparr>inflight := None\<rparr>) h)
           else case write_completed s of None \<Rightarrow> None | Some s' \<Rightarrow> Some (set_session i s' h)))"

inductive hub_reachable :: "'j json_lib \<Rightarrow> hub \<Rightarrow> bool" for L :: "'j json_lib" where
  hub_init: "hub_reachable L initial_hub"
| hub_step: "hub_reachable L h \<Longrightarrow> enabled ev h \<Longrightarrow> server_step L now secs ev h = Some h' \<Longrightarrow>
    hub_reachable L h'"

end
