(* ===== verification/Session_Correct.thy ===== *)
theory Session_Correct
  imports Server_Loop "HOL-Library.Sublist"
begin

text \<open>
  The invariants of the sessions and of the client manager, kept by every step of the event loop.
\<close>

definition pending :: "session \<Rightarrow> string list" where
  "pending s = (case inflight s of None \<Rightarrow> [] | Some m \<Rightarrow> [m])"

lemma fold_send:
  "fold send ms s = (if closed s then s else s\<lparr>posted := posted s @ ms, sent := sent s @ ms\<rparr>)"
  by (induction ms arbitrary: s) (auto simp: send_def)

lemma fold_send_flags [simp]:
  "closed (fold send ms s) = closed s" "reading (fold send ms s) = reading s"
  "handshaking (fold send ms s) = handshaking s"
  by (simp_all add: fold_send)

lemma send_flags [simp]:
  "closed (send m s) = closed s" "reading (send m s) = reading s" "handshaking (send m s) = handshaking s"
  by (simp_all add: send_def)

definition session_inv :: "session \<Rightarrow> bool" where
  "session_inv s \<longleftrightarrow>
     (\<forall>m. inflight s = Some m \<longrightarrow> writeQueue s \<noteq> [] \<and> hd (writeQueue s) = m) \<and>
     (if closed s then prefix (wire s @ pending s) (sent s)
      else (writeQueue s = [] \<longleftrightarrow> inflight s = None) \<and> sent s = wire s @ writeQueue s @ posted s) \<and>
     (handshaking s \<longrightarrow> \<not> reading s \<and> \<not> closed s \<and> sent s = [])"

lemma session_inv_prefix: "session_inv s \<Longrightarrow> prefix (wire s @ pending s) (sent s)"
  by (cases "writeQueue s") (auto simp: session_inv_def pending_def split: if_splits)

lemma session_inv_new: "session_inv (run_session new_session)"
  by (simp add: session_inv_def new_session_def run_session_def)

lemma session_inv_sends:
  "session_inv s \<Longrightarrow> handshaking s \<longrightarrow> ms = [] \<Longrightarrow> session_inv (fold send ms s)"
  by (cases "ms = []") (auto simp: session_inv_def fold_send)

lemma session_inv_inflight: "session_inv s \<Longrightarrow> inflight s \<noteq> None \<Longrightarrow> \<not> handshaking s"
  by (auto simp: session_inv_def)

lemma session_inv_flags:
  "session_inv s \<Longrightarrow> session_inv (s\<lparr>handshaking := False\<rparr>)"
  "session_inv s \<Longrightarrow> session_inv (s\<lparr>reading := False\<rparr>)"
  "session_inv s \<Longrightarrow> \<not> handshaking s \<Longrightarrow> session_inv (s\<lparr>reading := True\<rparr>)"
  by (auto simp: session_inv_def pending_def)

lemma session_inv_close:
  assumes "session_inv s" and "\<not> handshaking s"
  shows "session_inv (s\<lparr>closed := True\<rparr>)" and "session_inv (s\<lparr>inflight := None, closed := True\<rparr>)"
    and "closed s \<Longrightarrow> session_inv (s\<lparr>inflight := None\<rparr>)"
  using assms session_inv_prefix [OF assms(1)]
  by (auto simp: session_inv_def pending_def dest: append_prefixD)

lemma run_posted_ok:
  assumes "session_inv s" and "posted s \<noteq> []"
  obtains s' where "run_posted s = Some s'" and "session_inv s'" and "closed s' = closed s"
    and "reading s' = reading s" and "handshaking s' = handshaking s" and "sent s' = sent s"
proof -
  obtain m ms where p: "posted s = m # ms" using assms(2) by (cases "posted s") auto
  consider "closed s" | "\<not> closed s" "writeQueue s \<noteq> []" | "\<not> closed s" "writeQueue s = []" by blast
  then show thesis
  proof cases
    case 1
    then show thesis
      using assms(1) p
      by (intro that [of "s\<lparr>posted := ms\<rparr>"]) (auto simp: session_inv_def pending_def run_posted_def onSend_def)
  next
    case 2
    then show thesis
      using assms(1) p
      by (intro that [of "s\<lparr>posted := ms, writeQueue := writeQueue s @ [m]\<rparr>"])
        (auto simp: session_inv_def run_posted_def onSend_def Let_def)
  next
    case 3
    then show thesis
      using assms(1) p
      by (intro that [of "s\<lparr>posted := ms, writeQueue := [m], inflight := Some m\<rparr>"])
        (auto simp: session_inv_def run_posted_def onSend_def Let_def async_write_def)
  qed
qed

lemma write_completed_ok:
  assumes "session_inv s" and "inflight s \<noteq> None"
  obtains s' where "write_completed s = Some s'" and "session_inv s'" and "closed s' = closed s"
    and "reading s' = reading s" and "handshaking s' = handshaking s" and "sent s' = sent s"
proof -
  obtain m q where q: "inflight s = Some m" "writeQueue s = m # q"
    using assms by (cases "writeQueue s") (auto simp: session_inv_def)
  let ?s = "s\<lparr>inflight := None, wire := wire s @ [m]\<rparr>"
  consider "closed s" | "\<not> closed s" "q = []" | "\<not> closed s" "q \<noteq> []" by blast
  then show thesis
  proof cases
    case 1
    then show thesis
      using assms(1) q
      by (intro that [of ?s]) (auto simp: session_inv_def pending_def write_completed_def onWrite_def)
  next
    case 2
    then show thesis
      using assms(1) q
      by (intro that [of "?s\<lparr>writeQueue := []\<rparr>"])
        (auto simp: session_inv_def write_completed_def onWrite_def Let_def)
  next
    case 3
    then show thesis
      using assms(1) q
      by (intro that [of "?s\<lparr>writeQueue := q, inflight := Some (hd q)\<rparr>"])
        (auto simp: session_inv_def write_completed_def onWrite_def Let_def async_write_def)
  qed
qed


subsection \<open>Sending to several sessions\<close>

text \<open>Every session \<open>i\<close> is sent the messages \<open>ms i\<close>.\<close>

definition sends :: "(nat \<Rightarrow> string list) \<Rightarrow> hub \<Rightarrow> hub" where
  "sends ms h = h\<lparr>sessions := (\<lambda>i. map_option (fold send (ms i)) (sessions h i))\<rparr>"

lemma sends_fields [simp]:
  "clients (sends ms h) = clients h" "accepted (sends ms h) = accepted h" "srv (sends ms h) = srv h"
  "sessions (sends ms h) i = map_option (fold send (ms i)) (sessions h i)"
  by (simp_all add: sends_def)

lemma sends_sends: "sends ms' (sends ms h) = sends (\<lambda>i. ms i @ ms' i) h"
  by (simp add: sends_def fun_eq_iff option.map_comp o_def)

lemma sends_eqI:
  assumes "\<And>i. f i = map_option (fold send (ms i)) (sessions h i)"
  shows "h\<lparr>sessions := f\<rparr> = sends ms h"
proof -
  have "f = (\<lambda>i. map_option (fold send (ms i)) (sessions h i))" by (rule ext) (rule assms)
  then show ?thesis by (simp add: sends_def)
qed

lemma sends_nothing: "(\<And>i. ms i = [] \<or> sessions h i = None) \<Longrightarrow> sends ms h = h"
proof -
  assume none: "\<And>i. ms i = [] \<or> sessions h i = None"
  have "h\<lparr>sessions := sessions h\<rparr> = sends ms h"
  proof (rule sends_eqI)
    show "sessions h i = map_option (fold send (ms i)) (sessions h i)" for i
      using none [of i] by (cases "sessions h i") auto
  qed
  then show ?thesis by simp
qed

lemma broadcast_sends: "broadcast m h = sends (\<lambda>i. if i \<in> clients h then [m] else []) h"
  unfolding broadcast_def
proof (rule sends_eqI)
  show "(if i \<in> clients h then map_option (send m) (sessions h i) else sessions h i) =
      map_option (fold send (if i \<in> clients h then [m] else [])) (sessions h i)" for i
    by (cases "sessions h i") auto
qed

lemma send_to_sends: "send_to i m h = sends (\<lambda>j. if j = i then [m] else []) h"
proof (cases "sessions h i")
  case None
  then show ?thesis by (simp add: send_to_def sends_nothing)
next
  case (Some s)
  have "h\<lparr>sessions := (sessions h)(i \<mapsto> send m s)\<rparr> = sends (\<lambda>j. if j = i then [m] else []) h"
  proof (rule sends_eqI)
    show "((sessions h)(i \<mapsto> send m s)) j =
        map_option (fold send (if j = i then [m] else [])) (sessions h j)" for j
      using Some by (cases "sessions h j") auto
  qed
  then show ?thesis using Some by (simp add: send_to_def set_session_def)
qed

text \<open>A JSON library whose printer does not throw. The real one throws on strings that are not UTF-8;
  those of the messages come from the code or were parsed, and the parser checks their UTF-8.\<close>

definition json_dumps :: "'j json_lib \<Rightarrow> bool" where
  "json_dumps L \<longleftrightarrow> (\<forall>j. \<exists>m. js_dump L j = Inr m)"

definition text_of :: "'j json_lib \<Rightarrow> 'j \<Rightarrow> string" where
  "text_of L j = projr (js_dump L j)"

lemma dump_text: "json_dumps L \<Longrightarrow> js_dump L j = Inr (text_of L j)"
  unfolding json_dumps_def text_of_def by (metis sum.sel(2))

lemma send_broadcasts_sends:
  assumes "json_dumps L"
  shows "send_broadcasts L bs h =
    (sends (\<lambda>i. if i \<in> clients h then map (text_of L) bs else []) h, None)"
proof (induction bs arbitrary: h)
  case Nil
  have "sends (\<lambda>i. if i \<in> clients h then map (text_of L) [] else []) h = h"
    by (rule sends_nothing) simp
  then show ?case by simp
next
  case (Cons b bs)
  have "(\<lambda>i. (if i \<in> clients h then [text_of L b] else []) @
      (if i \<in> clients h then map (text_of L) bs else [])) =
      (\<lambda>i. if i \<in> clients h then map (text_of L) (b # bs) else [])" by auto
  then show ?case
    by (simp add: dump_text [OF assms] Cons broadcast_sends sends_sends cong: if_cong)
qed

text \<open>What the request handler's result sends to session \<open>j\<close> when session \<open>i\<close> asked.\<close>

definition reply :: "'j json_lib \<Rightarrow> nat \<Rightarrow> nat set \<Rightarrow> 'j handle_result \<Rightarrow> nat \<Rightarrow> string list" where
  "reply L i cs r j =
     (if j = i \<and> \<not> js_is_null L (directResponse r) then [text_of L (directResponse r)] else []) @
     (if j \<in> cs then map (text_of L) (broadcasts r) else [])"

lemma deliver_sends:
  assumes "json_dumps L"
  shows "deliver L i r h = (sends (reply L i (clients h) r) h, None)"
proof (cases "js_is_null L (directResponse r)")
  case True
  then show ?thesis
    by (simp add: deliver_def send_broadcasts_sends [OF assms] reply_def [abs_def])
next
  case False
  have "(\<lambda>j. (if j = i then [text_of L (directResponse r)] else []) @
      (if j \<in> clients h then map (text_of L) (broadcasts r) else [])) = reply L i (clients h) r"
    using False by (simp add: reply_def [abs_def])
  then show ?thesis
    using False
    by (simp add: deliver_def dump_text [OF assms] send_broadcasts_sends [OF assms] send_to_sends sends_sends)
qed

end
