(* ===== verification/Loop_Correct.thy ===== *)
theory Loop_Correct
  imports Session_Correct
begin

text \<open>
  The invariant of the event loop: every session satisfies \<open>session_inv\<close>, the client manager
  holds exactly the sessions that are open and have a read outstanding, and the server state is
  one that requests reach. \<open>hub_ok D\<close> is the invariant with the clients of \<open>D\<close> left out, which are
  those whose handler is running.
\<close>

definition open_reader :: "hub \<Rightarrow> nat \<Rightarrow> bool" where
  "open_reader h i \<longleftrightarrow> (case sessions h i of None \<Rightarrow> False | Some s \<Rightarrow> \<not> closed s \<and> reading s)"

definition hub_ok :: "'j json_lib \<Rightarrow> nat set \<Rightarrow> hub \<Rightarrow> bool" where
  "hub_ok L D h \<longleftrightarrow>
     (\<forall>i s. sessions h i = Some s \<longrightarrow> session_inv s \<and> i < accepted h) \<and>
     (\<forall>i. i \<notin> D \<longrightarrow> (i \<in> clients h \<longleftrightarrow> open_reader h i)) \<and>
     finite (clients h) \<and> server_reachable L (srv h)"

lemma hub_ok_session: "hub_ok L D h \<Longrightarrow> sessions h i = Some s \<Longrightarrow> session_inv s \<and> i < accepted h"
  by (simp add: hub_ok_def)

lemma hub_ok_client:
  "hub_ok L D h \<Longrightarrow> i \<notin> D \<Longrightarrow> i \<in> clients h \<longleftrightarrow> open_reader h i"
  by (simp add: hub_ok_def)

lemma hub_ok_initial: "hub_ok L {} initial_hub"
  by (simp add: hub_ok_def initial_hub_def open_reader_def server_init)

lemma set_session_fields [simp]:
  "sessions (set_session i s h) j = (if j = i then Some s else sessions h j)"
  "clients (set_session i s h) = clients h" "accepted (set_session i s h) = accepted h"
  "srv (set_session i s h) = srv h"
  by (simp_all add: set_session_def)

lemma open_reader_simps [simp]:
  "open_reader (set_session i s h) j = (if j = i then \<not> closed s \<and> reading s else open_reader h j)"
  "open_reader (sends ms h) j = open_reader h j"
  "open_reader (h\<lparr>srv := sv\<rparr>) j = open_reader h j" "open_reader (h\<lparr>accepted := n\<rparr>) j = open_reader h j"
  "open_reader (h\<lparr>clients := c\<rparr>) j = open_reader h j"
  by (auto simp: open_reader_def split: option.splits)

text \<open>Writing back a session: its handler has ended, or its status did not change.\<close>

lemma hub_ok_set_session:
  assumes "hub_ok L D h" and "session_inv s" and "i < accepted h"
  shows "i \<in> clients h \<longleftrightarrow> \<not> closed s \<and> reading s \<Longrightarrow> D \<subseteq> {i} \<Longrightarrow> hub_ok L {} (set_session i s h)"
    and "D \<subseteq> {i} \<Longrightarrow> hub_ok L {i} (set_session i s h)"
  using assms by (auto simp: hub_ok_def)

lemma hub_ok_sends:
  assumes "hub_ok L D h"
    and "\<And>i s. sessions h i = Some s \<Longrightarrow> handshaking s \<Longrightarrow> ms i = []"
  shows "hub_ok L D (sends ms h)"
proof -
  have "session_inv (fold send (ms i) s)" if "sessions h i = Some s" for i s
    using hub_ok_session [OF assms(1) that] assms(2) [OF that] by (blast intro: session_inv_sends)
  then show ?thesis using assms(1) by (auto simp: hub_ok_def)
qed

lemma hub_ok_srv: "hub_ok L D h \<Longrightarrow> server_reachable L sv \<Longrightarrow> hub_ok L D (h\<lparr>srv := sv\<rparr>)"
  by (simp add: hub_ok_def)

lemma start_read_ok:
  assumes "hub_ok L {i} h" and "sessions h i = Some s" and "\<not> handshaking s" and "\<not> reading s"
    and "i \<in> clients h \<longleftrightarrow> \<not> closed s"
  obtains h' where "start_read i h = Some h'" and "hub_ok L {} h'"
    and "srv h' = srv h" and "clients h' = clients h" and "accepted h' = accepted h"
    and "sessions h' = (sessions h)(i \<mapsto> (if closed s then s else s\<lparr>reading := True\<rparr>))"
proof -
  let ?s = "if closed s then s else s\<lparr>reading := True\<rparr>"
  have "start_read i h = Some (set_session i ?s h)"
    using assms(2,4) by (simp add: start_read_def doRead_def)
  moreover have "session_inv ?s"
    using hub_ok_session [OF assms(1,2)] session_inv_flags(3) assms(3) by simp
  then have "hub_ok L {} (set_session i ?s h)"
    by (rule hub_ok_set_session(1) [OF assms(1)])
      (use assms(2,4,5) hub_ok_session [OF assms(1,2)] in auto)
  ultimately show thesis by (intro that [of "set_session i ?s h"]) (simp_all add: set_session_def)
qed

lemma hub_ok_running: "hub_ok L {} h \<Longrightarrow> hub_ok L {i} h"
  by (simp add: hub_ok_def)

lemma disconnect_ok:
  assumes "hub_ok L {i} h" and "sessions h i = Some s0" and "session_inv s" and "\<not> handshaking s"
    and "closed s \<Longrightarrow> i \<notin> clients h"
  shows "hub_ok L {} (disconnect i s h)"
proof (cases "closed s")
  case True
  then have "hub_ok L {} (set_session i s h)"
    using assms hub_ok_session [OF assms(1,2)] by (intro hub_ok_set_session(1) [OF assms(1,3)]) auto
  then show ?thesis using True by (simp add: disconnect_def)
next
  case False
  have "session_inv (s\<lparr>closed := True\<rparr>)" using assms(3,4) by (rule session_inv_close(1))
  then show ?thesis
    using False assms(1) hub_ok_session [OF assms(1,2)]
    by (auto simp: disconnect_def removeClient_def hub_ok_def)
qed


subsection \<open>The handlers\<close>

text \<open>The messages a message of session \<open>i\<close> makes the server send to session \<open>j\<close>.\<close>

definition answers :: "'j json_lib \<Rightarrow> nat \<Rightarrow> nat set \<Rightarrow> 'j handle_result throws \<Rightarrow> nat \<Rightarrow> string list" where
  "answers L i cs res =
     (case res of
        Inl e \<Rightarrow> (\<lambda>j. if j = i then [text_of L (msg_error L (''Server error: '' @ what e))] else [])
      | Inr r \<Rightarrow> reply L i cs r)"

definition sent_to :: "hub \<Rightarrow> nat \<Rightarrow> string list option" where
  "sent_to h j = map_option sent (sessions h j)"

lemma sent_to_sends:
  "sent_to (sends ms h) j = map_option (\<lambda>s. sent s @ (if closed s then [] else ms j)) (sessions h j)"
  by (cases "sessions h j") (simp_all add: sent_to_def fold_send)

lemma onRead_sends:
  assumes "json_dumps L" and "handle L now secs m (srv h) = Some (sv', res)"
  shows "onRead L now secs i False m s h =
    start_read i (sends (answers L i (clients h) res) (h\<lparr>srv := sv'\<rparr>))"
  using assms(2)
  by (cases res)
    (simp_all add: onRead_def deliver_sends [OF assms(1)] dump_text [OF assms(1)] send_to_sends answers_def
      del: append.simps)

lemma answers_only_readers:
  assumes "hub_ok L {i} h" and "sessions h i = Some s" and "\<not> handshaking s"
    and "sessions h j = Some s'" and "handshaking s'"
  shows "answers L i (clients h) res j = []"
proof -
  have "j \<noteq> i" using assms(2-5) by auto
  moreover have "j \<notin> clients h"
    using calculation assms(4,5) hub_ok_client [OF assms(1), of j] hub_ok_session [OF assms(1,4)]
    by (auto simp: open_reader_def session_inv_def)
  ultimately show ?thesis by (auto simp: answers_def reply_def split: sum.splits)
qed

lemma onRead_ok:
  assumes ok: "hub_ok L {i} h" and s: "sessions h i = Some s" "\<not> handshaking s" "\<not> reading s"
    and c: "i \<in> clients h \<longleftrightarrow> \<not> closed s" and dumps: "json_dumps L"
    and hd: "handle L now secs m (srv h) = Some (sv', res)"
  obtains h' where "onRead L now secs i False m s h = Some h'" and "hub_ok L {} h'" and "srv h' = sv'"
    and "clients h' = clients h"
    and "\<And>j. sent_to h' j =
      map_option (\<lambda>s. sent s @ (if closed s then [] else answers L i (clients h) res j)) (sessions h j)"
proof -
  let ?ms = "answers L i (clients h) res" and ?h = "h\<lparr>srv := sv'\<rparr>"
  have "server_reachable L (srv h)" using ok by (simp add: hub_ok_def)
  then have "hub_ok L {i} ?h" using ok server_handle [OF _ hd] by (simp add: hub_ok_srv)
  then have ok': "hub_ok L {i} (sends ?ms ?h)"
    by (rule hub_ok_sends) (use answers_only_readers [OF ok s(1,2)] in simp)
  have s': "sessions (sends ?ms ?h) i = Some (fold send (?ms i) s)" by (simp add: s(1))
  obtain h' where h': "start_read i (sends ?ms ?h) = Some h'" "hub_ok L {} h'"
      "srv h' = srv (sends ?ms ?h)" "clients h' = clients (sends ?ms ?h)"
    and ses: "sessions h' = (sessions (sends ?ms ?h))(i \<mapsto> (if closed (fold send (?ms i) s)
      then fold send (?ms i) s else (fold send (?ms i) s)\<lparr>reading := True\<rparr>))"
    by (rule start_read_ok [OF ok' s']) (use s c in simp_all)
  have "sent_to h' j = sent_to (sends ?ms ?h) j" for j
    by (cases "j = i") (simp_all add: sent_to_def ses s(1))
  then show thesis
    using h' by (intro that [of h']) (simp_all add: onRead_sends [OF dumps hd] sent_to_sends)
qed

lemma onAccept_ok:
  assumes ok: "hub_ok L {} h" and s: "sessions h i = Some s" "handshaking s" and dumps: "json_dumps L"
  obtains h' where "onAccept L i ec (set_session i (s\<lparr>handshaking := False\<rparr>) h) = Some h'"
    and "hub_ok L {} h'" and "srv h' = srv h"
proof -
  let ?s = "s\<lparr>handshaking := False\<rparr>"
  have inv: "session_inv s" "i < accepted h" using hub_ok_session [OF ok s(1)] by blast+
  then have s0: "\<not> reading s" "\<not> closed s" using s(2) by (simp_all add: session_inv_def)
  have nc: "i \<notin> clients h" using hub_ok_client [OF ok] s(1) s0(1) by (simp add: open_reader_def)
  have inv': "session_inv ?s" using inv(1) by (rule session_inv_flags(1))
  have ok1: "hub_ok L {} (set_session i ?s h)"
    using s0 nc by (intro hub_ok_set_session(1) [OF ok inv' inv(2)]) auto
  show thesis
  proof (cases ec)
    case True
    then show thesis
      using ok1 by (intro that [of "set_session i ?s h"]) (simp_all add: onAccept_def)
  next
    case False
    let ?h = "addClient i (set_session i ?s h)"
    let ?ms = "\<lambda>j. if j = i then [text_of L (getOrderBookMessage L (srv h))] else []"
    have book: "sendInitialOrderBook L i ?h = sends ?ms ?h"
      using send_to_sends [of i "text_of L (getOrderBookMessage L (srv h))" ?h]
      by (simp add: sendInitialOrderBook_def send_to_def dump_text [OF dumps] addClient_def)
    have "hub_ok L {i} ?h" using ok1 by (auto simp: hub_ok_def addClient_def open_reader_def)
    then have ok2: "hub_ok L {i} (sends ?ms ?h)"
      by (rule hub_ok_sends) (auto simp: addClient_def split: if_splits)
    have s2: "sessions (sends ?ms ?h) i = Some (fold send (?ms i) ?s)" by (simp add: addClient_def)
    obtain h' where h': "start_read i (sends ?ms ?h) = Some h'" "hub_ok L {} h'" "srv h' = srv (sends ?ms ?h)"
      by (rule start_read_ok [OF ok2 s2]) (use s0 in \<open>simp_all add: addClient_def\<close>)
    have "onAccept L i ec (set_session i ?s h) = Some h'"
      using False h'(1) by (simp add: onAccept_def book)
    then show thesis using h'(2,3) by (intro that [of h']) (simp_all add: addClient_def)
  qed
qed

subsection \<open>Every enabled event\<close>

lemma connect_ok:
  assumes "hub_ok L {} h"
  shows "hub_ok L {} ((set_session (accepted h) (run_session new_session) h)\<lparr>accepted := Suc (accepted h)\<rparr>)"
proof -
  have none: "sessions h (accepted h) = None"
    using assms hub_ok_session by (metis less_irrefl option.exhaust)
  then have "accepted h \<notin> clients h" using hub_ok_client [OF assms] by (simp add: open_reader_def)
  then show ?thesis
    using assms session_inv_new
    by (auto simp: hub_ok_def new_session_def run_session_def less_SucI)
qed

lemma write_failed_ok:
  assumes "hub_ok L {} h" and "sessions h i = Some s" and "inflight s \<noteq> None"
  shows "hub_ok L {} (disconnect i (s\<lparr>inflight := None\<rparr>) h)"
proof -
  have inv: "session_inv s" using hub_ok_session [OF assms(1,2)] by blast
  have nh: "\<not> handshaking s" by (rule session_inv_inflight [OF inv assms(3)])
  have "i \<notin> clients h" if "closed s"
    using that hub_ok_client [OF assms(1)] assms(2) by (simp add: open_reader_def)
  then show ?thesis
  proof (cases "closed s")
    case True
    then show ?thesis
      using \<open>closed s \<Longrightarrow> i \<notin> clients h\<close> session_inv_close(3) [OF inv nh] nh
      by (intro disconnect_ok [OF hub_ok_running [OF assms(1)] assms(2)]) simp_all
  next
    case False
    have "session_inv (s\<lparr>inflight := None, closed := True\<rparr>)" by (rule session_inv_close(2) [OF inv nh])
    then show ?thesis
      using False assms(1) hub_ok_session [OF assms(1,2)]
      by (auto simp: disconnect_def removeClient_def hub_ok_def)
  qed
qed


lemma message_read_ok:
  assumes ok: "hub_ok L {} h" and s: "sessions h i = Some s" "reading s" and dumps: "json_dumps L"
    and hd: "\<not> ec \<Longrightarrow> handle L now secs m (srv h) \<noteq> None"
  obtains h' where
    "onRead L now secs i ec m (s\<lparr>reading := False\<rparr>) (set_session i (s\<lparr>reading := False\<rparr>) h) = Some h'"
    and "hub_ok L {} h'"
proof -
  let ?s = "s\<lparr>reading := False\<rparr>"
  have inv: "session_inv s" "i < accepted h" using hub_ok_session [OF ok s(1)] by blast+
  have nh: "\<not> handshaking s" using inv(1) s(2) by (auto simp: session_inv_def)
  have c: "i \<in> clients h \<longleftrightarrow> \<not> closed s" using hub_ok_client [OF ok] s by (simp add: open_reader_def)
  have inv': "session_inv ?s" using inv(1) by (rule session_inv_flags(2))
  have ok1: "hub_ok L {i} (set_session i ?s h)" by (rule hub_ok_set_session(2) [OF ok inv' inv(2)]) simp
  show thesis
  proof (cases ec)
    case True
    have "hub_ok L {} (disconnect i ?s (set_session i ?s h))"
      by (rule disconnect_ok [OF ok1 _ inv']) (use nh c in simp_all)
    then show thesis using True that by (simp add: onRead_def)
  next
    case False
    obtain sv' res where h: "handle L now secs m (srv (set_session i ?s h)) = Some (sv', res)"
      using hd False by auto
    obtain h' where "onRead L now secs i False m ?s (set_session i ?s h) = Some h'" "hub_ok L {} h'"
      by (rule onRead_ok [OF ok1 _ _ _ _ dumps h, where s = ?s]) (use nh c in simp_all)
    then show thesis using False that by simp
  qed
qed

text \<open>A step is defined unless the handling of a request is, and keeps the invariant.\<close>

lemma server_step_ok:
  assumes ok: "hub_ok L {} h" and en: "enabled ev h" and dumps: "json_dumps L"
    and hd: "\<And>i m. ev = Message_Read i False m \<Longrightarrow> handle L now secs m (srv h) \<noteq> None"
  obtains h' where "server_step L now secs ev h = Some h'" and "hub_ok L {} h'"
proof (cases ev)
  case (Connect ec)
  then show thesis using connect_ok [OF ok] ok that by (cases ec) (simp_all add: server_step_def doAccept_def)
next
  case (Handshake i ec)
  then obtain s where s: "sessions h i = Some s" "handshaking s"
    using en by (auto simp: enabled_def split: option.splits)
  obtain h' where "onAccept L i ec (set_session i (s\<lparr>handshaking := False\<rparr>) h) = Some h'" "hub_ok L {} h'"
    by (rule onAccept_ok [OF ok s dumps])
  then show thesis using that by (simp add: Handshake server_step_def s(1))
next
  case (Message_Read i ec m)
  then obtain s where s: "sessions h i = Some s" "reading s"
    using en by (auto simp: enabled_def split: option.splits)
  obtain h' where "onRead L now secs i ec m (s\<lparr>reading := False\<rparr>) (set_session i (s\<lparr>reading := False\<rparr>) h) = Some h'"
    "hub_ok L {} h'"
    by (rule message_read_ok [OF ok s dumps, where ec = ec and now = now and secs = secs and m = m])
      (use hd [of i m] Message_Read in auto)
  then show thesis using that by (simp add: Message_Read server_step_def s(1) Let_def)
next
  case (Posted i)
  then obtain s where s: "sessions h i = Some s" "posted s \<noteq> []"
    using en by (auto simp: enabled_def split: option.splits)
  have inv: "session_inv s" "i < accepted h" using hub_ok_session [OF ok s(1)] by blast+
  obtain s' where s': "run_posted s = Some s'" "session_inv s'" "closed s' = closed s" "reading s' = reading s"
    by (rule run_posted_ok [OF inv(1) s(2)])
  have "hub_ok L {} (set_session i s' h)"
    using hub_ok_client [OF ok] s s'
    by (intro hub_ok_set_session(1) [OF ok s'(2) inv(2)]) (simp_all add: open_reader_def)
  then show thesis using that by (simp add: Posted server_step_def s(1) s'(1))
next
  case (Write_Done i ec)
  then obtain s where s: "sessions h i = Some s" "inflight s \<noteq> None"
    using en by (auto simp: enabled_def split: option.splits)
  have inv: "session_inv s" "i < accepted h" using hub_ok_session [OF ok s(1)] by blast+
  show thesis
  proof (cases ec)
    case True
    then show thesis
      using write_failed_ok [OF ok s] that by (simp add: Write_Done server_step_def s(1))
  next
    case False
    obtain s' where s': "write_completed s = Some s'" "session_inv s'" "closed s' = closed s" "reading s' = reading s"
      by (rule write_completed_ok [OF inv(1) s(2)])
    have "hub_ok L {} (set_session i s' h)"
      using hub_ok_client [OF ok] s s'
      by (intro hub_ok_set_session(1) [OF ok s'(2) inv(2)]) (simp_all add: open_reader_def)
    then show thesis using False that by (simp add: Write_Done server_step_def s(1) s'(1))
  qed
qed

lemma hub_reachable_ok:
  assumes "json_dumps L" and "hub_reachable L h"
  shows "hub_ok L {} h"
  using assms(2)
proof (induction rule: hub_reachable.induct)
  case hub_init
  show ?case by (rule hub_ok_initial)
next
  case (hub_step h ev now secs h')
  have "handle L now secs m (srv h) \<noteq> None" if "ev = Message_Read i False m" for i m
    using hub_step.hyps(2,3) that
    by (auto simp: server_step_def onRead_def enabled_def split: option.splits)
  then obtain h'' where "server_step L now secs ev h = Some h''" "hub_ok L {} h''"
    using server_step_ok [OF hub_step.IH hub_step.hyps(2) assms(1)] by metis
  then show ?case using hub_step.hyps(3) by simp
qed

end
