(* ===== verification/Loop_Theorems.thy ===== *)
theory Loop_Theorems
  imports Loop_Correct
begin

text \<open>
  The properties of the event loop: the order of what is written to a client, the absence of
  undefined behaviour and of lost handlers, the clients of the client manager, and who is sent
  what when a request is served.
\<close>

subsection \<open>A server with one client\<close>

lemma sample_json_dumps: "json_dumps sample_json"
  by (simp add: json_dumps_def sample_json_def)

definition connected_session :: "string \<Rightarrow> session" where
  "connected_session m =
     \<lparr>closed = False, writeQueue = [], posted = [m], inflight = None, handshaking = False,
      reading = True, sent = [m], wire = []\<rparr>"

definition hub_one :: hub where
  "hub_one =
     \<lparr>sessions = [0 \<mapsto> connected_session (text_of sample_json (getOrderBookMessage sample_json initial_server))],
      accepted = 1, clients = {0}, srv = initial_server\<rparr>"

lemma hub_one_reachable: "hub_reachable sample_json hub_one"
proof -
  let ?h1 = "\<lparr>sessions = [0 \<mapsto> run_session new_session], accepted = 1, clients = {}, srv = initial_server\<rparr>"
  have "server_step sample_json 0 double_zero (Connect False) initial_hub = Some ?h1"
    by (simp add: server_step_def doAccept_def initial_hub_def set_session_def)
  moreover have "enabled (Connect False) initial_hub" by (simp add: enabled_def)
  ultimately have "hub_reachable sample_json ?h1" using hub_step [OF hub_init] by blast
  moreover have "enabled (Handshake 0 False) ?h1" by (simp add: enabled_def new_session_def run_session_def)
  moreover have "server_step sample_json 0 double_zero (Handshake 0 False) ?h1 = Some hub_one"
    by (simp add: server_step_def onAccept_def sendInitialOrderBook_def dump_text [OF sample_json_dumps]
        addClient_def set_session_def new_session_def run_session_def send_def start_read_def doRead_def hub_one_def
        connected_session_def getOrderBookMessage_def Let_def)
  ultimately show ?thesis using hub_step by blast
qed

text \<open>
  A client is written its messages in the order they were sent to it, each once. In every
  reachable state, what was written to a session is a prefix of what \<open>send\<close> was called with; the
  outstanding write is of the front of the queue, which stays there until the write completes; and
  while the session is open nothing is lost: what was sent is what was written, then the queue,
  then the posted handlers, and a write is outstanding exactly if the queue is not empty.
\<close>

lemma writes_in_order:
  assumes "json_dumps L" and "hub_reachable L h" and "sessions h i = Some s"
  shows "prefix (wire s) (sent s) \<and>
    (case inflight s of None \<Rightarrow> True
     | Some m \<Rightarrow> writeQueue s \<noteq> [] \<and> m = hd (writeQueue s) \<and> prefix (wire s @ [m]) (sent s)) \<and>
    (closed s \<or> sent s = wire s @ writeQueue s @ posted s \<and> (writeQueue s = [] \<longleftrightarrow> inflight s = None))"
proof -
  have inv: "session_inv s" using hub_ok_session [OF hub_reachable_ok [OF assms(1,2)] assms(3)] by blast
  then show ?thesis
    using session_inv_prefix [OF inv]
    by (auto simp: session_inv_def pending_def split: option.splits if_splits dest: append_prefixD)
qed

text \<open>
  The server is never stuck. In every reachable state, and for every completion Boost.Asio can
  report, the handler runs to its end: no second read or write is started on a session, nothing is
  taken from an empty queue, and no exception leaves a handler, as long as order ids are left and
  the message read has a defined reading.
\<close>

lemma server_never_stuck:
  assumes "json_getters L" and "json_no_nan L" and "json_objects L" and "json_dumps L"
    and "hub_reachable L h" and "enabled ev h" and "nextOrderId (srv_adapter (srv h)) \<noteq> INT64_MAX"
    and "\<And>i m. ev = Message_Read i False m \<Longrightarrow> read_request L m \<noteq> Inl Undefined"
  shows "\<exists>h'. server_step L now secs ev h = Some h' \<and> hub_reachable L h'"
proof -
  have ok: "hub_ok L {} h" by (rule hub_reachable_ok [OF assms(4,5)])
  then have a: "adapter_reachable (srv_adapter (srv h))"
    using server_reachable_inv [OF assms(1,2)] by (simp add: hub_ok_def)
  have hd: "handle L now secs m (srv h) \<noteq> None" if "ev = Message_Read i False m" for i m
  proof (cases "read_request L m")
    case (Inl e)
    then show ?thesis
      using assms(8) [OF that] handle_serve [OF assms(1)] by (cases e) (simp_all add: unread_def)
  next
    case (Inr req)
    obtain sv' r where "serve L now secs req (srv h) = Some (sv', r)"
      using serve_defined [OF a assms(7) _ _ assms(3)] read_request_Place(1,3) [OF assms(2)] Inr by metis
    then show ?thesis using Inr handle_serve [OF assms(1)] by simp
  qed
  obtain h' where h': "server_step L now secs ev h = Some h'" "hub_ok L {} h'"
    by (rule server_step_ok [OF ok assms(6,4) hd])
  then show ?thesis using hub_reachable.hub_step [OF assms(5,6) h'(1)] by blast
qed

text \<open>
  The client manager holds exactly the connected sessions: those whose handshake has ended
  and that are not closed, each with a read outstanding; there are at most as many as connections
  were accepted.
\<close>

lemma clients_are_open_sessions:
  assumes "json_dumps L" and "hub_reachable L h"
  shows "clients h = {i. \<exists>s. sessions h i = Some s \<and> \<not> closed s \<and> reading s \<and> \<not> handshaking s} \<and>
    clientCount h \<le> accepted h"
proof -
  have ok: "hub_ok L {} h" by (rule hub_reachable_ok [OF assms])
  then have c: "i \<in> clients h \<longleftrightarrow> open_reader h i" for i using hub_ok_client by blast
  have "clients h = {i. \<exists>s. sessions h i = Some s \<and> \<not> closed s \<and> reading s \<and> \<not> handshaking s}"
    using hub_ok_session [OF ok] by (fastforce simp: c open_reader_def session_inv_def split: option.splits)
  moreover have "clients h \<subseteq> {..<accepted h}"
    using hub_ok_session [OF ok] by (auto simp: c open_reader_def split: option.splits)
  then have "card (clients h) \<le> card {..<accepted h}" by (intro card_mono) simp_all
  ultimately show ?thesis by (simp add: clientCount_def)
qed

text \<open>
  C15: who gets what. When a message of session \<open>i\<close> has been read and handled, the direct response
  is sent to session \<open>i\<close> (if it is open) and to no other, then every broadcast to exactly the
  clients of the client manager, in the order of the result; no session misses a broadcast or gets
  it twice, and the server's state is the one \<open>handle\<close> returned.
\<close>

theorem broadcast_reaches_all_clients:
  assumes "json_dumps L" and "hub_reachable L h" and "enabled (Message_Read i False m) h"
    and "handle L now secs m (srv h) = Some (sv', Inr r)"
    and "server_step L now secs (Message_Read i False m) h = Some h'"
  shows "srv h' = sv' \<and> clients h' = clients h \<and>
    (\<forall>j. sent_to h' j = map_option (\<lambda>s. sent s @
        (if j = i \<and> \<not> closed s \<and> \<not> js_is_null L (directResponse r)
         then [text_of L (directResponse r)] else []) @
        (if j \<in> clients h then map (text_of L) (broadcasts r) else [])) (sessions h j))"
proof -
  have ok: "hub_ok L {} h" by (rule hub_reachable_ok [OF assms(1,2)])
  obtain s where s: "sessions h i = Some s" "reading s"
    using assms(3) by (auto simp: enabled_def split: option.splits)
  let ?s = "s\<lparr>reading := False\<rparr>" and ?h = "set_session i (s\<lparr>reading := False\<rparr>) h"
  have inv: "session_inv s" "i < accepted h" using hub_ok_session [OF ok s(1)] by blast+
  have nh: "\<not> handshaking s" using inv(1) s(2) by (auto simp: session_inv_def)
  have c: "i \<in> clients h \<longleftrightarrow> \<not> closed s" using hub_ok_client [OF ok] s by (simp add: open_reader_def)
  have ok1: "hub_ok L {i} ?h"
    by (rule hub_ok_set_session(2) [OF ok session_inv_flags(2) [OF inv(1)] inv(2)]) simp
  have hd: "handle L now secs m (srv ?h) = Some (sv', Inr r)" using assms(4) by simp
  obtain h'' where "onRead L now secs i False m ?s ?h = Some h''" "srv h'' = sv'" "clients h'' = clients ?h"
    and sent: "\<And>j. sent_to h'' j = map_option (\<lambda>s. sent s @
      (if closed s then [] else answers L i (clients ?h) (Inr r) j)) (sessions ?h j)"
    by (rule onRead_ok [OF ok1 _ _ _ _ assms(1) hd, where s = ?s]) (use nh c in simp_all)
  then have h'': "h'' = h'" "srv h' = sv'" "clients h' = clients h"
    using assms(5) by (simp_all add: server_step_def s(1) Let_def)
  have closed: "closed s' \<Longrightarrow> j \<notin> clients h" if "sessions h j = Some s'" for j s'
    using that hub_ok_client [OF ok] by (simp add: open_reader_def)
  have "sent_to h' j = map_option (\<lambda>s. sent s @
        (if j = i \<and> \<not> closed s \<and> \<not> js_is_null L (directResponse r)
         then [text_of L (directResponse r)] else []) @
        (if j \<in> clients h then map (text_of L) (broadcasts r) else [])) (sessions h j)" for j
    using sent [of j] closed [of j] s(1)
    by (cases "sessions h j") (auto simp: h''(1) answers_def reply_def)
  then show ?thesis using h''(2,3) by blast
qed

theorem broadcast_reaches_all_clients_witness:
  "clients (the (server_step sample_json 0 double_zero (Message_Read 0 False ''buy 100 at 100'') hub_one)) = {0}"
proof -
  let ?e = "Message_Read 0 False ''buy 100 at 100''"
  have en: "enabled ?e hub_one" by (simp add: enabled_def hub_one_def connected_session_def)
  have "\<forall>w. js_parse sample_json ''buy 100 at 100'' \<noteq> Parse_Exception w" by (simp add: sample_json_simps)
  moreover have "nextOrderId (srv_adapter initial_server) \<noteq> INT64_MAX"
    by (simp add: initial_server_def initial_adapter_def INT64_MAX_def)
  moreover have "read_request sample_json ''buy 100 at 100'' \<noteq> Inl Undefined"
    by (simp add: read_request_def read_fields_def server_simps sample_json_simps word_sle_eq)
  ultimately obtain sv' r where hd:
      "handle sample_json 0 double_zero ''buy 100 at 100'' (srv hub_one) = Some (sv', Inr r)"
    using answered [OF sample_json_getters sample_json_no_nan sample_json_objects server_init,
        of "''buy 100 at 100''" 0 double_zero] by (auto simp: hub_one_def)
  obtain h' where "server_step sample_json 0 double_zero ?e hub_one = Some h'"
    by (rule server_step_ok [OF hub_reachable_ok [OF sample_json_dumps hub_one_reachable] en sample_json_dumps])
      (use hd in auto)
  then show ?thesis
    using broadcast_reaches_all_clients [OF sample_json_dumps hub_one_reachable en hd]
    by (simp add: hub_one_def)
qed

end
