(* ===== verification/Interleaving.thy ===== *)
theory Interleaving
  imports Loop_Theorems
begin

text \<open>
  Requests of several sessions at the same time. \<open>Server::run\<close> runs the event loop on several
  threads, so \<open>handlePlaceOrder\<close> and \<open>handleCancelOrder\<close> of different sessions interleave. A \<open>task\<close>
  is how far one of them has come; \<open>task_step\<close> is its next access to the shared state: one call of
  the adapter (which holds \<open>mutex_\<close>), one update or one load of an atomic counter, one broadcast.
  A system is the server state, the tasks of the threads, and the broadcasts made so far, in order.

  \<open>engineMutex_\<close> is taken with the first access of its section and released with the last: a task is
  \<open>in_section\<close> between them, and one that \<open>wants_mutex\<close> can only go on when no task is. Readers of the
  book and of the metrics do not take \<open>engineMutex_\<close> and run beside a section.
\<close>

text \<open>What the first access of a section of \<open>engineMutex_\<close> returned.\<close>

datatype outcome = Placed place_order_request engine_result | Removed cancel_result

datatype 'j task =
    Idle
  | Want_Place place_order_request
  | Want_Cancel cancel_order_request
  | Counting outcome
  | Storing outcome i64
  | Count place_order_request engine_result
  | Record place_order_request engine_result "trade_msg list"
  | Add_Volume place_order_request engine_result trade_msg "trade_msg list"
  | Cancelled cancel_result
  | Load "i64 list"
  | Reply 'j "'j list"

definition wants_mutex :: "'j task \<Rightarrow> bool" where
  "wants_mutex t = (case t of Want_Place req \<Rightarrow> True | Want_Cancel req \<Rightarrow> True | _ \<Rightarrow> False)"

definition in_section :: "'j task \<Rightarrow> bool" where
  "in_section t = (case t of Counting p \<Rightarrow> True | Storing p n \<Rightarrow> True | _ \<Rightarrow> False)"

text \<open>How a handler goes on when it has left the section.\<close>

definition after_section :: "'j json_lib \<Rightarrow> outcome \<Rightarrow> 'j task" where
  "after_section L p =
     (case p of
        Placed req r \<Rightarrow>
          if \<not> er_accepted r then Reply (msg_orderRejected L (er_rejectReason r)) [] else Count req r
      | Removed c \<Rightarrow> if \<not> cr_success c then Reply (msg_orderRejected L (cr_reason c)) [] else Cancelled c)"

definition place_broadcasts :: "'j json_lib \<Rightarrow> engine_result \<Rightarrow> 'j list" where
  "place_broadcasts L r =
     map (msg_tradeEvent L) (er_trades r) @
     map (msg_orderUpdate L) (filter (\<lambda>u. 0 \<le>s ou_remaining u) (er_orderUpdates r))"

text \<open>The counters in the order \<open>Metrics::snapshot\<close> loads them, and the metrics they make up.\<close>

definition counters :: "metrics \<Rightarrow> i64 list" where
  "counters m = [ordersProcessed m, tradesExecuted m, activeOrders m, totalVolume m]"

definition loaded :: "i64 list \<Rightarrow> metrics" where
  "loaded vs =
     \<lparr>ordersProcessed = vs ! 0, tradesExecuted = vs ! 1, activeOrders = vs ! 2, totalVolume = vs ! 3\<rparr>"

fun task_step ::
  "'j json_lib \<Rightarrow> u64 \<Rightarrow> double \<Rightarrow> 'j task \<Rightarrow> server \<Rightarrow> (server \<times> 'j task \<times> 'j list) option"
where
  "task_step L now secs Idle sv = None"
| "task_step L now secs (Want_Place req) sv =
     (case adapter_placeOrder now (req_side req) (req_orderType req) (req_price req) (req_quantity req)
             (srv_adapter sv) of
        None \<Rightarrow> None
      | Some (a', r) \<Rightarrow> Some (sv\<lparr>srv_adapter := a'\<rparr>, Counting (Placed req r), []))"
| "task_step L now secs (Want_Cancel req) sv =
     (case adapter_cancelOrder (req_orderId req) (srv_adapter sv) of
        None \<Rightarrow> None
      | Some (a', c) \<Rightarrow> Some (sv\<lparr>srv_adapter := a'\<rparr>, Counting (Removed c), []))"
| "task_step L now secs (Counting p) sv = Some (sv, Storing p (getActiveOrderCount (srv_adapter sv)), [])"
| "task_step L now secs (Storing p n) sv =
     Some (sv\<lparr>srv_metrics := setActiveOrders n (srv_metrics sv)\<rparr>, after_section L p, [])"
| "task_step L now secs (Count req r) sv =
     Some (sv\<lparr>srv_metrics := recordOrder (srv_metrics sv)\<rparr>, Record req r (er_trades r), [])"
| "task_step L now secs (Record req r (t # ts)) sv =
     Some (sv\<lparr>srv_metrics := srv_metrics sv\<lparr>tradesExecuted := tradesExecuted (srv_metrics sv) + 1\<rparr>\<rparr>,
       Add_Volume req r t ts, [])"
| "task_step L now secs (Add_Volume req r t ts) sv =
     Some (sv\<lparr>srv_metrics := srv_metrics sv\<lparr>totalVolume := totalVolume (srv_metrics sv) + tm_quantity t\<rparr>\<rparr>,
       Record req r ts, [])"
| "task_step L now secs (Record req r []) sv =
     Some (sv, Reply (accepted_message L req (er_orderId r))
       (place_broadcasts L r @ (if er_bookChanged r then [getOrderBookMessage L sv] else [])), [])"
| "task_step L now secs (Cancelled c) sv =
     Some (sv\<lparr>srv_metrics := recordCancel (srv_metrics sv)\<rparr>,
       Reply (msg_orderCancelled L (cr_orderId c))
         [msg_orderUpdate L \<lparr>ou_orderId = cr_orderId c, ou_status = CANCELLED, ou_remaining = 0\<rparr>,
          getOrderBookMessage L sv], [])"
| "task_step L now secs (Load vs) sv =
     (if length vs < 4 then Some (sv, Load (vs @ [counters (srv_metrics sv) ! length vs]), [])
      else Some (sv, Reply (msg_metrics L (metrics_snapshot secs (loaded vs))) [], []))"
| "task_step L now secs (Reply d (b # bs)) sv = Some (sv, Reply d bs, [b])"
| "task_step L now secs (Reply d []) sv = Some (sv, Idle, [])"

record 'j system =
  sys_server :: server
  tasks :: "'j task list"
  sent_out :: "'j list"

definition initial_system :: "nat \<Rightarrow> 'j system" where
  "initial_system n = \<lparr>sys_server = initial_server, tasks = replicate n Idle, sent_out = []\<rparr>"

definition mutex_free :: "'j task list \<Rightarrow> bool" where
  "mutex_free ts = list_all (\<lambda>t. \<not> in_section t) ts"

text \<open>The task a request that was read starts with.\<close>

definition task_of :: "request \<Rightarrow> 'j task" where
  "task_of req = (case req of Place r \<Rightarrow> Want_Place r | Cancel c \<Rightarrow> Want_Cancel c | Get_Metrics \<Rightarrow> Load [])"

inductive interleaved :: "'j json_lib \<Rightarrow> nat \<Rightarrow> 'j system \<Rightarrow> bool" for L :: "'j json_lib" and n :: nat where
  inter_init: "interleaved L n (initial_system n)"
| inter_start: "interleaved L n s \<Longrightarrow> i < n \<Longrightarrow> tasks s ! i = Idle \<Longrightarrow> read_request L raw = Inr req \<Longrightarrow>
    interleaved L n (s\<lparr>tasks := (tasks s)[i := task_of req]\<rparr>)"
| inter_step: "interleaved L n s \<Longrightarrow> i < n \<Longrightarrow>
    (wants_mutex (tasks s ! i) \<Longrightarrow> mutex_free (tasks s)) \<Longrightarrow>
    task_step L now secs (tasks s ! i) (sys_server s) = Some (sv', t', out) \<Longrightarrow>
    interleaved L n (s\<lparr>sys_server := sv', tasks := (tasks s)[i := t'], sent_out := sent_out s @ out\<rparr>)"

subsection \<open>One task alone is the sequential handler\<close>

fun run_task ::
  "'j json_lib \<Rightarrow> u64 \<Rightarrow> double \<Rightarrow> nat \<Rightarrow> 'j task \<Rightarrow> server \<Rightarrow> 'j list \<Rightarrow> (server \<times> 'j task \<times> 'j list) option"
where
  "run_task L now secs 0 t sv out = Some (sv, t, out)"
| "run_task L now secs (Suc k) t sv out =
     (case task_step L now secs t sv of
        None \<Rightarrow> None
      | Some (sv', t', out') \<Rightarrow> run_task L now secs k t' sv' (out @ out'))"

lemma run_task_add:
  "run_task L now secs (j + k) t sv out =
     (case run_task L now secs j t sv out of
        None \<Rightarrow> None
      | Some (sv', t', out') \<Rightarrow> run_task L now secs k t' sv' out')"
  by (induction j arbitrary: t sv out) (auto split: option.splits)

lemma run_task_out: "run_task L now secs k t sv out = Some (sv', t', out') \<Longrightarrow> \<exists>new. out' = out @ new"
  by (induction k arbitrary: t sv out) (fastforce split: option.splits)+

lemma run_record:
  "run_task L now secs (2 * length ts) (Record req r ts) sv out =
     Some (sv\<lparr>srv_metrics := fold (\<lambda>t m. recordTrade (tm_quantity t) m) ts (srv_metrics sv)\<rparr>,
           Record req r [], out)"
  by (induction ts arbitrary: sv) (simp_all add: recordTrade_def)

lemma run_reply:
  "run_task L now secs (length bs) (Reply d bs) sv out = Some (sv, Reply d [], out @ bs)"
  by (induction bs arbitrary: out) simp_all

text \<open>From the reply on: every message is broadcast and the task ends.\<close>

lemma run_reply_end:
  "run_task L now secs (Suc (length bs)) (Reply d bs) sv out = Some (sv, Idle, out @ bs)"
proof -
  have "run_task L now secs (length bs + 1) (Reply d bs) sv out = Some (sv, Idle, out @ bs)"
    unfolding run_task_add run_reply by simp
  then show ?thesis by simp
qed

text \<open>The section of \<open>engineMutex_\<close>, alone.\<close>

lemma run_place_section:
  assumes "place_locked now req sv = Some (sv', r)"
  shows "run_task L now secs 3 (Want_Place req) sv out = Some (sv', after_section L (Placed req r), out)"
  using assms by (auto simp: place_locked_def eval_nat_numeral split: option.splits)

lemma run_cancel_section:
  assumes "cancel_locked req sv = Some (sv', c)"
  shows "run_task L now secs 3 (Want_Cancel req) sv out = Some (sv', after_section L (Removed c), out)"
  using assms by (auto simp: cancel_locked_def eval_nat_numeral split: option.splits)

lemma run_task_then:
  assumes "run_task L now secs j t sv out = Some (sv1, t1, out1)"
    and "run_task L now secs k t1 sv1 out1 = Some (sv2, t2, out2)"
  shows "\<exists>k. run_task L now secs k t sv out = Some (sv2, t2, out2)"
  using assms run_task_add [of L now secs j k t sv out] by auto

text \<open>Each request, alone, comes to the reply and the broadcasts that its handler returns.\<close>

lemma run_place_reply:
  assumes "serve_place L now req sv = Some (sv', res)"
  shows "\<exists>k. run_task L now secs k (Want_Place req) sv [] =
    Some (sv', Reply (directResponse res) (broadcasts res), [])"
proof -
  obtain sv1 r where pl: "place_locked now req sv = Some (sv1, r)"
    using assms by (auto simp: serve_place_def split: option.splits)
  note sect = run_place_section [OF pl, of L secs "[]"]
  show ?thesis
  proof (cases "er_accepted r")
    case False
    then show ?thesis
      using assms pl sect by (auto simp: serve_place_def direct_def after_section_def)
  next
    case True
    let ?sv = "sv1\<lparr>srv_metrics := recordOrder (srv_metrics sv1)\<rparr>"
    let ?sv2 = "?sv\<lparr>srv_metrics := fold (\<lambda>t m. recordTrade (tm_quantity t) m) (er_trades r) (srv_metrics ?sv)\<rparr>"
    have count: "run_task L now secs 1 (after_section L (Placed req r)) sv1 [] = Some (?sv, Record req r (er_trades r), [])"
      using True by (simp add: after_section_def)
    have reply: "run_task L now secs 1 (Record req r []) ?sv2 [] =
        Some (sv', Reply (directResponse res) (broadcasts res), [])"
      using assms pl True by (auto simp: serve_place_def place_broadcasts_def getOrderBookMessage_def)
    obtain k1 where k1: "run_task L now secs k1 (Want_Place req) sv [] = Some (?sv, Record req r (er_trades r), [])"
      using run_task_then [OF sect count] by blast
    obtain k2 where "run_task L now secs k2 (Want_Place req) sv [] = Some (?sv2, Record req r [], [])"
      using run_task_then [OF k1 run_record] by blast
    then show ?thesis by (rule run_task_then [OF _ reply])
  qed
qed

lemma run_cancel_reply:
  assumes "serve_cancel L req sv = Some (sv', res)"
  shows "\<exists>k. run_task L now secs k (Want_Cancel req) sv [] =
    Some (sv', Reply (directResponse res) (broadcasts res), [])"
proof -
  obtain sv1 c where pl: "cancel_locked req sv = Some (sv1, c)"
    using assms by (auto simp: serve_cancel_def split: option.splits)
  have "run_task L now secs (if cr_success c then 1 else 0) (after_section L (Removed c)) sv1 [] =
      Some (sv', Reply (directResponse res) (broadcasts res), [])"
    using assms pl by (auto simp: serve_cancel_def direct_def recordCancel_def after_section_def)
  then show ?thesis by (rule run_task_then [OF run_cancel_section [OF pl]])
qed

lemma loaded_counters: "loaded (counters m) = m"
  by (cases m) (simp add: loaded_def counters_def)

lemma run_load: "run_task L now secs 5 (Load []) sv out =
  Some (sv, Reply (msg_metrics L (metrics_snapshot secs (srv_metrics sv))) [], out)"
proof -
  have "run_task L now secs 4 (Load []) sv out = Some (sv, Load (counters (srv_metrics sv)), out)"
    by (simp add: eval_nat_numeral counters_def)
  then have "run_task L now secs (4 + 1) (Load []) sv out =
      Some (sv, Reply (msg_metrics L (metrics_snapshot secs (srv_metrics sv))) [], out)"
    unfolding run_task_add by (simp add: loaded_counters) (simp add: counters_def)
  then show ?thesis by simp
qed

lemma run_serve_reply:
  assumes "serve L now secs req sv = Some (sv', res)"
  shows "\<exists>k. run_task L now secs k (task_of req) sv [] =
    Some (sv', Reply (directResponse res) (broadcasts res), [])"
proof (cases req)
  case (Place r)
  then show ?thesis using run_place_reply [of L now r] assms by (simp add: serve_def task_of_def)
next
  case (Cancel c)
  then show ?thesis using run_cancel_reply [of L c] assms by (simp add: serve_def task_of_def)
next
  case Get_Metrics
  then show ?thesis
    using run_load [of L now secs sv "[]"] assms
    by (auto simp: serve_def task_of_def handleGetMetrics_def direct_def)
qed

lemma run_serve:
  assumes "serve L now secs req sv = Some (sv', res)"
  shows "\<exists>k. run_task L now secs k (task_of req) sv [] = Some (sv', Idle, broadcasts res)"
proof -
  obtain k where "run_task L now secs k (task_of req) sv [] =
      Some (sv', Reply (directResponse res) (broadcasts res), [])"
    using run_serve_reply [OF assms] by blast
  then have "run_task L now secs (k + Suc (length (broadcasts res))) (task_of req) sv [] =
      Some (sv', Idle, broadcasts res)"
    unfolding run_task_add by (simp add: run_reply_end del: run_task.simps)
  then show ?thesis by blast
qed

end
