(* ===== verification/Interleaving_Correct.thy ===== *)
theory Interleaving_Correct
  imports Interleaving
begin

text \<open>
  The invariant of the interleaved requests: one task at most is in the section of \<open>engineMutex_\<close>, the
  adapter is in a state that requests served one after the other reach, and what the metrics lack
  of the engine is what the requests under way still have to count.
\<close>

subsection \<open>What holds at every interleaving\<close>

text \<open>The trades of a task that the engine has made and the metrics do not yet count.\<close>

definition traded :: "outcome \<Rightarrow> trade_msg list" where
  "traded p = (case p of Placed req r \<Rightarrow> if er_accepted r then er_trades r else [] | Removed c \<Rightarrow> [])"

definition uncounted :: "'j task \<Rightarrow> trade_msg list" where
  "uncounted t =
     (case t of Counting p \<Rightarrow> traded p | Storing p n \<Rightarrow> traded p | Count req r \<Rightarrow> er_trades r
      | Record req r ts \<Rightarrow> ts | Add_Volume req r x ts \<Rightarrow> ts | _ \<Rightarrow> [])"

definition unadded :: "'j task \<Rightarrow> trade_msg list" where
  "unadded t =
     (case t of Counting p \<Rightarrow> traded p | Storing p n \<Rightarrow> traded p | Count req r \<Rightarrow> er_trades r
      | Record req r ts \<Rightarrow> ts | Add_Volume req r x ts \<Rightarrow> x # ts | _ \<Rightarrow> [])"

lemma uncounted_after [simp]: "uncounted (after_section L p) = traded p" "unadded (after_section L p) = traded p"
  by (simp_all add: uncounted_def unadded_def after_section_def traded_def split: outcome.split)

definition uncounted_trades :: "'j task list \<Rightarrow> i64" where
  "uncounted_trades ts = sum_list (map (\<lambda>t. of_nat (length (uncounted t))) ts)"

definition uncounted_volume :: "'j task list \<Rightarrow> i64" where
  "uncounted_volume ts = sum_list (map (\<lambda>t. sum_list (map tm_quantity (unadded t))) ts)"

lemma sum_list_word_update:
  fixes xs :: "i64 list"
  shows "i < length xs \<Longrightarrow> sum_list (xs[i := x]) = sum_list xs - xs ! i + x"
  by (induction xs arbitrary: i) (auto simp: nth_Cons' algebra_simps split: nat.splits if_splits)

lemma uncounted_update:
  assumes "i < length ts"
  shows "uncounted_trades (ts[i := t]) =
      uncounted_trades ts - of_nat (length (uncounted (ts ! i))) + of_nat (length (uncounted t))"
    and "uncounted_volume (ts[i := t]) =
      uncounted_volume ts - sum_list (map tm_quantity (unadded (ts ! i))) + sum_list (map tm_quantity (unadded t))"
  using assms by (simp_all add: uncounted_trades_def uncounted_volume_def map_update sum_list_word_update)

text \<open>What the requests under way ask for was checked when they were read.\<close>

definition valid_request :: "place_order_request \<Rightarrow> bool" where
  "valid_request req \<longleftrightarrow> 0 <s req_quantity req \<and> (req_orderType req = F_LIMIT \<longrightarrow> not_nan (req_price req))"

lemma adapter_place_log:
  assumes a: "adapter_reachable a" and req: "valid_request req"
    and pl: "adapter_placeOrder now (req_side req) (req_orderType req) (req_price req) (req_quantity req) a = Some (a', r)"
  defines "log \<equiv> getRecentTrades (adapter_engine a)" and "log' \<equiv> getRecentTrades (adapter_engine a')"
  shows "adapter_reachable a'"
    and "(of_nat (length log') :: i64) = of_nat (length log) + of_nat (length (traded (Placed req r)))"
    and "(of_nat (volume log') :: i64) = of_nat (volume log) + sum_list (map tm_quantity (traded (Placed req r)))"
proof -
  have q: "0 <s req_quantity req" and pr: "req_orderType req = F_LIMIT \<longrightarrow> not_nan (req_price req)"
    using req by (simp_all add: valid_request_def)
  note trades = adapter_place_trades [OF adapter_reachable_inv [OF a] pr pl]
  show "adapter_reachable a'" by (rule adapter_place [OF a pr pl])
  have comp: "tm_quantity \<circ> to_trade_msg = trade_quantity" by (auto simp: to_trade_msg_def)
  have vol: "(of_nat (volume ts) :: i64) = sum_list (map trade_quantity ts)" for ts
    by (simp add: volume_def sum_list_of_nat_unat)
  have sum: "sum_list (map tm_quantity (er_trades r)) = of_nat (volume (new_trades (adapter_engine a) (adapter_engine a')))"
    by (simp add: vol trades(2) comp)
  have rejected: "\<not> er_accepted r \<Longrightarrow> log' = log"
    using rejected_trade_log [OF a pr q pl] by (simp add: log_def log'_def getRecentTrades_def)
  show "(of_nat (length log') :: i64) = of_nat (length log) + of_nat (length (traded (Placed req r)))"
    using rejected trades(1) by (simp add: traded_def log_def log'_def getRecentTrades_def trades(2))
  show "(of_nat (volume log') :: i64) = of_nat (volume log) + sum_list (map tm_quantity (traded (Placed req r)))"
    using rejected trades(1) by (auto simp: traded_def sum log_def log'_def getRecentTrades_def volume_append volume_def)
qed

lemma adapter_cancel_log:
  assumes a: "adapter_reachable a" and pl: "adapter_cancelOrder i a = Some (a', c)"
  shows "adapter_reachable a'" and "recentTrades (adapter_engine a') = recentTrades (adapter_engine a)"
proof -
  show "adapter_reachable a'" by (rule adapter_cancel [OF a pl])
  show "recentTrades (adapter_engine a') = recentTrades (adapter_engine a)"
    by (rule adapter_cancel_outcome [OF adapter_reachable_inv [OF a], of i]) (use pl in auto)
qed

text \<open>One access changes what the log and the counters disagree about by nothing.\<close>

definition task_ok :: "'j task \<Rightarrow> bool" where
  "task_ok t = (case t of Want_Place req \<Rightarrow> valid_request req | _ \<Rightarrow> True)"

lemma task_ok_after [simp]: "task_ok (after_section L p)"
  by (simp add: task_ok_def after_section_def split: outcome.split)

definition log_of :: "server \<Rightarrow> trade list" where
  "log_of sv = getRecentTrades (adapter_engine (srv_adapter sv))"

definition trade_gap :: "server \<Rightarrow> 'j task \<Rightarrow> i64" where
  "trade_gap sv t = of_nat (length (log_of sv)) - tradesExecuted (srv_metrics sv) - of_nat (length (uncounted t))"

definition volume_gap :: "server \<Rightarrow> 'j task \<Rightarrow> i64" where
  "volume_gap sv t =
     of_nat (volume (log_of sv)) - totalVolume (srv_metrics sv) - sum_list (map tm_quantity (unadded t))"

lemmas metrics_ops = recordOrder_def recordTrade_def recordCancel_def setActiveOrders_def

lemmas gap_defs = trade_gap_def volume_gap_def log_of_def

lemma task_step_keeps:
  assumes a: "adapter_reachable (srv_adapter sv)" and ok: "task_ok t"
    and st: "task_step L now secs t sv = Some (sv', t', out)"
  shows "adapter_reachable (srv_adapter sv') \<and> task_ok t' \<and>
    trade_gap sv' t' = trade_gap sv t \<and> volume_gap sv' t' = volume_gap sv t"
proof (cases t)
  case (Want_Place req)
  have v: "valid_request req" using ok by (simp add: Want_Place task_ok_def)
  obtain a' r where p: "adapter_placeOrder now (req_side req) (req_orderType req) (req_price req) (req_quantity req)
      (srv_adapter sv) = Some (a', r)"
    using st by (auto simp: Want_Place split: option.splits)
  note k = adapter_place_log [OF a v p]
  show ?thesis
    using st k unfolding Want_Place task_step.simps p
    by (auto simp: task_ok_def gap_defs uncounted_def unadded_def)
next
  case (Want_Cancel req)
  obtain a' c where p: "adapter_cancelOrder (req_orderId req) (srv_adapter sv) = Some (a', c)"
    using st by (auto simp: Want_Cancel split: option.splits)
  note k = adapter_cancel_log [OF a p]
  show ?thesis
    using st k unfolding Want_Cancel task_step.simps p
    by (auto simp: task_ok_def gap_defs uncounted_def unadded_def traded_def getRecentTrades_def)
next
  case (Storing p n)
  have "uncounted t = traded p" "unadded t = traded p" by (simp_all add: Storing uncounted_def unadded_def)
  then show ?thesis using a st by (auto simp: Storing gap_defs setActiveOrders_def)
next
  case (Record req r ts)
  then show ?thesis
    using a st by (cases ts) (auto simp: task_ok_def gap_defs uncounted_def unadded_def)
next
  case (Reply d bs)
  then show ?thesis
    using a st by (cases bs) (auto simp: task_ok_def gap_defs uncounted_def unadded_def)
next
  case (Load vs)
  then show ?thesis
    using a st by (auto simp: task_ok_def gap_defs uncounted_def unadded_def split: if_splits)
qed (use a st in \<open>auto simp: task_ok_def gap_defs uncounted_def unadded_def metrics_ops\<close>)

subsection \<open>The mutex\<close>

text \<open>
  The active order count is that of the book unless a task is in its section, and what such a task
  is about to store is the count of the book.
\<close>

definition active_ok :: "server \<Rightarrow> bool" where
  "active_ok sv \<longleftrightarrow> activeOrders (srv_metrics sv) = of_nat (length (open_orders (srv_adapter sv)))"

definition count_ok :: "server \<Rightarrow> 'j task \<Rightarrow> bool" where
  "count_ok sv t = (case t of Storing p n \<Rightarrow> n = of_nat (length (open_orders (srv_adapter sv))) | _ \<Rightarrow> True)"

definition mutex_inv :: "server \<Rightarrow> 'j task list \<Rightarrow> bool" where
  "mutex_inv sv ts \<longleftrightarrow>
     (\<forall>i<length ts. \<forall>j<length ts. in_section (ts ! i) \<longrightarrow> in_section (ts ! j) \<longrightarrow> i = j) \<and>
     list_all (count_ok sv) ts \<and> (mutex_free ts \<longrightarrow> active_ok sv)"

lemma task_step_quiet:
  assumes "task_step L now secs t sv = Some (sv', t', out)"
  shows "\<not> wants_mutex t \<Longrightarrow> srv_adapter sv' = srv_adapter sv"
    and "\<not> in_section t \<Longrightarrow> activeOrders (srv_metrics sv') = activeOrders (srv_metrics sv)"
    and "\<not> wants_mutex t \<Longrightarrow> \<not> in_section t \<Longrightarrow> \<not> in_section t'"
    and "\<not> wants_mutex t'" and "in_section t' \<Longrightarrow> wants_mutex t \<or> in_section t"
  using assms
  by (cases "(L, now, secs, t, sv)" rule: task_step.cases;
      force simp: wants_mutex_def in_section_def after_section_def metrics_ops
        split: option.splits if_splits outcome.splits)+

lemma in_section_simps [simp]:
  "\<not> in_section Idle" "\<not> in_section (Reply d bs)" "\<not> in_section (task_of req)"
  "in_section (Counting p)" "in_section (Storing p k)"
  by (simp_all add: in_section_def task_of_def split: request.split)

lemma wants_mutex_simps [simp]:
  "\<not> wants_mutex Idle" "\<not> wants_mutex (Reply d bs)" "wants_mutex (Want_Place r)" "wants_mutex (Want_Cancel c)"
  by (simp_all add: wants_mutex_def)

lemma wants_not_in: "wants_mutex t \<Longrightarrow> \<not> in_section t"
  by (simp add: wants_mutex_def in_section_def split: task.splits)

lemma list_all_update: "list_all P xs \<Longrightarrow> P x \<Longrightarrow> list_all P (xs[i := x])"
  unfolding list_all_iff using set_update_subset_insert [of xs i x] by blast

lemma mutex_free_update: "i < length ts \<Longrightarrow>
  mutex_free (ts[i := t]) \<longleftrightarrow> \<not> in_section t \<and> (\<forall>j<length ts. j \<noteq> i \<longrightarrow> \<not> in_section (ts ! j))"
  by (auto simp: mutex_free_def list_all_length nth_list_update)

lemma mutex_inv_step:
  assumes inv: "mutex_inv sv ts" and i: "i < length ts"
    and free: "wants_mutex (ts ! i) \<Longrightarrow> mutex_free ts"
    and st: "task_step L now secs (ts ! i) sv = Some (sv', t', out)"
  shows "mutex_inv sv' (ts[i := t'])"
proof -
  note quiet = task_step_quiet [OF st]
  have one: "in_section (ts ! k) \<Longrightarrow> in_section (ts ! j) \<Longrightarrow> k < length ts \<Longrightarrow> j < length ts \<Longrightarrow> k = j" for k j
    using inv by (simp add: mutex_inv_def)
  have others: "\<not> in_section (ts ! j)" if "in_section t'" "j < length ts" "j \<noteq> i" for j
    using quiet(5) [OF that(1)] free one i that(2,3) by (auto simp: mutex_free_def list_all_length)
  have "k = j"
    if "in_section (ts[i := t'] ! k)" "in_section (ts[i := t'] ! j)" "k < length ts" "j < length ts" for k j
    using that others [of k] others [of j] one [of k j] by (cases "k = i"; cases "j = i") simp_all
  moreover have "count_ok sv' (ts[i := t'] ! j)" if j: "j < length ts" for j
  proof (cases "j = i")
    case True
    have "count_ok sv' t'"
    proof (cases "ts ! i")
      case (Counting p)
      then show ?thesis using st by (auto simp: count_ok_def getActiveOrderCount_def)
    next
      case (Record req r ts')
      then show ?thesis using st by (cases ts') (auto simp: count_ok_def)
    next
      case (Reply d bs)
      then show ?thesis using st by (cases bs) (auto simp: count_ok_def)
    qed (use st in \<open>auto simp: count_ok_def after_section_def split: option.splits if_splits outcome.splits\<close>)
    then show ?thesis using True i by simp
  next
    case False
    have old: "count_ok sv (ts ! j)" using inv j by (simp add: mutex_inv_def list_all_length)
    show ?thesis
    proof (cases "wants_mutex (ts ! i)")
      case True
      then have "\<not> in_section (ts ! j)" using free j by (simp add: mutex_free_def list_all_length)
      then show ?thesis using False by (auto simp: count_ok_def in_section_def split: task.splits)
    next
      case w: False
      then show ?thesis using quiet(1) old False by (simp add: count_ok_def split: task.splits)
    qed
  qed
  moreover have "active_ok sv'" if "mutex_free (ts[i := t'])"
  proof -
    from that have t': "\<not> in_section t'" and rest: "\<And>j. j < length ts \<Longrightarrow> j \<noteq> i \<Longrightarrow> \<not> in_section (ts ! j)"
      using mutex_free_update [OF i] by blast+
    have w: "\<not> wants_mutex (ts ! i)"
      using st t' by (cases "ts ! i") (auto simp: wants_mutex_def in_section_def split: option.splits)
    show ?thesis
    proof (cases "in_section (ts ! i)")
      case True
      then obtain p k where k: "ts ! i = Storing p k"
        using st t' by (cases "ts ! i") (auto simp: in_section_def)
      then have "k = of_nat (length (open_orders (srv_adapter sv)))"
        using inv i by (auto simp: mutex_inv_def count_ok_def list_all_length split: task.splits)
      then show ?thesis using st by (auto simp: k active_ok_def setActiveOrders_def)
    next
      case False
      then have "mutex_free ts" using rest by (auto simp: mutex_free_def list_all_length)
      then have "active_ok sv" using inv by (simp add: mutex_inv_def)
      then show ?thesis using quiet(1) [OF w] quiet(2) [OF False] by (simp add: active_ok_def)
    qed
  qed
  ultimately show ?thesis by (simp add: mutex_inv_def list_all_length)
qed

lemma mutex_inv_start:
  assumes inv: "mutex_inv sv ts" and i: "i < length ts" "\<not> in_section (ts ! i)" and t: "\<not> in_section t"
  shows "mutex_inv sv (ts[i := t])"
proof -
  have "count_ok sv t" using t by (auto simp: count_ok_def in_section_def split: task.splits)
  then have "list_all (count_ok sv) (ts[i := t])" using inv by (simp add: mutex_inv_def list_all_update)
  moreover have "mutex_free ts" if "mutex_free (ts[i := t])"
    using that i mutex_free_update [OF i(1), of t] by (auto simp: mutex_free_def list_all_length)
  moreover have "in_section (ts ! k)" "k \<noteq> i" if "in_section (ts[i := t] ! k)" "k < length ts" for k
    using that t by (cases "k = i"; simp)+
  ultimately show ?thesis using inv by (auto simp: mutex_inv_def)
qed

lemma mutex_inv_initial: "active_ok sv \<Longrightarrow> mutex_inv sv (replicate n Idle)"
  by (simp add: mutex_inv_def in_section_def count_ok_def list_all_length)

definition system_inv :: "nat \<Rightarrow> 'j system \<Rightarrow> bool" where
  "system_inv n s \<longleftrightarrow>
     (let sv = sys_server s; m = srv_metrics sv in
        length (tasks s) = n \<and> adapter_reachable (srv_adapter sv) \<and> list_all task_ok (tasks s) \<and>
        mutex_inv sv (tasks s) \<and>
        tradesExecuted m + uncounted_trades (tasks s) = of_nat (length (log_of sv)) \<and>
        totalVolume m + uncounted_volume (tasks s) = of_nat (volume (log_of sv)))"

lemma uncounted_task_of [simp]: "uncounted (task_of req) = []" "unadded (task_of req) = []"
  by (cases req; simp add: task_of_def uncounted_def unadded_def)+

lemma task_ok_task_of:
  assumes "json_no_nan L" and "read_request L raw = Inr req"
  shows "task_ok (task_of req)"
proof (cases req)
  case (Place pr)
  then show ?thesis
    using read_request_Place [OF assms(1)] assms(2)
    by (simp add: task_ok_def task_of_def valid_request_def)
qed (simp_all add: task_ok_def task_of_def)

lemma system_inv_init: "system_inv n (initial_system n)"
proof -
  have "uncounted_trades (replicate n Idle) = 0" "uncounted_volume (replicate n Idle) = 0"
    by (simp_all add: uncounted_trades_def uncounted_volume_def uncounted_def unadded_def map_replicate_const sum_list_replicate)
  moreover have "metrics_agree initial_server" "adapter_reachable initial_adapter"
    using server_reachable_inv [OF sample_json_getters sample_json_no_nan server_init]
    by (simp_all add: initial_server_def)
  moreover have "mutex_inv initial_server (replicate n Idle)"
    by (rule mutex_inv_initial) (use calculation(3) in \<open>simp add: metrics_agree_def active_ok_def Let_def\<close>)
  ultimately show ?thesis
    by (simp add: system_inv_def initial_system_def metrics_agree_def log_of_def Let_def
        list_all_iff task_ok_def) (simp add: initial_server_def)
qed

lemma gap_balance:
  fixes a :: "'a::ab_group_add"
  assumes "a' - t' - u' = a - t - u" and "t + s = a"
  shows "t' + (s - u + u') = a'"
proof -
  have "a' = (a' - t' - u') + t' + u'" by simp
  also have "\<dots> = t' + (s - u + u')" unfolding assms(1) by (simp add: assms(2) [symmetric] algebra_simps)
  finally show ?thesis by simp
qed

lemma system_inv_step:
  assumes inv: "system_inv n s" and i: "i < n" and free: "wants_mutex (tasks s ! i) \<Longrightarrow> mutex_free (tasks s)"
    and st: "task_step L now secs (tasks s ! i) (sys_server s) = Some (sv', t', out)"
  shows "system_inv n (s\<lparr>sys_server := sv', tasks := (tasks s)[i := t'], sent_out := o'\<rparr>)"
proof -
  have len: "i < length (tasks s)" using inv i by (simp add: system_inv_def Let_def)
  have ok: "task_ok (tasks s ! i)" "adapter_reachable (srv_adapter (sys_server s))" "mutex_inv (sys_server s) (tasks s)"
    using inv len by (simp_all add: system_inv_def Let_def list_all_length)
  note k = task_step_keeps [OF ok(2,1) st]
  note m = mutex_inv_step [OF ok(3) len free st]
  have tasks: "list_all task_ok ((tasks s)[i := t'])"
    by (rule list_all_update) (use inv k in \<open>simp_all add: system_inv_def Let_def\<close>)
  show ?thesis
    unfolding system_inv_def Let_def
    using inv k m tasks gap_balance [OF k [THEN conjunct2, THEN conjunct2, THEN conjunct1, unfolded trade_gap_def]]
      gap_balance [OF k [THEN conjunct2, THEN conjunct2, THEN conjunct2, unfolded volume_gap_def]]
    by (simp add: system_inv_def Let_def uncounted_update [OF len])
qed

lemma interleaved_inv:
  assumes "json_no_nan L" and "interleaved L n s"
  shows "system_inv n s"
  using assms(2)
proof (induction rule: interleaved.induct)
  case (inter_start s i raw req)
  then have len: "i < length (tasks s)" and idle: "uncounted (tasks s ! i) = []" "unadded (tasks s ! i) = []"
    by (simp_all add: system_inv_def Let_def uncounted_def unadded_def)
  have "list_all task_ok ((tasks s)[i := task_of req])"
    by (rule list_all_update) (use inter_start.IH task_ok_task_of [OF assms(1) inter_start.hyps(4)] in
      \<open>simp_all add: system_inv_def Let_def\<close>)
  moreover have "mutex_inv (sys_server s) ((tasks s)[i := task_of req])"
    by (rule mutex_inv_start) (use inter_start len in
      \<open>auto simp: system_inv_def Let_def in_section_def task_of_def split: request.split\<close>)
  ultimately show ?case
    using inter_start.IH by (simp add: system_inv_def Let_def uncounted_update [OF len] idle)
qed (simp_all add: system_inv_init system_inv_step)

lemma interleaved_length: "json_no_nan L \<Longrightarrow> interleaved L n s \<Longrightarrow> length (tasks s) = n"
  using interleaved_inv [of L n s] by (simp add: system_inv_def Let_def)

lemma mutex_free_simps [simp]:
  "mutex_free []" "mutex_free (t # ts) \<longleftrightarrow> \<not> in_section t \<and> mutex_free ts"
  "mutex_free (replicate n Idle)"
  by (auto simp: mutex_free_def list_all_iff)

lemma mutex_free_nth: "mutex_free ts \<longleftrightarrow> (\<forall>j<length ts. \<not> in_section (ts ! j))"
  by (simp add: mutex_free_def list_all_length)

lemma all_idle_uncounted:
  assumes "\<forall>t\<in>set ts. t = Idle"
  shows "uncounted_trades ts = 0" and "uncounted_volume ts = 0"
  using assms by (induction ts) (simp_all add: uncounted_trades_def uncounted_volume_def uncounted_def unadded_def)

lemma all_idle_free: "\<forall>t\<in>set ts. t = Idle \<Longrightarrow> mutex_free ts"
  by (auto simp: mutex_free_def list_all_iff in_section_def)

end
