(* ===== verification/Interleaving_Theorems.thy ===== *)
theory Interleaving_Theorems
  imports Interleaving_Correct
begin

text \<open>
  The properties of requests served at the same time: what holds between any two actions, the
  agreement with the sequential handler, and the one order of actions that shows the clients a
  book that is not the current one.
\<close>

text \<open>
  C18: whatever requests of several sessions are served at the same time, and however their accesses
  interleave: one task at most is in the section of \<open>engineMutex_\<close>; the engine is in a state that
  requests served one after the other reach; while no task is in the section the active order count
  of the metrics is that of the book; and what the trade counters lack of the trade log is exactly
  what the requests under way still have to count. Once every thread is idle the metrics agree with
  the engine.
\<close>

theorem engine_serialised_under_interleaving:
  assumes "json_no_nan L" and "interleaved L n s"
  shows "(\<forall>i<n. \<forall>j<n. in_section (tasks s ! i) \<longrightarrow> in_section (tasks s ! j) \<longrightarrow> i = j) \<and>
    adapter_reachable (srv_adapter (sys_server s)) \<and>
    (mutex_free (tasks s) \<longrightarrow>
      activeOrders (srv_metrics (sys_server s)) = of_nat (length (open_orders (srv_adapter (sys_server s))))) \<and>
    tradesExecuted (srv_metrics (sys_server s)) + uncounted_trades (tasks s) =
      of_nat (length (getRecentTrades (adapter_engine (srv_adapter (sys_server s))))) \<and>
    totalVolume (srv_metrics (sys_server s)) + uncounted_volume (tasks s) =
      of_nat (volume (getRecentTrades (adapter_engine (srv_adapter (sys_server s))))) \<and>
    ((\<forall>t\<in>set (tasks s). t = Idle) \<longrightarrow> metrics_agree (sys_server s))"
  using interleaved_inv [OF assms] all_idle_uncounted [of "tasks s"] all_idle_free [of "tasks s"]
  by (auto simp: system_inv_def mutex_inv_def Let_def active_ok_def log_of_def metrics_agree_def)

subsection \<open>Runs of one task\<close>

lemma interleaved_run:
  assumes "run_task L now secs k t (sys_server s) out = Some (sv', t', out')"
    and "interleaved L n s" and "i < n" and "tasks s ! i = t" and "length (tasks s) = n"
    and "\<And>j. j < n \<Longrightarrow> j \<noteq> i \<Longrightarrow> \<not> in_section (tasks s ! j)"
  shows "\<exists>new. out' = out @ new \<and>
    interleaved L n (s\<lparr>sys_server := sv', tasks := (tasks s)[i := t'], sent_out := sent_out s @ new\<rparr>)"
  using assms
proof (induction k arbitrary: t s out)
  case 0
  then have "s\<lparr>sys_server := sv', tasks := (tasks s)[i := t'], sent_out := sent_out s @ []\<rparr> = s" by auto
  then show ?case using 0 by (metis append_Nil2 old.prod.inject option.inject run_task.simps(1))
next
  case (Suc k)
  then obtain sv1 t1 o1 where st: "task_step L now secs (tasks s ! i) (sys_server s) = Some (sv1, t1, o1)"
    and rest: "run_task L now secs k t1 sv1 (out @ o1) = Some (sv', t', out')"
    by (auto split: option.splits)
  let ?s = "s\<lparr>sys_server := sv1, tasks := (tasks s)[i := t1], sent_out := sent_out s @ o1\<rparr>"
  have "mutex_free (tasks s)" if "wants_mutex (tasks s ! i)"
    unfolding mutex_free_nth using wants_not_in [OF that] Suc.prems(5,6) by metis
  then have "interleaved L n ?s" by (rule inter_step [OF Suc.prems(2,3) _ st])
  then obtain new where "out' = (out @ o1) @ new" and
    "interleaved L n (?s\<lparr>sys_server := sv', tasks := (tasks ?s)[i := t'], sent_out := sent_out ?s @ new\<rparr>)"
    using Suc.IH [of t1 ?s "out @ o1"] rest Suc.prems(3,5,6) by auto
  then show ?case by (intro exI [of _ "o1 @ new"]) simp
qed

lemma serve_interleaved:
  assumes "interleaved L n s" and i: "i < n" and idle: "tasks s ! i = Idle" and len: "length (tasks s) = n"
    and free: "mutex_free (tasks s)" and read: "read_request L raw = Inr req" and serve: "serve L now secs req (sys_server s) = Some (sv', res)"
  shows "interleaved L n (s\<lparr>sys_server := sv', sent_out := sent_out s @ broadcasts res\<rparr>)"
proof -
  let ?s = "s\<lparr>tasks := (tasks s)[i := task_of req]\<rparr>"
  have start: "interleaved L n ?s" by (rule inter_start [OF assms(1-3) read])
  have "\<exists>k. run_task L now secs k (task_of req) (sys_server s) [] = Some (sv', Idle, broadcasts res)"
    by (rule run_serve [OF serve])
  then obtain k where "run_task L now secs k (task_of req) (sys_server ?s) [] = Some (sv', Idle, broadcasts res)"
    by auto
  then have "interleaved L n (?s\<lparr>sys_server := sv', tasks := (tasks ?s)[i := Idle],
      sent_out := sent_out ?s @ broadcasts res\<rparr>)"
    using interleaved_run [OF _ start i] i len free by (fastforce simp: mutex_free_def list_all_length)
  moreover have "(tasks s)[i := Idle] = tasks s" using idle by (metis list_update_id)
  ultimately show ?thesis by simp
qed

text \<open>
  Serving a request in one go is one of the interleavings. When a thread is idle and a request
  arrives, then whatever the others are doing outside the section of \<open>engineMutex_\<close>, the system that \<open>handle\<close> and the broadcasts of its
  result lead to, without any action of the others in between, is one that the interleaved actions
  reach. So every behaviour of the sequential server is a behaviour of the concurrent one.
\<close>

lemma sequential_handler_is_an_interleaving:
  assumes "json_getters L" and "json_no_nan L" and "interleaved L n s" and "i < n" and "tasks s ! i = Idle"
    and "read_request L raw = Inr req" and "handle L now secs raw (sys_server s) = Some (sv', Inr res)"
    and "mutex_free (tasks s)"
  shows "interleaved L n (s\<lparr>sys_server := sv', sent_out := sent_out s @ broadcasts res\<rparr>)"
proof (rule serve_interleaved [OF assms(3-5) interleaved_length [OF assms(2,3)] assms(8,6)])
  show "serve L now secs req (sys_server s) = Some (sv', res)"
    using assms(6,7) handle_serve [OF assms(1)] by auto
qed


subsection \<open>Two requests, and the order of their broadcasts\<close>

definition buy_request :: place_order_request where
  "buy_request = \<lparr>req_side = F_BUY, req_orderType = F_LIMIT, req_price = d100, req_quantity = 100\<rparr>"

definition cancel_request :: cancel_order_request where
  "cancel_request = \<lparr>req_orderId = 1\<rparr>"

definition book_with_bid :: snapshot where
  "book_with_bid = \<lparr>snap_bids = [\<lparr>pl_price = d100, pl_quantity = 100\<rparr>], snap_asks = []\<rparr>"

definition empty_book :: snapshot where
  "empty_book = \<lparr>snap_bids = [], snap_asks = []\<rparr>"

lemma buy_read: "read_request sample_json ''buy 100 at 100'' = Inr (Place buy_request)"
  by (simp add: read_request_def read_fields_def server_simps sample_json_simps word_sle_eq buy_request_def d100_def)

lemma place_locked_one:
  "\<exists>r. place_locked 0 buy_request initial_server = Some
    (\<lparr>srv_adapter = adapter_one, srv_metrics = setActiveOrders 1 initial_metrics\<rparr>, r) \<and>
    er_accepted r \<and> er_trades r = [] \<and> er_orderUpdates r = [] \<and> er_bookChanged r"
  by (simp add: adapter_one_state)
     (simp add: buy_request_def server_simps sample_eval word_sle_eq)

lemma adapter_one_book: "adapter_getOrderBook adapter_one = book_with_bid"
  by (simp add: adapter_one_state) (simp add: book_with_bid_def server_simps sample_eval)

lemma serve_cancel_one:
  assumes "srv_adapter sv = adapter_one"
  shows "\<exists>sv' res. serve L now secs (Cancel cancel_request) sv = Some (sv', res) \<and>
    adapter_getOrderBook (srv_adapter sv') = empty_book"
  by (simp add: serve_def serve_cancel_def cancel_request_def server_simps assms adapter_one_state sample_eval empty_book_def)

text \<open>The first request up to the reading of the order book; the cancellation in one go; the rest.\<close>

lemma buy_until_reply:
  "\<exists>sv d. run_task L 0 double_zero 5 (Want_Place buy_request) initial_server [] =
    Some (sv, Reply d [msg_orderBook L book_with_bid], []) \<and> srv_adapter sv = adapter_one"
proof -
  obtain r where pl: "place_locked 0 buy_request initial_server = Some
      (\<lparr>srv_adapter = adapter_one, srv_metrics = setActiveOrders 1 initial_metrics\<rparr>, r)"
    and r: "er_accepted r" "er_trades r = []" "er_orderUpdates r = []" "er_bookChanged r"
    using place_locked_one by blast
  let ?sv = "\<lparr>srv_adapter = adapter_one, srv_metrics = recordOrder (setActiveOrders 1 initial_metrics)\<rparr>"
  have "run_task L 0 double_zero (3 + 2) (Want_Place buy_request) initial_server [] =
      Some (?sv, Reply (accepted_message L buy_request (er_orderId r)) [msg_orderBook L book_with_bid], [])"
    unfolding run_task_add run_place_section [OF pl]
    by (simp add: eval_nat_numeral r place_broadcasts_def getOrderBookMessage_def adapter_one_book after_section_def)
  then have "run_task L 0 double_zero 5 (Want_Place buy_request) initial_server [] =
      Some (?sv, Reply (accepted_message L buy_request (er_orderId r)) [msg_orderBook L book_with_bid], [])"
    by simp
  then show ?thesis by (intro exI conjI) (assumption, simp)
qed

lemma stale_run:
  assumes p: "read_request L p = Inr (Place buy_request)" and c: "read_request L c = Inr (Cancel cancel_request)"
  shows "\<exists>s. interleaved L 2 s \<and> tasks s = [Idle, Idle] \<and> sent_out s \<noteq> [] \<and>
    last (sent_out s) = msg_orderBook L book_with_bid \<and>
    getOrderBookMessage L (sys_server s) = msg_orderBook L empty_book"
proof -
  let ?s0 = "initial_system 2 :: 'a system"
  let ?s1 = "?s0\<lparr>tasks := [Want_Place buy_request, Idle]\<rparr>"
  have start: "interleaved L 2 ?s1"
    using inter_start [OF inter_init, of 0 2 L p "Place buy_request"] p
    by (simp add: initial_system_def task_of_def numeral_2_eq_2)
  let ?b = "msg_orderBook L book_with_bid"
  obtain sv d where "run_task L 0 double_zero 5 (Want_Place buy_request) initial_server [] = Some (sv, Reply d [?b], [])"
    and sv: "srv_adapter sv = adapter_one"
    using buy_until_reply [of L] by (elim exE conjE)
  then have "run_task L 0 double_zero 5 (tasks ?s1 ! 0) (sys_server ?s1) [] = Some (sv, Reply d [?b], [])"
    by (simp add: initial_system_def)
  from interleaved_run [OF this start _ refl]
  have mid: "interleaved L 2 \<lparr>sys_server = sv, tasks = [Reply d [?b], Idle], sent_out = []\<rparr>" (is "interleaved L 2 ?s2")
    by (simp add: initial_system_def)
  have adp: "srv_adapter (sys_server ?s2) = adapter_one" using sv by simp
  obtain sv' res where served: "serve L 0 double_zero (Cancel cancel_request) (sys_server ?s2) = Some (sv', res)"
    and empty: "adapter_getOrderBook (srv_adapter sv') = empty_book"
    using serve_cancel_one [OF adp] by blast
  have cancelled: "interleaved L 2 \<lparr>sys_server = sv', tasks = [Reply d [?b], Idle], sent_out = broadcasts res\<rparr>" (is "interleaved L 2 ?s3")
    using serve_interleaved [OF mid, of 1, OF _ _ _ _ c served] by simp
  have "run_task L 0 double_zero 2 (tasks ?s3 ! 0) (sys_server ?s3) [] = Some (sv', Idle, [?b])"
    by (simp add: eval_nat_numeral)
  from interleaved_run [OF this cancelled _ refl]
  have "interleaved L 2 \<lparr>sys_server = sv', tasks = [Idle, Idle], sent_out = broadcasts res @ [?b]\<rparr>"
    by simp
  then show ?thesis by (intro exI conjI) (assumption, simp_all add: getOrderBookMessage_def empty)
qed

text \<open>
  The clients can be left with an order book that is not the current one. The book is read
  after \<open>engineMutex_\<close> was released and broadcast later still: when a BUY order is placed by one
  session and cancelled by another, there is an interleaving after which every thread is idle, the
  last message broadcast is the book with the order, and the current book is empty.
\<close>

lemma stale_book_can_be_broadcast_last:
  assumes "read_request L p = Inr (Place buy_request)" and "read_request L c = Inr (Cancel cancel_request)"
  shows "\<exists>s. interleaved L 2 s \<and> tasks s = [Idle, Idle] \<and> sent_out s \<noteq> [] \<and>
    last (sent_out s) = msg_orderBook L book_with_bid \<and>
    getOrderBookMessage L (sys_server s) = msg_orderBook L empty_book"
  by (rule stale_run [OF assms])

text \<open>One request served, the other thread idle.\<close>

lemma buy_handled:
  "\<exists>res. handle sample_json 0 double_zero ''buy 100 at 100'' initial_server = Some (server_one, Inr res)"
  using server_one_step buy_read handle_serve [OF sample_json_getters, of 0 double_zero "''buy 100 at 100''" initial_server]
  by (auto simp: server_one_def sample_serve_def)

lemma interleaved_one:
  "\<exists>out. interleaved sample_json 2 \<lparr>sys_server = server_one, tasks = [Idle, Idle], sent_out = out\<rparr>"
proof -
  obtain res where "handle sample_json 0 double_zero ''buy 100 at 100'' initial_server = Some (server_one, Inr res)"
    using buy_handled by blast
  then have "serve sample_json 0 double_zero (Place buy_request) (sys_server (initial_system 2 :: jval system)) =
      Some (server_one, res)"
    using buy_read handle_serve [OF sample_json_getters] by (auto simp: initial_system_def)
  from serve_interleaved [OF inter_init _ _ _ _ buy_read this, of 0]
  show ?thesis by (auto simp: initial_system_def numeral_2_eq_2)
qed

theorem engine_serialised_under_interleaving_witness:
  "metrics_agree server_one \<and> adapter_reachable (srv_adapter server_one)"
proof -
  obtain out where "interleaved sample_json 2 \<lparr>sys_server = server_one, tasks = [Idle, Idle], sent_out = out\<rparr>"
    using interleaved_one by blast
  from engine_serialised_under_interleaving [OF sample_json_no_nan this] show ?thesis by simp
qed

end
