(* ===== verification/Concurrent_Server.thy ===== *)
theory Concurrent_Server
  imports Interleaving_Theorems
begin

text \<open>
  The server as it runs on the threads of \<open>Server::run\<close>. A session is a strand: at most one of its
  handlers runs at a time, while the handlers of other sessions run on other threads. A \<open>job\<close> is how
  far the running handler of a session has come; \<open>job_step\<close> is its next access to something
  shared: the client manager, the engine and the metrics (\<open>task_step\<close>), the \<open>send\<close> of one session.
  \<open>onSend\<close> and \<open>onWrite\<close> touch only their own session and are one step, except for \<open>disconnect\<close>,
  which sets \<open>closed_\<close> before it leaves the client manager. A handler that wants \<open>engineMutex_\<close> waits
  while another is in its section. Any number of threads is allowed.
\<close>

datatype 'j job =
    Ready
  | Joining
  | Reading_Book
  | Sending_Book 'j
  | Serving "'j task"
  | Answering 'j "'j list"
  | Broadcasting "'j list"
  | Sending string "nat list" "'j list"
  | Reporting string
  | Rereading
  | Leaving

record 'j world =
  hub :: hub
  jobs :: "nat \<Rightarrow> 'j job"
  announced :: "'j list"
  stopped :: bool

text \<open>The handlers that wait for \<open>engineMutex_\<close> and the one that has it.\<close>

definition waiting :: "'j job \<Rightarrow> bool" where
  "waiting j = (case j of Serving t \<Rightarrow> wants_mutex t | _ \<Rightarrow> False)"

definition has_mutex :: "'j job \<Rightarrow> bool" where
  "has_mutex j = (case j of Serving t \<Rightarrow> in_section t | _ \<Rightarrow> False)"

definition engine_mutex_free :: "'j world \<Rightarrow> bool" where
  "engine_mutex_free w \<longleftrightarrow> (\<forall>i<accepted (hub w). \<not> has_mutex (jobs w i))"

definition initial_world :: "'j world" where
  "initial_world = \<lparr>hub = initial_hub, jobs = (\<lambda>_. Ready), announced = [], stopped = False\<rparr>"

text \<open>
  \<open>RequestHandler::handle\<close> up to the call of a handler of the request: parsing touches nothing
  shared. A protocol error is answered, another exception is caught around the handlers, or, when
  it comes from the parser, leaves \<open>handle\<close>. \<open>None\<close> is undefined behaviour.
\<close>

definition answer_error :: "'j json_lib \<Rightarrow> string \<Rightarrow> 'j job" where
  "answer_error L m = Answering (msg_error L m) []"

definition begin_request :: "'j json_lib \<Rightarrow> string \<Rightarrow> 'j job option" where
  "begin_request L raw =
     (case protocol_parse L raw of
        Inl (ProtocolError e) \<Rightarrow> Some (answer_error L e)
      | Inl (StdException w) \<Rightarrow> Some (Reporting w)
      | Inl Undefined \<Rightarrow> None
      | Inr msg \<Rightarrow>
          (case getMessageType L msg of
             Inl (ProtocolError e) \<Rightarrow> Some (answer_error L e)
           | Inl (StdException w) \<Rightarrow> Some (Reporting w)
           | Inl Undefined \<Rightarrow> None
           | Inr type \<Rightarrow>
               (case read_fields L msg type of
                  Inl (ProtocolError e) \<Rightarrow> Some (answer_error L e)
                | Inl (StdException w) \<Rightarrow> Some (answer_error L (''Internal error: '' @ w))
                | Inl Undefined \<Rightarrow> None
                | Inr req \<Rightarrow> Some (Serving (task_of req)))))"

text \<open>
  The next step of the handler that runs for session \<open>i\<close>; \<open>ts\<close> is the order in which a broadcast
  finds the members of \<open>sessions_\<close>. The result is the next job, the state that is shared, and what
  was begun to be broadcast.
\<close>

fun job_step ::
  "'j json_lib \<Rightarrow> u64 \<Rightarrow> double \<Rightarrow> nat \<Rightarrow> nat list \<Rightarrow> 'j job \<Rightarrow> hub \<Rightarrow> ('j job \<times> hub \<times> 'j list) option"
where
  "job_step L now secs i ts Ready h = None"
| "job_step L now secs i ts Joining h = Some (Reading_Book, addClient i h, [])"
| "job_step L now secs i ts Reading_Book h = Some (Sending_Book (getOrderBookMessage L (srv h)), h, [])"
| "job_step L now secs i ts (Sending_Book b) h =
     (case js_dump L b of
        Inl w \<Rightarrow> Some (Rereading, h, [])
      | Inr m \<Rightarrow> Some (Rereading, send_to i m h, []))"
| "job_step L now secs i ts (Serving (Reply d bs)) h = Some (Answering d bs, h, [])"
| "job_step L now secs i ts (Serving t) h =
     (case task_step L now secs t (srv h) of
        None \<Rightarrow> None
      | Some (sv', t', out) \<Rightarrow> Some (Serving t', h\<lparr>srv := sv'\<rparr>, out))"
| "job_step L now secs i ts (Answering d bs) h =
     (if js_is_null L d then Some (Broadcasting bs, h, [])
      else case js_dump L d of
             Inl w \<Rightarrow> Some (Reporting w, h, [])
           | Inr m \<Rightarrow> Some (Broadcasting bs, send_to i m h, []))"
| "job_step L now secs i ts (Broadcasting []) h = Some (Rereading, h, [])"
| "job_step L now secs i ts (Broadcasting (b # bs)) h =
     (case js_dump L b of
        Inl w \<Rightarrow> Some (Reporting w, h, [])
      | Inr m \<Rightarrow> Some (Sending m ts bs, h, [b]))"
| "job_step L now secs i ts (Sending m [] bs) h = Some (Broadcasting bs, h, [])"
| "job_step L now secs i ts (Sending m (j # js) bs) h = Some (Sending m js bs, send_to j m h, [])"
| "job_step L now secs i ts (Reporting w) h =
     (case js_dump L (msg_error L (''Server error: '' @ w)) of
        Inl w' \<Rightarrow> None
      | Inr m \<Rightarrow> Some (Rereading, send_to i m h, []))"
| "job_step L now secs i ts Rereading h =
     (case start_read i h of None \<Rightarrow> None | Some h' \<Rightarrow> Some (Ready, h', []))"
| "job_step L now secs i ts Leaving h = Some (Ready, removeClient i h, [])"

text \<open>\<open>disconnect\<close> up to the exchange of \<open>closed_\<close>: the session and the job that is left to do.\<close>

definition begin_disconnect :: "session \<Rightarrow> session \<times> 'j job" where
  "begin_disconnect s = (if closed s then (s, Ready) else (s\<lparr>closed := True\<rparr>, Leaving))"

datatype world_event =
    Loop server_event
  | Job_Step nat "nat list"
  | Stop

text \<open>
  The events: a handler can start when its completion is enabled, no handler of the same session
  runs and \<open>stop\<close> was not called; a running handler can go on, also after \<open>stop\<close>, unless it waits for
  the mutex and another has it.
\<close>

definition event_session :: "server_event \<Rightarrow> nat option" where
  "event_session ev =
     (case ev of Connect ec \<Rightarrow> None | Handshake i ec \<Rightarrow> Some i | Message_Read i ec m \<Rightarrow> Some i
      | Posted i \<Rightarrow> Some i | Write_Done i ec \<Rightarrow> Some i)"

definition world_enabled :: "world_event \<Rightarrow> 'j world \<Rightarrow> bool" where
  "world_enabled e w =
     (case e of
        Loop ev \<Rightarrow> \<not> stopped w \<and> enabled ev (hub w) \<and>
          (case event_session ev of None \<Rightarrow> True | Some i \<Rightarrow> (case jobs w i of Ready \<Rightarrow> True | _ \<Rightarrow> False))
      | Job_Step i ts \<Rightarrow>
          (case jobs w i of
             Ready \<Rightarrow> False
           | Broadcasting bs \<Rightarrow> distinct ts \<and> set ts = clients (hub w)
           | j \<Rightarrow> waiting j \<longrightarrow> engine_mutex_free w)
      | Stop \<Rightarrow> True)"

definition start_job :: "nat \<Rightarrow> session \<Rightarrow> 'j job \<Rightarrow> 'j world \<Rightarrow> 'j world" where
  "start_job i s j w = w\<lparr>hub := set_session i s (hub w), jobs := (jobs w)(i := j)\<rparr>"

definition loop_step :: "'j json_lib \<Rightarrow> server_event \<Rightarrow> 'j world \<Rightarrow> 'j world option" where
  "loop_step L ev w =
     (case ev of
        Connect ec \<Rightarrow> Some (w\<lparr>hub := doAccept ec (hub w)\<rparr>)
      | Handshake i ec \<Rightarrow>
          let s = the (sessions (hub w) i) in
          Some (start_job i (s\<lparr>handshaking := False\<rparr>) (if ec then Ready else Joining) w)
      | Message_Read i ec m \<Rightarrow>
          let s = the (sessions (hub w) i)\<lparr>reading := False\<rparr> in
          if ec then (case begin_disconnect s of (s', j) \<Rightarrow> Some (start_job i s' j w))
          else (case begin_request L m of None \<Rightarrow> None | Some j \<Rightarrow> Some (start_job i s j w))
      | Posted i \<Rightarrow>
          (case run_posted (the (sessions (hub w) i)) of
             None \<Rightarrow> None | Some s \<Rightarrow> Some (start_job i s Ready w))
      | Write_Done i ec \<Rightarrow>
          let s = the (sessions (hub w) i) in
          if ec then (case begin_disconnect (s\<lparr>inflight := None\<rparr>) of (s', j) \<Rightarrow> Some (start_job i s' j w))
          else (case write_completed s of None \<Rightarrow> None | Some s' \<Rightarrow> Some (start_job i s' Ready w)))"

text \<open>\<open>Server::stop\<close>; the signal handler of \<open>main\<close> calls it once there is a server.\<close>

definition server_stop :: "'j world \<Rightarrow> 'j world" where
  "server_stop w = w\<lparr>stopped := True\<rparr>"

definition signalHandler :: "'j world option \<Rightarrow> 'j world option" where
  "signalHandler gServer = (case gServer of None \<Rightarrow> None | Some w \<Rightarrow> Some (server_stop w))"

definition world_step :: "'j json_lib \<Rightarrow> u64 \<Rightarrow> double \<Rightarrow> world_event \<Rightarrow> 'j world \<Rightarrow> 'j world option" where
  "world_step L now secs e w =
     (case e of
        Loop ev \<Rightarrow> loop_step L ev w
      | Job_Step i ts \<Rightarrow>
          (case job_step L now secs i ts (jobs w i) (hub w) of
             None \<Rightarrow> None
           | Some (j, h, out) \<Rightarrow>
               Some (w\<lparr>hub := h, jobs := (jobs w)(i := j), announced := announced w @ out\<rparr>))
      | Stop \<Rightarrow> Some (server_stop w))"

inductive world_reachable :: "'j json_lib \<Rightarrow> 'j world \<Rightarrow> bool" for L :: "'j json_lib" where
  world_init: "world_reachable L initial_world"
| world_next: "world_reachable L w \<Longrightarrow> world_enabled e w \<Longrightarrow> world_step L now secs e w = Some w' \<Longrightarrow>
    world_reachable L w'"

end
