(* ===== verification/Concurrent_Correct.thy ===== *)
theory Concurrent_Correct
  imports Concurrent_Server
begin

text \<open>
  The invariant of the concurrent server, and its simulation by the interleaved requests: what the
  sessions, the client manager and the running handlers have in common in every reachable world.
\<close>

subsection \<open>The invariant of the sessions and their handlers\<close>

text \<open>A session, whether the client manager has it, and its running handler.\<close>

definition session_ok :: "'j job \<Rightarrow> bool \<Rightarrow> session \<Rightarrow> bool" where
  "session_ok j c s \<longleftrightarrow> session_inv s \<and>
     (case j of
        Ready \<Rightarrow> c \<longleftrightarrow> \<not> closed s \<and> reading s
      | Leaving \<Rightarrow> closed s \<and> \<not> handshaking s
      | Joining \<Rightarrow> \<not> c \<and> \<not> closed s \<and> \<not> reading s \<and> \<not> handshaking s
      | Serving t \<Rightarrow> t \<noteq> Idle \<and> (c \<longleftrightarrow> \<not> closed s) \<and> \<not> reading s \<and> \<not> handshaking s
      | _ \<Rightarrow> (c \<longleftrightarrow> \<not> closed s) \<and> \<not> reading s \<and> \<not> handshaking s)"

definition joined :: "hub \<Rightarrow> nat \<Rightarrow> bool" where
  "joined h i \<longleftrightarrow> (\<exists>s. sessions h i = Some s \<and> \<not> handshaking s)"

definition targets :: "'j job \<Rightarrow> nat set" where
  "targets j = (case j of Sending m js bs \<Rightarrow> set js | _ \<Rightarrow> {})"

definition strands_ok :: "(nat \<Rightarrow> 'j job) \<Rightarrow> hub \<Rightarrow> bool" where
  "strands_ok J h \<longleftrightarrow> finite (clients h) \<and>
     (\<forall>i. sessions h i = None \<longrightarrow> J i = Ready \<and> i \<notin> clients h) \<and>
     (\<forall>i s. sessions h i = Some s \<longrightarrow> i < accepted h \<and> session_ok (J i) (i \<in> clients h) s) \<and>
     (\<forall>i j. j \<in> targets (J i) \<longrightarrow> joined h j)"

lemma strandsD:
  assumes "strands_ok J h"
  shows "sessions h i = None \<Longrightarrow> J i = Ready \<and> i \<notin> clients h"
    and "sessions h i = Some s \<Longrightarrow> i < accepted h \<and> session_ok (J i) (i \<in> clients h) s"
    and "j \<in> targets (J i) \<Longrightarrow> joined h j" and "finite (clients h)"
  using assms unfolding strands_ok_def by blast+

lemma session_ok_inv: "session_ok j c s \<Longrightarrow> session_inv s"
  by (simp add: session_ok_def)

lemma session_ok_flags:
  "session_ok j c s \<Longrightarrow> session_inv s' \<Longrightarrow> closed s' = closed s \<Longrightarrow> reading s' = reading s \<Longrightarrow>
   handshaking s' = handshaking s \<Longrightarrow> session_ok j c s'"
  by (simp add: session_ok_def split: job.splits)

lemma strands_running:
  assumes "strands_ok J h" and "J i \<noteq> Ready"
  obtains s where "sessions h i = Some s" and "session_ok (J i) (i \<in> clients h) s" and "\<not> handshaking s"
proof -
  obtain s where s: "sessions h i = Some s" using strandsD(1) [OF assms(1), of i] assms(2) by auto
  then have ok: "session_ok (J i) (i \<in> clients h) s" using strandsD(2) [OF assms(1)] by blast
  then have "\<not> handshaking s" using assms(2) by (simp add: session_ok_def split: job.splits)
  then show thesis using that s ok by blast
qed

lemma clients_joined:
  assumes "strands_ok J h" and "i \<in> clients h"
  shows "joined h i"
proof -
  obtain s where s: "sessions h i = Some s" using strandsD(1) [OF assms(1), of i] assms(2) by (cases "sessions h i") auto
  then have "session_ok (J i) True s" using strandsD(2) [OF assms(1) s] assms(2) by simp
  then have "\<not> handshaking s" by (auto simp: session_ok_def session_inv_def split: job.splits)
  then show ?thesis using s by (simp add: joined_def)
qed

lemma strands_srv [simp]: "strands_ok J (h\<lparr>srv := sv\<rparr>) \<longleftrightarrow> strands_ok J h"
proof -
  have "joined (h\<lparr>srv := sv\<rparr>) = joined h" by (simp add: joined_def fun_eq_iff)
  then show ?thesis by (simp add: strands_ok_def)
qed

lemma joined_send [simp]: "joined (send_to k m h) i \<longleftrightarrow> joined h i"
  by (simp add: joined_def send_to_def set_session_def split: option.splits)

lemma send_to_fields [simp]:
  "clients (send_to k m h) = clients h" "accepted (send_to k m h) = accepted h" "srv (send_to k m h) = srv h"
  by (simp_all add: send_to_def split: option.splits)

lemma session_inv_send: "session_inv s \<Longrightarrow> \<not> handshaking s \<Longrightarrow> session_inv (send m s)"
  using session_inv_sends [of s "[m]"] by simp

text \<open>A message to a session that has joined.\<close>

lemma strands_send:
  assumes ok: "strands_ok J h" and j: "joined h k"
  shows "strands_ok J (send_to k m h)"
proof -
  obtain s where s: "sessions h k = Some s" "\<not> handshaking s" using j by (auto simp: joined_def)
  note k = strandsD(2) [OF ok s(1)]
  have "session_ok (J k) (k \<in> clients h) (send m s)"
    using k session_ok_inv s(2) by (intro session_ok_flags [OF _ session_inv_send]) auto
  then have "strands_ok J (h\<lparr>sessions := (sessions h)(k \<mapsto> send m s)\<rparr>)"
    using ok k s unfolding strands_ok_def joined_def by auto
  then show ?thesis by (simp add: send_to_def s(1) set_session_def)
qed

text \<open>The running handler of session \<open>i\<close> goes on.\<close>

lemma strands_job:
  assumes "strands_ok J h" and "sessions h i = Some s" and "session_ok j (i \<in> clients h) s"
    and "\<And>k. k \<in> targets j \<Longrightarrow> joined h k"
  shows "strands_ok (J(i := j)) h"
  using assms unfolding strands_ok_def by auto

lemma strands_session:
  assumes "strands_ok J h" and "sessions h i = Some s0" and "session_ok j (i \<in> clients h) s"
    and "targets j = {}" and "handshaking s \<longrightarrow> handshaking s0"
  shows "strands_ok (J(i := j)) (set_session i s h)"
proof -
  have "joined (set_session i s h) k" if "joined h k" for k
    using that assms(2,5) by (auto simp: joined_def)
  then show ?thesis using assms(1-4) unfolding strands_ok_def by auto
qed

lemma strands_clients:
  assumes "strands_ok J h" and "sessions h i = Some s" and "session_ok j (i \<in> cs) s" and "targets j = {}"
    and "\<And>k. k \<noteq> i \<Longrightarrow> k \<in> cs \<longleftrightarrow> k \<in> clients h" and "finite cs"
  shows "strands_ok (J(i := j)) (h\<lparr>clients := cs\<rparr>)"
  using assms unfolding strands_ok_def joined_def by auto

lemma strands_initial: "strands_ok (\<lambda>_. Ready) initial_hub"
  by (simp add: strands_ok_def initial_hub_def targets_def)

subsection \<open>The steps keep it\<close>

text \<open>The jobs of a session that has joined, is not being disconnected and is not reading.\<close>

definition at_work :: "'j job \<Rightarrow> bool" where
  "at_work j = (case j of Ready \<Rightarrow> False | Joining \<Rightarrow> False | Leaving \<Rightarrow> False | Serving t \<Rightarrow> t \<noteq> Idle | _ \<Rightarrow> True)"

lemma session_ok_at_work:
  "at_work j \<Longrightarrow> session_ok j c s \<longleftrightarrow> session_inv s \<and> (c \<longleftrightarrow> \<not> closed s) \<and> \<not> reading s \<and> \<not> handshaking s"
  by (auto simp: session_ok_def at_work_def split: job.splits)

lemma strands_advance:
  assumes ok: "strands_ok J h" and "at_work (J i)" and "at_work j" and "\<And>k. k \<in> targets j \<Longrightarrow> joined h k"
  shows "strands_ok (J(i := j)) h"
proof -
  have "J i \<noteq> Ready" using assms(2) by (auto simp: at_work_def)
  then obtain s where s: "sessions h i = Some s" "session_ok (J i) (i \<in> clients h) s"
    by (rule strands_running [OF ok])
  show ?thesis by (rule strands_job [OF ok s(1)]) (use assms s(2) in \<open>simp_all add: session_ok_at_work\<close>)
qed

lemma strands_start_read:
  assumes ok: "strands_ok J h" and j: "at_work (J i)"
  obtains h' where "start_read i h = Some h'" and "strands_ok (J(i := Ready)) h'" and "srv h' = srv h"
    and "clients h' = clients h" and "accepted h' = accepted h"
proof -
  have "J i \<noteq> Ready" using j by (auto simp: at_work_def)
  then obtain s where s: "sessions h i = Some s" "session_ok (J i) (i \<in> clients h) s"
    by (rule strands_running [OF ok])
  let ?s = "if closed s then s else s\<lparr>reading := True\<rparr>"
  have f: "session_inv s" "i \<in> clients h \<longleftrightarrow> \<not> closed s" "\<not> reading s" "\<not> handshaking s"
    using s(2) j by (simp_all add: session_ok_at_work)
  then have "session_ok Ready (i \<in> clients h) ?s"
    using session_inv_flags(3) by (simp add: session_ok_def)
  then have "strands_ok (J(i := Ready)) (set_session i ?s h)"
    by (rule strands_session [OF ok s(1)]) (use f in \<open>simp_all add: targets_def\<close>)
  moreover have "start_read i h = Some (set_session i ?s h)"
    using s(1) f by (simp add: start_read_def doRead_def)
  ultimately show thesis using that by simp
qed

lemma task_step_not_Idle:
  assumes "task_step L now secs t sv = Some (sv', t', out)" and "\<And>d bs. t \<noteq> Reply d bs"
  shows "t' \<noteq> Idle \<and> out = []"
proof (cases t)
  case (Record req r ts)
  then show ?thesis using assms(1) by (cases ts) auto
qed (use assms in \<open>auto simp: after_section_def split: option.splits if_splits outcome.splits\<close>)

lemma adapter_no_UB:
  assumes "adapter_reachable a"
  shows "valid_request req \<Longrightarrow> nextOrderId a \<noteq> INT64_MAX \<Longrightarrow>
      adapter_placeOrder now (req_side req) (req_orderType req) (req_price req) (req_quantity req) a \<noteq> None"
    and "adapter_cancelOrder i a \<noteq> None"
proof -
  note inv = adapter_reachable_inv [OF assms]
  show "adapter_placeOrder now (req_side req) (req_orderType req) (req_price req) (req_quantity req) a \<noteq> None"
    if "valid_request req" "nextOrderId a \<noteq> INT64_MAX"
    using that adapter_place_defined [OF inv that(2)] positive_nonneg by (simp add: valid_request_def)
  show "adapter_cancelOrder i a \<noteq> None"
    using adapter_cancel_outcome [OF inv, of i] by (metis option.distinct(1))
qed

lemma task_step_defined:
  assumes a: "adapter_reachable (srv_adapter sv)" and ok: "task_ok t" and ne: "t \<noteq> Idle"
    and room: "\<And>r. t = Want_Place r \<Longrightarrow> nextOrderId (srv_adapter sv) \<noteq> INT64_MAX"
  shows "task_step L now secs t sv \<noteq> None"
proof (cases t)
  case (Want_Place req)
  have p: "valid_request req" using ok by (simp add: Want_Place task_ok_def)
  show ?thesis
    using adapter_no_UB(1) [OF a p room [OF Want_Place]] by (auto simp: Want_Place split: option.splits)
next
  case (Want_Cancel req)
  show ?thesis using adapter_no_UB(2) [OF a] by (auto simp: Want_Cancel split: option.splits)
next
  case (Record req r ts)
  then show ?thesis by (cases ts) auto
next
  case (Reply d bs)
  then show ?thesis by (cases bs) auto
qed (use ne in auto)

lemma job_step_Serving:
  assumes "\<nexists>d bs. t = Reply d bs"
  shows "job_step L now secs i ts (Serving t) h =
    (case task_step L now secs t (srv h) of
       None \<Rightarrow> None
     | Some (sv', t', out) \<Rightarrow> Some (Serving t', h\<lparr>srv := sv'\<rparr>, out))"
  using assms by (cases t) (simp_all only: job_step.simps, simp)

text \<open>A message to a joined session while the handler of session \<open>i\<close> goes on.\<close>

lemma strands_advance_send:
  assumes "strands_ok J h" and "at_work (J i)" and "at_work j" and "joined h k"
    and "\<And>k. k \<in> targets j \<Longrightarrow> joined h k"
  shows "strands_ok (J(i := j)) (send_to k m h)"
  using strands_send [OF strands_advance] assms by blast

lemma running_joined: "strands_ok J h \<Longrightarrow> J i \<noteq> Ready \<Longrightarrow> joined h i"
  by (erule (1) strands_running) (auto simp: joined_def)

lemma job_step_strands:
  assumes ok: "strands_ok J h" and run: "J i \<noteq> Ready"
    and ts: "\<And>bs. J i = Broadcasting bs \<Longrightarrow> set ts \<subseteq> clients h"
    and st: "job_step L now secs i ts (J i) h = Some (j', h', out)"
  shows "strands_ok (J(i := j')) h'"
proof -
  note self = running_joined [OF ok run]
  obtain s where s: "sessions h i = Some s" "session_ok (J i) (i \<in> clients h) s"
    by (rule strands_running [OF ok run])
  note fin = strandsD(4) [OF ok]
  have idle: "t \<noteq> Idle" if "J i = Serving t" for t using s(2) that by (simp add: session_ok_def)
  note go = strands_advance [OF ok, of i j'] and send = strands_advance_send [OF ok, of i j']
  note simps = at_work_def targets_def
  show ?thesis
  proof (cases "J i")
    case Ready
    then show ?thesis using run by simp
  next
    case Joining
    then have "strands_ok (J(i := Reading_Book)) (h\<lparr>clients := insert i (clients h)\<rparr>)"
      using s(2) fin by (intro strands_clients [OF ok s(1)]) (auto simp: session_ok_def targets_def)
    then show ?thesis using st Joining by (simp add: addClient_def)
  next
    case Leaving
    then have "strands_ok (J(i := Ready)) (h\<lparr>clients := clients h - {i}\<rparr>)"
      using s(2) fin by (intro strands_clients [OF ok s(1)]) (auto simp: session_ok_def targets_def)
    then show ?thesis using st Leaving by (simp add: removeClient_def)
  next
    case Rereading
    then have "at_work (J i)" by (simp add: at_work_def)
    then obtain h'' where "start_read i h = Some h''" "strands_ok (J(i := Ready)) h''"
      by (rule strands_start_read [OF ok])
    then show ?thesis using st Rereading by simp
  next
    case (Serving t)
    show ?thesis
    proof (cases "\<exists>d bs. t = Reply d bs")
      case True
      then show ?thesis using st Serving go by (auto simp: simps)
    next
      case False
      then obtain sv' t' where t': "task_step L now secs t (srv h) = Some (sv', t', out)"
        and "j' = Serving t'" "h' = h\<lparr>srv := sv'\<rparr>"
        using st False unfolding Serving by (auto simp: job_step_Serving split: option.splits)
      moreover have "t' \<noteq> Idle" using task_step_not_Idle [OF t'] False by blast
      ultimately show ?thesis using go Serving idle by (simp add: simps)
    qed
  next
    case (Broadcasting bs)
    have "joined h k" if "k \<in> set ts" for k using clients_joined [OF ok] ts [OF Broadcasting] that by blast
    then show ?thesis
      using st Broadcasting go by (cases bs) (auto simp: simps split: sum.splits)
  next
    case (Sending m js bs)
    have "joined h k" if "k \<in> set js" for k using strandsD(3) [OF ok, of k i] that by (simp add: Sending targets_def)
    then show ?thesis
      using st Sending go send [of "hd js" m] by (cases js) (auto simp: simps)
  qed (use st go send [OF _ _ self] in \<open>auto simp: simps split: sum.splits if_splits\<close>)
qed

subsection \<open>The handlers that start\<close>

lemma strands_connect:
  assumes "strands_ok J h"
  shows "strands_ok J (doAccept ec h)"
proof (cases ec)
  case False
  have none: "sessions h (accepted h) = None"
    using strandsD(2) [OF assms] by (metis less_irrefl option.exhaust)
  have new: "session_ok Ready False (run_session new_session)"
    using session_inv_new by (simp add: session_ok_def run_session_def new_session_def)
  have joined: "joined (doAccept ec h) k" if "joined h k" for k
    using that none False by (auto simp: joined_def doAccept_def set_session_def)
  then show ?thesis
    using assms none new False unfolding strands_ok_def by (auto simp: doAccept_def set_session_def less_SucI)
qed (use assms in \<open>simp add: doAccept_def\<close>)

lemma session_ok_Ready:
  "session_ok Ready c s \<longleftrightarrow> session_inv s \<and> (c \<longleftrightarrow> \<not> closed s \<and> reading s)"
  by (simp add: session_ok_def)

lemma session_inv_handshaking: "session_inv s \<Longrightarrow> handshaking s \<Longrightarrow> \<not> reading s \<and> \<not> closed s \<and> inflight s = None"
  by (auto simp: session_inv_def)

text \<open>After an error of a read or a write.\<close>

lemma begin_disconnect_ok:
  assumes "begin_disconnect s = (s', j)" and "\<not> handshaking s" and "closed s \<Longrightarrow> session_inv s \<and> \<not> c"
    and "\<not> closed s \<Longrightarrow> session_inv (s\<lparr>closed := True\<rparr>)"
  shows "session_ok j c s'" and "targets j = {}" and "\<not> handshaking s'"
  using assms by (auto simp: begin_disconnect_def session_ok_def targets_def split: if_splits)

lemma begin_request_job: "begin_request L m = Some j \<Longrightarrow> at_work j \<and> targets j = {}"
  by (auto simp: begin_request_def answer_error_def at_work_def targets_def task_of_def
      split: sum.splits cpp_exception.splits request.splits)

text \<open>Which messages have no defined reading.\<close>

lemma begin_request_None: "begin_request L m = None \<longleftrightarrow> read_request L m = Inl Undefined"
  by (auto simp: begin_request_def read_request_def bind_throws_def split: sum.splits cpp_exception.splits)

definition strands :: "'j world \<Rightarrow> bool" where
  "strands w \<longleftrightarrow> strands_ok (jobs w) (hub w)"

lemma strands_start_job:
  assumes "strands w" and "sessions (hub w) i = Some s0" and "session_ok j (i \<in> clients (hub w)) s"
    and "targets j = {}" and "handshaking s \<longrightarrow> handshaking s0"
  shows "strands (start_job i s j w)"
  using strands_session [OF assms(1) [unfolded strands_def] assms(2-5)] by (simp add: strands_def start_job_def)

lemma loop_step_read:
  "loop_step L (Message_Read i False m) w = None \<longleftrightarrow> read_request L m = Inl Undefined"
  by (simp add: loop_step_def Let_def begin_request_None [symmetric] split: option.split)

text \<open>Every handler that can start does, unless it reads a message that has no defined reading, and
  leaves server, clients and announcements as they are.\<close>

lemma loop_step_ok:
  fixes w :: "'j world"
  assumes w: "strands w" and en: "world_enabled (Loop ev) w"
    and rd: "\<And>i m. ev = Message_Read i False m \<Longrightarrow> read_request L m \<noteq> Inl Undefined"
  obtains w' where "loop_step L ev w = Some w'" and "strands w'" and "srv (hub w') = srv (hub w)"
    and "announced w' = announced w" and "clients (hub w') = clients (hub w)"
proof (cases ev)
  case (Connect ec)
  then show thesis
    using that w strands_connect [of "jobs w" "hub w" ec]
    by (simp add: loop_step_def strands_def) (simp add: doAccept_def split: if_splits)
next
  case (Handshake i ec)
  then obtain s where s: "sessions (hub w) i = Some s" "handshaking s" and j: "jobs w i = Ready"
    using en by (auto simp: world_enabled_def enabled_def event_session_def split: option.splits job.splits)
  have ok: "session_ok (Ready :: 'j job) (i \<in> clients (hub w)) s"
    using strandsD(2) [OF w [unfolded strands_def] s(1)] j by simp
  have "session_ok (if ec then Ready else Joining :: 'j job) (i \<in> clients (hub w)) (s\<lparr>handshaking := False\<rparr>)"
    using ok session_inv_handshaking [OF _ s(2)] session_inv_flags(1) [of s] by (simp add: session_ok_def)
  then have "strands (start_job i (s\<lparr>handshaking := False\<rparr>) (if ec then Ready else Joining) w)"
    by (rule strands_start_job [OF w s(1)]) (simp_all add: targets_def)
  then show thesis using that by (simp add: Handshake loop_step_def s(1) start_job_def)
next
  case (Message_Read i ec m)
  then obtain s where s: "sessions (hub w) i = Some s" "reading s" and j: "jobs w i = Ready"
    using en by (auto simp: world_enabled_def enabled_def event_session_def split: option.splits job.splits)
  let ?s = "s\<lparr>reading := False\<rparr>"
  have ok: "session_inv s" "i \<in> clients (hub w) \<longleftrightarrow> \<not> closed s"
    using strandsD(2) [OF w [unfolded strands_def] s(1)] j s(2) by (simp_all add: session_ok_def)
  have nh: "\<not> handshaking s" using session_inv_handshaking [OF ok(1)] s(2) by blast
  note inv = session_inv_flags(2) [OF ok(1)]
  show thesis
  proof (cases ec)
    case True
    obtain s' and j' :: "'j job" where d: "begin_disconnect ?s = (s', j')" by fastforce
    have "session_ok j' (i \<in> clients (hub w)) s' \<and> targets j' = {} \<and> \<not> handshaking s'"
      using begin_disconnect_ok [OF d] nh inv ok(2) session_inv_close(1) [OF inv] by simp
    then have "strands (start_job i s' j' w)" by (intro strands_start_job [OF w s(1)]) simp_all
    then show thesis using that d by (simp add: Message_Read True loop_step_def s(1) start_job_def)
  next
    case False
    obtain j' where b: "begin_request L m = Some j'"
      using rd Message_Read False begin_request_None [of L m] by auto
    have "strands (start_job i ?s j' w)"
      by (rule strands_start_job [OF w s(1)])
        (use begin_request_job [OF b] nh inv ok(2) in \<open>simp_all add: session_ok_at_work\<close>)
    then show thesis using that b by (simp add: Message_Read False loop_step_def s(1) start_job_def)
  qed
next
  case (Posted i)
  then obtain s where s: "sessions (hub w) i = Some s" "posted s \<noteq> []" and j: "jobs w i = Ready"
    using en by (auto simp: world_enabled_def enabled_def event_session_def split: option.splits job.splits)
  have ok: "session_ok (Ready :: 'j job) (i \<in> clients (hub w)) s"
    using strandsD(2) [OF w [unfolded strands_def] s(1)] j by simp
  obtain s' where s': "run_posted s = Some s'" "session_inv s'" "closed s' = closed s" "reading s' = reading s"
    "handshaking s' = handshaking s"
    by (rule run_posted_ok [OF session_ok_inv [OF ok] s(2)])
  have "strands (start_job i s' Ready w)"
    by (rule strands_start_job [OF w s(1)]) (use session_ok_flags [OF ok s'(2-5)] s'(5) in \<open>simp_all add: targets_def\<close>)
  then show thesis using that s'(1) by (simp add: Posted loop_step_def s(1) start_job_def)
next
  case (Write_Done i ec)
  then obtain s where s: "sessions (hub w) i = Some s" "inflight s \<noteq> None" and j: "jobs w i = Ready"
    using en by (auto simp: world_enabled_def enabled_def event_session_def split: option.splits job.splits)
  have ok: "session_ok (Ready :: 'j job) (i \<in> clients (hub w)) s"
    using strandsD(2) [OF w [unfolded strands_def] s(1)] j by simp
  note inv = session_ok_inv [OF ok]
  have nh: "\<not> handshaking s" using session_inv_handshaking [OF inv] s(2) by blast
  show thesis
  proof (cases ec)
    case True
    obtain s' and j' :: "'j job" where d: "begin_disconnect (s\<lparr>inflight := None\<rparr>) = (s', j')" by fastforce
    have "closed s \<Longrightarrow> session_inv (s\<lparr>inflight := None\<rparr>) \<and> i \<notin> clients (hub w)"
      using session_inv_close(3) [OF inv nh] ok by (simp add: session_ok_Ready)
    then have "session_ok j' (i \<in> clients (hub w)) s' \<and> targets j' = {} \<and> \<not> handshaking s'"
      using begin_disconnect_ok [OF d] nh session_inv_close(2) [OF inv nh] by simp
    then have "strands (start_job i s' j' w)" by (intro strands_start_job [OF w s(1)]) simp_all
    then show thesis using that d by (simp add: Write_Done True loop_step_def s(1) start_job_def)
  next
    case False
    obtain s' where s': "write_completed s = Some s'" "session_inv s'" "closed s' = closed s"
      "reading s' = reading s" "handshaking s' = handshaking s"
      by (rule write_completed_ok [OF inv s(2)])
    have "strands (start_job i s' Ready w)"
      by (rule strands_start_job [OF w s(1)]) (use session_ok_flags [OF ok s'(2-5)] s'(5) in \<open>simp_all add: targets_def\<close>)
    then show thesis using that s'(1) by (simp add: Write_Done False loop_step_def s(1) start_job_def)
  qed
qed

lemma loop_step_keeps:
  assumes w: "strands w" and en: "world_enabled (Loop ev) w" and st: "loop_step L ev w = Some w'"
  shows "strands w' \<and> srv (hub w') = srv (hub w) \<and> announced w' = announced w \<and>
    clients (hub w') = clients (hub w)"
proof -
  have "read_request L m \<noteq> Inl Undefined" if "ev = Message_Read i False m" for i m
    using st that loop_step_read [of L i m w] by simp
  then obtain w'' where "loop_step L ev w = Some w''" "strands w''" "srv (hub w'') = srv (hub w)"
    "announced w'' = announced w" "clients (hub w'') = clients (hub w)"
    by (rule loop_step_ok [OF w en])
  then show ?thesis using st by simp
qed

end
