(* ===== verification/Concurrent_Simulation.thy ===== *)
theory Concurrent_Simulation
  imports Concurrent_Correct
begin

text \<open>
  The concurrent server simulates the interleaved requests of \<open>Interleaving\<close>: seen from the engine,
  the metrics and the broadcasts, a running handler is the task of its request. With it every fact
  about the interleavings holds of the whole server, and so its steps are always defined.
\<close>

subsection \<open>The task a job stands for\<close>

fun follows :: "'j job \<Rightarrow> 'j task \<Rightarrow> bool" where
  "follows (Serving t') t \<longleftrightarrow> t = t'"
| "follows (Answering d bs) t \<longleftrightarrow> t = Reply d bs \<or> bs = [] \<and> t = Idle"
| "follows (Broadcasting bs) t \<longleftrightarrow> (\<exists>d. t = Reply d bs) \<or> bs = [] \<and> t = Idle"
| "follows (Sending m js bs) t \<longleftrightarrow> (\<exists>d. t = Reply d bs)"
| "follows j t \<longleftrightarrow> t = Idle"

definition simulated :: "nat \<Rightarrow> (nat \<Rightarrow> 'j job) \<Rightarrow> server \<Rightarrow> 'j list \<Rightarrow> 'j system \<Rightarrow> bool" where
  "simulated n J sv out s \<longleftrightarrow>
     sys_server s = sv \<and> sent_out s = out \<and> length (tasks s) = n \<and> (\<forall>i<n. follows (J i) (tasks s ! i))"

lemma follows_section: "follows j t \<Longrightarrow> in_section t \<longleftrightarrow> has_mutex j"
  by (cases j) (auto simp: has_mutex_def)

lemma follows_wants: "follows j t \<Longrightarrow> wants_mutex t \<Longrightarrow> j = Serving t"
  by (cases j) auto

text \<open>The job moves and the task does not; and both move.\<close>

lemma simulated_stutter:
  "simulated n J sv out s \<Longrightarrow> follows j (tasks s ! i) \<Longrightarrow> simulated n (J(i := j)) sv out s"
  by (simp add: simulated_def)

lemma simulated_step:
  assumes "simulated n J sv out s" and "interleaved L n s" and "i < n"
    and "wants_mutex (tasks s ! i) \<Longrightarrow> mutex_free (tasks s)"
    and "task_step L now secs (tasks s ! i) sv = Some (sv', t', new)" and "follows j t'"
  shows "\<exists>s'. interleaved L n s' \<and> simulated n (J(i := j)) sv' (out @ new) s'"
proof -
  let ?s = "s\<lparr>sys_server := sv', tasks := (tasks s)[i := t'], sent_out := sent_out s @ new\<rparr>"
  have "interleaved L n ?s" using assms by (intro inter_step) (auto simp: simulated_def)
  moreover have "simulated n (J(i := j)) sv' (out @ new) ?s"
    using assms by (auto simp: simulated_def nth_list_update)
  ultimately show ?thesis by blast
qed

lemma begin_request_Serving:
  assumes "begin_request L m = Some (Serving t)"
  shows "\<exists>req. t = task_of req \<and> read_request L m = Inr req"
  using assms
  by (auto simp: begin_request_def answer_error_def read_request_def bind_throws_def
      split: sum.splits cpp_exception.splits)

lemma begin_request_follows:
  "begin_request L m = Some j \<Longrightarrow> (\<exists>t. j = Serving t) \<or> follows j Idle"
  by (auto simp: begin_request_def answer_error_def split: sum.splits cpp_exception.splits)

lemma simulated_request:
  assumes "simulated n J sv out s" and "interleaved L n s" and "i < n" and "J i = Ready"
    and "begin_request L m = Some j"
  shows "\<exists>s'. interleaved L n s' \<and> simulated n (J(i := j)) sv out s'"
proof -
  have idle: "tasks s ! i = Idle" using assms by (force simp: simulated_def)
  show ?thesis
    using begin_request_follows [OF assms(5)]
  proof
    assume "\<exists>t. j = Serving t"
    then obtain req where b: "j = Serving (task_of req)" and r: "read_request L m = Inr req"
      using begin_request_Serving assms(5) by blast
    let ?s = "s\<lparr>tasks := (tasks s)[i := task_of req]\<rparr>"
    have "interleaved L n ?s" by (rule inter_start [OF assms(2,3) idle r])
    moreover have "simulated n (J(i := j)) sv out ?s"
      using assms(1,3) by (auto simp: simulated_def b nth_list_update)
    ultimately show ?thesis by blast
  next
    assume "follows j Idle"
    then show ?thesis using simulated_stutter [OF assms(1)] assms(2) idle by metis
  qed
qed

lemma job_step_simulated:
  assumes sim: "simulated n J (srv h) out s" and s: "interleaved L n s" and i: "i < n" and dumps: "json_dumps L"
    and free: "wants_mutex (tasks s ! i) \<Longrightarrow> mutex_free (tasks s)"
    and st: "job_step L now secs i ts (J i) h = Some (j, h', new)" and f: "strands_ok J h"
  shows "\<exists>s'. interleaved L n s' \<and> simulated n (J(i := j)) (srv h') (out @ new) s'"
proof -
  have fi: "follows (J i) (tasks s ! i)" using sim i by (simp add: simulated_def)
  have stay: "\<exists>s'. interleaved L n s' \<and> simulated n (J(i := j)) (srv h') (out @ new) s'"
    if "follows j (tasks s ! i)" "srv h' = srv h" "new = []"
    using simulated_stutter [OF sim] that s by auto
  note move = simulated_step [OF sim s i free, of now secs]
  note dump = dump_text [OF dumps]
  show ?thesis
  proof (cases "J i")
    case (Serving t)
    show ?thesis
    proof (cases "\<exists>d bs. t = Reply d bs")
      case True
      then show ?thesis using st fi stay Serving by auto
    next
      case False
      then show ?thesis
        using st fi move Serving by (auto simp: job_step_Serving split: option.splits)
    qed
  next
    case (Broadcasting bs)
    show ?thesis
    proof (cases bs)
      case Nil
      then consider d where "tasks s ! i = Reply d []" | "tasks s ! i = Idle"
        using fi Broadcasting by auto
      then show ?thesis
      proof cases
        case 1
        then show ?thesis using st move Broadcasting Nil by auto
      next
        case 2
        then show ?thesis using st stay Broadcasting Nil by auto
      qed
    next
      case (Cons b bs')
      then obtain d where "tasks s ! i = Reply d (b # bs')" using fi Broadcasting by auto
      then show ?thesis using st move Broadcasting Cons by (auto simp: dump)
    qed
  next
    case (Sending m js bs)
    then show ?thesis using st fi stay by (cases js) auto
  next
    case Rereading
    then have "at_work (J i)" by (simp add: at_work_def)
    then obtain h'' where "start_read i h = Some h''" "srv h'' = srv h"
      by (rule strands_start_read [OF f])
    then show ?thesis using st fi stay Rereading by auto
  qed (use st fi stay in \<open>auto simp: dump addClient_def removeClient_def split: if_splits\<close>)
qed

subsection \<open>Every reachable world\<close>

lemma start_read_accepted: "start_read i h = Some h' \<Longrightarrow> accepted h' = accepted h"
  by (auto simp: start_read_def split: option.splits)

lemma job_step_accepted:
  assumes "job_step L now secs i ts j h = Some (j', h', out)"
  shows "accepted h' = accepted h"
proof (cases "\<exists>t. j = Serving t \<and> (\<nexists>d bs. t = Reply d bs)")
  case True
  then show ?thesis using assms by (auto simp: job_step_Serving split: option.splits)
next
  case False
  then show ?thesis
    using assms start_read_accepted
    by (cases "(L, now, secs, i, ts, j, h)" rule: job_step.cases)
      (auto simp: addClient_def removeClient_def split: sum.splits if_splits option.splits)
qed

lemma loop_step_accepted:
  assumes "loop_step L ev w = Some w'"
  shows "accepted (hub w) \<le> accepted (hub w')"
  using assms
  by (cases ev) (auto simp: loop_step_def Let_def start_job_def doAccept_def split: if_splits option.splits prod.splits)

lemma loop_step_jobs:
  fixes w w' :: "'a world"
  assumes "loop_step L ev w = Some w'" and "world_enabled (Loop ev) w"
  shows "jobs w' = jobs w \<or> (\<exists>i j. jobs w i = Ready \<and> sessions (hub w) i \<noteq> None \<and> jobs w' = (jobs w)(i := j) \<and>
    (follows j Idle \<or> (\<exists>m. begin_request L m = Some j)))"
proof -
  have i: "jobs w i = Ready \<and> sessions (hub w) i \<noteq> None" if "event_session ev = Some i" for i
    using assms(2) that
    by (auto simp: world_enabled_def enabled_def event_session_def split: server_event.splits option.splits job.splits)
  have d: "begin_disconnect s = (s', j) \<Longrightarrow> follows j Idle" for s s' and j :: "'a job"
    by (auto simp: begin_disconnect_def split: if_splits)
  show ?thesis
  proof (cases "event_session ev")
    case None
    then show ?thesis using assms(1) by (cases ev) (auto simp: event_session_def loop_step_def)
  next
    case (Some k)
    then have "jobs w' = (jobs w)(k := jobs w' k) \<and> (follows (jobs w' k) Idle \<or> (\<exists>m. begin_request L m = Some (jobs w' k)))"
      using assms(1)
      by (cases ev) (auto simp: event_session_def loop_step_def start_job_def Let_def
          split: if_splits option.splits prod.splits dest: d)
    then show ?thesis using i [OF Some] by blast
  qed
qed

lemma world_invariant:
  assumes "json_dumps L" and "world_reachable L w" and "accepted (hub w) \<le> n"
  shows "strands w \<and>
    (\<exists>s. interleaved L n s \<and> simulated n (jobs w) (srv (hub w)) (announced w) s)"
  using assms(2,3)
proof (induction rule: world_reachable.induct)
  case world_init
  have "simulated n (\<lambda>_. Ready) initial_server [] (initial_system n)"
    by (simp add: simulated_def initial_system_def)
  moreover have "srv initial_hub = initial_server" by (simp add: initial_hub_def)
  ultimately show ?case
    using strands_initial inter_init by (auto simp: initial_world_def strands_def)
next
  case (world_next w e now secs w')
  show ?case
  proof (cases e)
    case (Loop ev)
    then have st: "loop_step L ev w = Some w'" and en: "world_enabled (Loop ev) w"
      using world_next.hyps by (simp_all add: world_step_def)
    have "accepted (hub w) \<le> n" using loop_step_accepted [OF st] world_next.prems by simp
    then obtain s where w: "strands w" and s: "interleaved L n s"
      and sim: "simulated n (jobs w) (srv (hub w)) (announced w) s"
      using world_next.IH by blast
    have same: "strands w'" "srv (hub w') = srv (hub w)" "announced w' = announced w"
      using loop_step_keeps [OF w en st] by simp_all
    consider "jobs w' = jobs w" |
      i j where "jobs w i = Ready" "sessions (hub w) i \<noteq> None" "jobs w' = (jobs w)(i := j)"
        "follows j Idle \<or> (\<exists>m. begin_request L m = Some j)"
      using loop_step_jobs [OF st en] by blast
    then show ?thesis
    proof cases
      case 1
      then show ?thesis using same s sim by auto
    next
      case 2
      then obtain ses where "sessions (hub w) i = Some ses" by blast
      then have i: "i < n"
        using strandsD(2) [OF w [unfolded strands_def]] \<open>accepted (hub w) \<le> n\<close> by fastforce
      have idle: "tasks s ! i = Idle" using sim 2(1) i by (force simp: simulated_def)
      from 2(4) have "\<exists>s'. interleaved L n s' \<and> simulated n ((jobs w)(i := j)) (srv (hub w)) (announced w) s'"
        using simulated_stutter [OF sim] simulated_request [OF sim s i 2(1)] s idle by metis
      then show ?thesis unfolding 2(3) same(2,3) using same(1) by blast
    qed
  next
    case (Job_Step i ts)
    then obtain j h out where st: "job_step L now secs i ts (jobs w i) (hub w) = Some (j, h, out)"
      and w': "w' = w\<lparr>hub := h, jobs := (jobs w)(i := j), announced := announced w @ out\<rparr>"
      using world_next.hyps by (auto simp: world_step_def split: option.splits)
    have acc: "accepted (hub w) \<le> n" using job_step_accepted [OF st] world_next.prems w' by simp
    then obtain s where w: "strands_ok (jobs w) (hub w)" and s: "interleaved L n s"
      and sim: "simulated n (jobs w) (srv (hub w)) (announced w) s"
      using world_next.IH by (auto simp: strands_def)
    have run: "jobs w i \<noteq> Ready" and ts: "\<And>bs. jobs w i = Broadcasting bs \<Longrightarrow> set ts \<subseteq> clients (hub w)"
      using world_next.hyps(2) Job_Step by (auto simp: world_enabled_def)
    obtain ses where "sessions (hub w) i = Some ses" by (rule strands_running [OF w run])
    then have i: "i < n" using strandsD(2) [OF w] acc by fastforce
    have free: "mutex_free (tasks s)" if wants: "wants_mutex (tasks s ! i)"
    proof -
      have "follows (jobs w i) (tasks s ! i)" using sim i by (simp add: simulated_def)
      then have "jobs w i = Serving (tasks s ! i)" using wants by (rule follows_wants)
      then have "waiting (jobs w i)" using wants by (simp add: waiting_def)
      then have mutex: "engine_mutex_free w"
        using world_next.hyps(2) Job_Step by (simp add: world_enabled_def waiting_def split: job.splits)
      have "\<not> in_section (tasks s ! k)" if k: "k < n" for k
      proof -
        have "jobs w k = Ready" if "\<not> k < accepted (hub w)"
          using that strandsD(1,2) [OF w, of k] by (cases "sessions (hub w) k") auto
        then have "\<not> has_mutex (jobs w k)"
          using mutex by (cases "k < accepted (hub w)") (simp_all add: engine_mutex_free_def has_mutex_def)
        then show ?thesis using follows_section sim k by (auto simp: simulated_def)
      qed
      then show ?thesis using sim by (simp add: mutex_free_nth simulated_def)
    qed
    define J where "J = (jobs w)(i := j)"
    have "strands_ok J h" unfolding J_def by (rule job_step_strands [OF w run ts st])
    moreover have "\<exists>s'. interleaved L n s' \<and> simulated n J (srv h) (announced w @ out) s'"
      unfolding J_def by (rule job_step_simulated [OF sim s i assms(1) free st w])
    ultimately show ?thesis unfolding w' J_def [symmetric] by (simp add: strands_def)
  next
    case Stop
    then show ?thesis using world_next by (auto simp: world_step_def server_stop_def strands_def)
  qed
qed

end
