(* ===== verification/Concurrent_Safety.thy ===== *)
theory Concurrent_Safety
  imports Concurrent_Simulation
begin

text \<open>
  What every reachable world of the concurrent server satisfies whether or not \<open>dump()\<close> throws: the
  invariant of the sessions, the adapter's reachability, valid orders in the running handlers, and
  error texts that can be printed. With it every step is defined, except the reading of a message
  with a number that \<open>get<std::int64_t>()\<close> cannot convert.
\<close>

subsection \<open>What the library says in its exceptions\<close>

text \<open>
  \<open>dump()\<close> throws a \<open>type_error\<close> for a string that is not UTF-8. Documented behaviour of the library,
  as hypotheses: \<open>json_dumps_ascii\<close>, an object whose keys and values are ASCII strings (which are
  UTF-8) is printed without an exception; \<open>json_texts\<close>, the exceptions of \<open>dump()\<close>, and those of
  \<open>parse\<close> other than parse errors, describe themselves in ASCII.
\<close>

definition ascii :: "string \<Rightarrow> bool" where
  "ascii s \<longleftrightarrow> list_all (\<lambda>c. \<not> digit7 c) s"

definition json_dumps_ascii :: "'j json_lib \<Rightarrow> bool" where
  "json_dumps_ascii L \<longleftrightarrow>
     (\<forall>kvs. list_all (\<lambda>(k, s). ascii k \<and> ascii s) kvs \<longrightarrow>
        (\<exists>m. js_dump L (js_object L (map (\<lambda>(k, s). (k, js_string L s)) kvs)) = Inr m))"

definition json_texts :: "'j json_lib \<Rightarrow> bool" where
  "json_texts L \<longleftrightarrow>
     (\<forall>j w. js_dump L j = Inl w \<longrightarrow> ascii w) \<and>
     (\<forall>raw w. js_parse L raw = Parse_Exception w \<longrightarrow> ascii w)"

text \<open>The error message of \<open>WebSocketSession::onRead\<close> can then be printed.\<close>

lemma report_dumps:
  assumes "json_dumps_ascii L" and "ascii p"
  shows "\<exists>m. js_dump L (msg_error L (''Server error: '' @ p)) = Inr m"
proof -
  have "list_all (\<lambda>(k, s). ascii k \<and> ascii s) [(''type'', ''ERROR''), (''message'', ''Server error: '' @ p)]"
    using assms(2) by (simp add: ascii_def)
  from assms(1) [unfolded json_dumps_ascii_def, rule_format, OF this]
  show ?thesis by (simp only: msg_error_def list.map case_prod_conv)
qed

subsection \<open>The sessions\<close>

lemma job_event:
  assumes "world_enabled (Job_Step i ts) w" and "world_step L now secs (Job_Step i ts) w = Some w'"
  obtains j h out where "job_step L now secs i ts (jobs w i) (hub w) = Some (j, h, out)"
    and "w' = w\<lparr>hub := h, jobs := (jobs w)(i := j), announced := announced w @ out\<rparr>"
    and "jobs w i \<noteq> Ready" and "\<forall>bs. jobs w i = Broadcasting bs \<longrightarrow> set ts \<subseteq> clients (hub w)"
proof -
  have "jobs w i \<noteq> Ready" "\<forall>bs. jobs w i = Broadcasting bs \<longrightarrow> set ts \<subseteq> clients (hub w)"
    using assms(1) by (auto simp: world_enabled_def)
  moreover obtain j h out where "job_step L now secs i ts (jobs w i) (hub w) = Some (j, h, out)"
    "w' = w\<lparr>hub := h, jobs := (jobs w)(i := j), announced := announced w @ out\<rparr>"
    using assms(2) by (auto simp: world_step_def split: option.splits)
  ultimately show thesis using that by blast
qed

lemma world_strands: "world_reachable L w \<Longrightarrow> strands w"
proof (induction rule: world_reachable.induct)
  case world_init
  then show ?case using strands_initial by (simp add: initial_world_def strands_def)
next
  case (world_next w e now secs w')
  show ?case
  proof (cases e)
    case (Loop ev)
    then show ?thesis
      using loop_step_keeps [OF world_next.IH] world_next.hyps by (simp add: world_step_def)
  next
    case (Job_Step i ts)
    obtain j h out where j: "job_step L now secs i ts (jobs w i) (hub w) = Some (j, h, out)"
      and w': "w' = w\<lparr>hub := h, jobs := (jobs w)(i := j), announced := announced w @ out\<rparr>"
      and r: "jobs w i \<noteq> Ready" "\<forall>bs. jobs w i = Broadcasting bs \<longrightarrow> set ts \<subseteq> clients (hub w)"
      by (rule job_event [OF world_next.hyps(2,3) [unfolded Job_Step]])
    show ?thesis
      using job_step_strands [OF world_next.IH [unfolded strands_def] r(1) _ j] r(2)
      by (simp add: w' strands_def)
  next
    case Stop
    then show ?thesis
      using world_next by (auto simp: world_step_def server_stop_def strands_def)
  qed
qed

subsection \<open>The running requests\<close>

definition served_ok :: "'j world \<Rightarrow> bool" where
  "served_ok w \<longleftrightarrow> adapter_reachable (srv_adapter (srv (hub w))) \<and>
     (\<forall>i t. jobs w i = Serving t \<longrightarrow> task_ok t)"

text \<open>A step of a job that is not serving a request touches no server state and serves none.\<close>

lemma job_step_other:
  assumes "job_step L now secs i ts j h = Some (j', h', out)" and "\<nexists>t. j = Serving t \<and> (\<nexists>d bs. t = Reply d bs)"
  shows "srv h' = srv h" and "j' \<noteq> Serving t"
proof -
  have "start_read i h = Some h'' \<Longrightarrow> srv h'' = srv h" for h''
    by (auto simp: start_read_def split: option.splits)
  then have "srv h' = srv h \<and> j' \<noteq> Serving t"
    using assms by (cases "(L, now, secs, i, ts, j, h)" rule: job_step.cases)
      (auto simp: addClient_def removeClient_def split: sum.splits if_splits option.splits)
  then show "srv h' = srv h" "j' \<noteq> Serving t" by blast+
qed

lemma job_step_served:
  assumes st: "job_step L now secs i ts j h = Some (j', h', out)"
    and a: "adapter_reachable (srv_adapter (srv h))" and ok: "\<And>t. j = Serving t \<Longrightarrow> task_ok t"
  shows "adapter_reachable (srv_adapter (srv h')) \<and> (\<forall>t. j' = Serving t \<longrightarrow> task_ok t)"
proof (cases "\<exists>t. j = Serving t \<and> (\<nexists>d bs. t = Reply d bs)")
  case True
  then obtain t sv' t' where "j = Serving t" "task_step L now secs t (srv h) = Some (sv', t', out)"
    "j' = Serving t'" "h' = h\<lparr>srv := sv'\<rparr>"
    using st by (auto simp: job_step_Serving split: option.splits)
  then show ?thesis using task_step_keeps [OF a ok] by simp
next
  case False
  then show ?thesis using job_step_other [OF st False] a by simp
qed

lemma loop_step_served:
  assumes L: "json_no_nan L" and st: "loop_step L ev w = Some w'" and en: "world_enabled (Loop ev) w"
    and ok: "\<And>i t. jobs w i = Serving t \<Longrightarrow> task_ok t" and j: "jobs w' i = Serving t"
  shows "task_ok t"
proof -
  from loop_step_jobs [OF st en] consider "jobs w' = jobs w"
    | k j' where "jobs w' = (jobs w)(k := j')" "follows j' Idle \<or> (\<exists>m. begin_request L m = Some j')"
    by blast
  then show ?thesis
  proof cases
    case 1
    then show ?thesis using ok j by simp
  next
    case 2
    show ?thesis
    proof (cases "k = i")
      case True
      then have j': "j' = Serving t" using 2(1) j by simp
      from 2(2) show ?thesis
        using begin_request_Serving task_ok_task_of [OF L] by (force simp: j' task_ok_def)
    qed (use 2(1) ok j in simp)
  qed
qed

lemma world_served_ok:
  assumes L: "json_no_nan L" and w: "world_reachable L w"
  shows "served_ok w"
  using w
proof (induction rule: world_reachable.induct)
  case world_init
  then show ?case
    by (simp add: served_ok_def initial_world_def initial_hub_def initial_server_def adapter_init)
next
  case (world_next w e now secs w')
  have ih: "adapter_reachable (srv_adapter (srv (hub w)))" "\<And>i t. jobs w i = Serving t \<Longrightarrow> task_ok t"
    using world_next.IH by (simp_all add: served_ok_def)
  show ?case
  proof (cases e)
    case (Loop ev)
    then have st: "loop_step L ev w = Some w'" and en: "world_enabled (Loop ev) w"
      using world_next.hyps by (simp_all add: world_step_def)
    show ?thesis
      unfolding served_ok_def
      using loop_step_keeps [OF world_strands [OF world_next.hyps(1)] en st] ih(1)
        loop_step_served [OF L st en ih(2)] by auto
  next
    case (Job_Step i ts)
    obtain j h out where j: "job_step L now secs i ts (jobs w i) (hub w) = Some (j, h, out)"
      and w': "w' = w\<lparr>hub := h, jobs := (jobs w)(i := j), announced := announced w @ out\<rparr>"
      by (rule job_event [OF world_next.hyps(2,3) [unfolded Job_Step]])
    show ?thesis
      using job_step_served [OF j ih] ih(2) by (simp add: w' served_ok_def)
  next
    case Stop
    then show ?thesis using world_next by (auto simp: world_step_def server_stop_def served_ok_def)
  qed
qed
subsection \<open>The exceptions that are reported\<close>

lemma begin_request_reporting:
  assumes "json_getters L" and "json_texts L" and "begin_request L m = Some (Reporting p)"
  shows "ascii p"
proof -
  have "getMessageType L msg \<noteq> Inl (StdException p)" for msg
    using requests_protocol_only [OF assms(1)] by blast
  then have "protocol_parse L m = Inl (StdException p)"
    using assms(3)
    by (auto simp: begin_request_def answer_error_def split: sum.splits cpp_exception.splits)
  then have "js_parse L m = Parse_Exception p"
    by (simp add: protocol_parse_def split: if_splits parsed.splits)
  then show ?thesis using assms(2) by (simp add: json_texts_def)
qed

lemma job_step_reporting:
  assumes "job_step L now secs i ts j h = Some (Reporting p, h', out)"
  shows "\<exists>b. js_dump L b = Inl p"
proof (cases "\<exists>t. j = Serving t \<and> (\<nexists>d bs. t = Reply d bs)")
  case True
  then show ?thesis using assms by (auto simp: job_step_Serving split: option.splits)
next
  case False
  then show ?thesis
    using assms by (cases "(L, now, secs, i, ts, j, h)" rule: job_step.cases)
      (auto split: sum.splits if_splits option.splits)
qed

lemma loop_step_reporting:
  assumes "loop_step L ev w = Some w'" and "jobs w' i = Reporting p"
  shows "jobs w i = Reporting p \<or> (\<exists>m. begin_request L m = Some (Reporting p))"
  using assms
  by (cases ev) (auto simp: loop_step_def Let_def start_job_def begin_disconnect_def
      split: if_splits option.splits)

lemma world_reports:
  assumes L: "json_getters L" "json_texts L" and w: "world_reachable L w"
  shows "jobs w i = Reporting p \<Longrightarrow> ascii p"
  using w
proof (induction arbitrary: i p rule: world_reachable.induct)
  case world_init
  then show ?case by (simp add: initial_world_def)
next
  case (world_next w e now secs w')
  show ?case
  proof (cases e)
    case (Loop ev)
    then have "loop_step L ev w = Some w'" using world_next.hyps by (simp add: world_step_def)
    then show ?thesis
      using loop_step_reporting world_next.prems world_next.IH begin_request_reporting [OF L] by blast
  next
    case (Job_Step k ts)
    obtain j h out where j: "job_step L now secs k ts (jobs w k) (hub w) = Some (j, h, out)"
      and w': "w' = w\<lparr>hub := h, jobs := (jobs w)(k := j), announced := announced w @ out\<rparr>"
      by (rule job_event [OF world_next.hyps(2,3) [unfolded Job_Step]])
    show ?thesis
    proof (cases "k = i")
      case True
      then show ?thesis
        using job_step_reporting [of L now secs k ts "jobs w k" "hub w" p h out] j world_next.prems L(2)
        by (auto simp: w' json_texts_def)
    qed (use world_next in \<open>auto simp: w'\<close>)
  next
    case Stop
    then show ?thesis using world_next by (auto simp: world_step_def server_stop_def)
  qed
qed

subsection \<open>Steps are defined\<close>

text \<open>A step of a handler needs an order id to place an order, and to print the error it reports.\<close>

lemma job_step_safe:
  assumes n: "json_no_nan L" and w: "world_reachable L w" and run: "jobs w i \<noteq> Ready"
    and room: "\<And>r. jobs w i = Serving (Want_Place r) \<Longrightarrow> nextOrderId (srv_adapter (srv (hub w))) \<noteq> INT64_MAX"
    and rep: "\<And>p. jobs w i = Reporting p \<Longrightarrow> \<exists>m. js_dump L (msg_error L (''Server error: '' @ p)) = Inr m"
  shows "job_step L now secs i ts (jobs w i) (hub w) \<noteq> None"
proof -
  have st: "strands_ok (jobs w) (hub w)" using world_strands [OF w] by (simp add: strands_def)
  show ?thesis
  proof (cases "jobs w i")
    case (Serving t)
    have a: "adapter_reachable (srv_adapter (srv (hub w)))" and ok: "task_ok t"
      using world_served_ok [OF n w] Serving by (simp_all add: served_ok_def)
    have ne: "t \<noteq> Idle"
      by (rule strands_running [OF st run]) (simp add: Serving session_ok_def)
    have "task_step L now secs t (srv (hub w)) \<noteq> None" if "\<nexists>d bs. t = Reply d bs"
      by (rule task_step_defined [OF a ok ne]) (use room Serving in auto)
    then show ?thesis
      by (cases "\<exists>d bs. t = Reply d bs") (auto simp: Serving job_step_Serving)
  next
    case (Broadcasting bs)
    then show ?thesis by (cases bs) (simp_all split: sum.split)
  next
    case (Sending m js bs)
    then show ?thesis by (cases js) simp_all
  next
    case Rereading
    then have "at_work (jobs w i)" by (simp add: at_work_def)
    then obtain h' where "start_read i (hub w) = Some h'" by (rule strands_start_read [OF st])
    then show ?thesis by (simp add: Rereading)
  next
    case (Reporting p)
    then show ?thesis using rep [OF Reporting] by auto
  qed (use run in \<open>simp_all split: sum.split\<close>)
qed

lemma world_step_exact:
  assumes L: "json_no_nan L" and w: "world_reachable L w" and en: "world_enabled e w"
    and room: "nextOrderId (srv_adapter (srv (hub w))) \<noteq> INT64_MAX"
    and rep: "\<And>i p. jobs w i = Reporting p \<Longrightarrow> \<exists>m. js_dump L (msg_error L (''Server error: '' @ p)) = Inr m"
  shows "world_step L now secs e w = None \<longleftrightarrow>
    (\<exists>i m. e = Loop (Message_Read i False m) \<and> read_request L m = Inl Undefined)"
proof (cases e)
  case (Loop ev)
  show ?thesis
  proof (cases "\<exists>i m. ev = Message_Read i False m \<and> read_request L m = Inl Undefined")
    case True
    then obtain i m where "ev = Message_Read i False m" "read_request L m = Inl Undefined" by blast
    then show ?thesis by (simp add: Loop world_step_def loop_step_read)
  next
    case False
    have en': "world_enabled (Loop ev) w" using en Loop by simp
    obtain w' where "loop_step L ev w = Some w'"
      by (rule loop_step_ok [OF world_strands [OF w] en']) (use False in blast)
    then show ?thesis using False by (simp add: Loop world_step_def)
  qed
next
  case (Job_Step i ts)
  then have "jobs w i \<noteq> Ready" using en by (auto simp: world_enabled_def)
  then show ?thesis
    using job_step_safe [OF L w _ room rep, where i = i and now = now and secs = secs and ts = ts] Job_Step
    by (auto simp: world_step_def split: option.splits)
next
  case Stop
  then show ?thesis by (simp add: world_step_def)
qed

end
