(* ===== verification/Concurrent_Theorems.thy ===== *)
theory Concurrent_Theorems
  imports Concurrent_Safety
begin

text \<open>
  The properties of the concurrent server: no step is undefined, every client gets its messages in
  order, the client manager is right while handlers run, the engine and the metrics are those of
  interleaved requests, and every handler can run to its end.
\<close>

subsection \<open>Steps are defined\<close>

lemma world_simulated:
  assumes "json_dumps L" and "world_reachable L w"
  obtains s where "strands w" and "interleaved L (accepted (hub w)) s"
    and "simulated (accepted (hub w)) (jobs w) (srv (hub w)) (announced w) s"
  using world_invariant [OF assms order_refl] by blast

lemma job_step_defined:
  assumes L: "json_no_nan L" "json_dumps L" and w: "world_reachable L w" and run: "jobs w i \<noteq> Ready"
    and room: "\<And>r. jobs w i = Serving (Want_Place r) \<Longrightarrow> nextOrderId (srv_adapter (srv (hub w))) \<noteq> INT64_MAX"
  shows "job_step L now secs i ts (jobs w i) (hub w) \<noteq> None"
  by (rule job_step_safe [OF L(1) w run]) (use room dump_text [OF L(2)] in auto)

subsection \<open>Handlers end\<close>

text \<open>How far a running handler is from its end; each of its steps makes it smaller.\<close>

fun task_rank :: "'j task \<Rightarrow> nat \<times> nat" where
  "task_rank Idle = (0, 0)"
| "task_rank (Reply d bs) = (0, 0)"
| "task_rank (Load vs) = (1, 4 - length vs)"
| "task_rank (Record req r ts) = (1, 2 * length ts)"
| "task_rank (Add_Volume req r t ts) = (1, 2 * length ts + 1)"
| "task_rank (Count req r) = (2, 0)"
| "task_rank (Cancelled c) = (2, 0)"
| "task_rank (Storing p n) = (3, 0)"
| "task_rank (Counting p) = (3, 1)"
| "task_rank (Want_Place req) = (3, 2)"
| "task_rank (Want_Cancel req) = (3, 2)"

fun job_rank :: "'j job \<Rightarrow> nat \<times> nat \<times> nat" where
  "job_rank Ready = (0, 0, 0)"
| "job_rank Leaving = (1, 0, 0)"
| "job_rank Rereading = (1, 0, 0)"
| "job_rank (Reporting w) = (2, 0, 0)"
| "job_rank (Broadcasting bs) = (3, 2 * length bs, 0)"
| "job_rank (Sending m js bs) = (3, 2 * length bs + 1, length js)"
| "job_rank (Answering d bs) = (4, 0, 0)"
| "job_rank (Serving t) = (5, task_rank t)"
| "job_rank (Sending_Book b) = (6, 0, 0)"
| "job_rank Reading_Book = (7, 0, 0)"
| "job_rank Joining = (8, 0, 0)"

definition smaller_rank :: "((nat \<times> nat \<times> nat) \<times> (nat \<times> nat \<times> nat)) set" where
  "smaller_rank = less_than <*lex*> less_than <*lex*> less_than"

lemma wf_smaller_rank: "wf smaller_rank"
  by (simp add: smaller_rank_def wf_lex_prod)

lemma task_rank_decreases:
  assumes "task_step L now secs t sv = Some (sv', t', out)" and "\<nexists>d bs. t = Reply d bs"
  shows "(task_rank t', task_rank t) \<in> less_than <*lex*> less_than"
proof (cases t)
  case (Record req r ts)
  then show ?thesis using assms(1) by (cases ts) auto
qed (use assms in \<open>auto simp: after_section_def split: option.splits if_splits outcome.splits\<close>)

lemma job_rank_decreases:
  assumes "job_step L now secs i ts j h = Some (j', h', out)"
  shows "(job_rank j', job_rank j) \<in> smaller_rank"
proof (cases "\<exists>t. j = Serving t \<and> (\<nexists>d bs. t = Reply d bs)")
  case True
  then show ?thesis
    using assms task_rank_decreases by (fastforce simp: job_step_Serving smaller_rank_def split: option.splits)
next
  case False
  then show ?thesis
    using assms by (cases "(L, now, secs, i, ts, j, h)" rule: job_step.cases)
      (auto simp: smaller_rank_def split: sum.splits if_splits option.splits)
qed

text \<open>A step of the handler of session \<open>i\<close>, and what it does while no other handler runs.\<close>

definition handler_step :: "'j json_lib \<Rightarrow> u64 \<Rightarrow> double \<Rightarrow> nat \<Rightarrow> 'j world \<Rightarrow> 'j world \<Rightarrow> bool" where
  "handler_step L now secs i w w' \<longleftrightarrow>
     (\<exists>ts. world_enabled (Job_Step i ts) w \<and> world_step L now secs (Job_Step i ts) w = Some w')"

abbreviation alone :: "'j json_lib \<Rightarrow> u64 \<Rightarrow> double \<Rightarrow> nat \<Rightarrow> 'j world \<Rightarrow> 'j world \<Rightarrow> bool" where
  "alone L now secs i \<equiv> (handler_step L now secs i)\<^sup>*\<^sup>*"

lemma alone_trans: "alone L now secs i w w' \<Longrightarrow> alone L now secs i w' w'' \<Longrightarrow> alone L now secs i w w''"
  by (rule rtranclp_trans)

lemma alone_reachable:
  assumes "alone L now secs i w w'" and "world_reachable L w"
  shows "world_reachable L w'"
  using assms by (induction rule: rtranclp_induct) (auto simp: handler_step_def intro: world_next)

text \<open>The world after a step of the handler of session \<open>i\<close>.\<close>

definition moved :: "nat \<Rightarrow> 'j job \<Rightarrow> hub \<Rightarrow> 'j list \<Rightarrow> 'j world \<Rightarrow> 'j world" where
  "moved i j h out w = w\<lparr>hub := h, jobs := (jobs w)(i := j), announced := announced w @ out\<rparr>"

lemma moved_simps [simp]:
  "hub (moved i j h out w) = h" "jobs (moved i j h out w) i = j" "announced (moved i j h out w) = announced w @ out"
  "stopped (moved i j h out w) = stopped w"
  "moved i j' h' out' (moved i j h out w) = moved i j' h' (out @ out') w"
  by (simp_all add: moved_def)

lemma moved_others: "k \<noteq> i \<Longrightarrow> jobs (moved i j h out w) k = jobs w k"
  by (simp add: moved_def)

lemma moved_same: "jobs w i = j \<Longrightarrow> moved i j (hub w) [] w = w"
  by (cases w) (auto simp: moved_def fun_upd_idem)

lemma handler_stepI:
  assumes "job_step L now secs i (sorted_list_of_set (clients (hub w))) (jobs w i) (hub w) = Some (j, h, out)"
    and "finite (clients (hub w))" and "waiting (jobs w i) \<Longrightarrow> engine_mutex_free w"
  shows "handler_step L now secs i w (moved i j h out w)"
proof -
  let ?e = "Job_Step i (sorted_list_of_set (clients (hub w)))"
  have "jobs w i \<noteq> Ready" using assms(1) by auto
  then have "world_enabled ?e w" using assms(2,3) by (auto simp: world_enabled_def split: job.splits)
  moreover have "world_step L now secs ?e w = Some (moved i j h out w)"
    using assms(1) by (simp add: world_step_def moved_def)
  ultimately show ?thesis by (auto simp: handler_step_def)
qed

text \<open>Two handlers are never in their sections at the same time.\<close>

lemma one_has_mutex:
  assumes L: "json_no_nan L" "json_dumps L" and w: "world_reachable L w"
    and i: "has_mutex (jobs w i)" and k: "has_mutex (jobs w k)"
  shows "i = k"
proof -
  obtain s where st: "strands w" and s: "interleaved L (accepted (hub w)) s"
    and sim: "simulated (accepted (hub w)) (jobs w) (srv (hub w)) (announced w) s"
    by (rule world_simulated [OF L(2) w])
  have in_tasks: "j < accepted (hub w) \<and> in_section (tasks s ! j)" if "has_mutex (jobs w j)" for j
  proof -
    have "jobs w j \<noteq> Ready" using that by (auto simp: has_mutex_def)
    then obtain ses where "sessions (hub w) j = Some ses" by (rule strands_running [OF st [unfolded strands_def]])
    then have "j < accepted (hub w)" using strandsD(2) [OF st [unfolded strands_def]] by blast
    moreover have "follows (jobs w j) (tasks s ! j)" using sim calculation by (simp add: simulated_def)
    ultimately show ?thesis using that follows_section by blast
  qed
  have "mutex_inv (sys_server s) (tasks s)" "length (tasks s) = accepted (hub w)"
    using interleaved_inv [OF L(1) s] by (simp_all add: system_inv_def Let_def)
  then show ?thesis using in_tasks [OF i] in_tasks [OF k] by (simp add: mutex_inv_def)
qed

lemma mutex_free_others:
  assumes "waiting (jobs w i)" and "\<And>k. k \<noteq> i \<Longrightarrow> \<not> has_mutex (jobs w k)"
  shows "engine_mutex_free w"
proof -
  have "\<not> has_mutex (jobs w i)" using assms(1) wants_not_in by (auto simp: waiting_def has_mutex_def split: job.splits)
  then show ?thesis using assms(2) by (metis engine_mutex_free_def)
qed

lemma job_step_quiet:
  assumes "job_step L now secs i ts j h = Some (j', h', out)"
  shows "\<not> waiting j'" and "\<not> waiting j \<Longrightarrow> srv_adapter (srv h') = srv_adapter (srv h)"
proof -
  have "\<not> waiting j' \<and> (waiting j \<or> srv_adapter (srv h') = srv_adapter (srv h))"
  proof (cases "\<exists>t. j = Serving t \<and> (\<nexists>d bs. t = Reply d bs)")
    case True
    then obtain t where t: "j = Serving t" "\<nexists>d bs. t = Reply d bs" by blast
    then obtain sv' t' where "task_step L now secs t (srv h) = Some (sv', t', out)" "j' = Serving t'" "h' = h\<lparr>srv := sv'\<rparr>"
      using assms by (auto simp: job_step_Serving split: option.splits)
    then show ?thesis using task_step_quiet(1,4) [of L now secs t "srv h" sv' t' out] t(1) by (auto simp: waiting_def)
  next
    case False
    have "start_read i h = Some h'' \<Longrightarrow> srv h'' = srv h" for h''
      by (auto simp: start_read_def split: option.splits)
    then show ?thesis
      using assms False by (cases "(L, now, secs, i, ts, j, h)" rule: job_step.cases)
        (auto simp: waiting_def addClient_def removeClient_def split: sum.splits if_splits option.splits)
  qed
  then show "\<not> waiting j'" and "\<not> waiting j \<Longrightarrow> srv_adapter (srv h') = srv_adapter (srv h)" by blast+
qed

subsection \<open>All handlers end\<close>

text \<open>A handler takes at most one order id.\<close>

abbreviation next_id :: "'j world \<Rightarrow> nat" where
  "next_id w \<equiv> unat (nextOrderId (srv_adapter (srv (hub w))))"

lemma task_step_order_id:
  assumes "task_step L now secs t sv = Some (sv', t', out)"
  shows "unat (nextOrderId (srv_adapter sv')) \<le> Suc (unat (nextOrderId (srv_adapter sv)))"
proof -
  have inc: "unat (n + 1) \<le> Suc (unat n)" for n :: i64
    using mod_less_eq_dividend [of "unat n + 1" "2 ^ 64"] by (simp add: unat_word_ariths)
  have place: "unat (nextOrderId a') \<le> Suc (unat (nextOrderId a))"
    if "adapter_placeOrder now' s ty p q a = Some (a', r)" for now' s ty p q a a' r
    using that inc by (auto simp: adapter_placeOrder_def Let_def split: if_splits option.splits prod.splits)
  have cancel: "nextOrderId a' = nextOrderId a" if "adapter_cancelOrder k a = Some (a', c)" for k a a' c
    using that by (auto simp: adapter_cancelOrder_def Let_def split: if_splits option.splits prod.splits)
  show ?thesis
  proof (cases "wants_mutex t")
    case True
    then show ?thesis
      using assms place cancel by (cases t) (fastforce simp: wants_mutex_def split: option.splits)+
  next
    case False
    then show ?thesis using task_step_quiet(1) [OF assms] by simp
  qed
qed

lemma job_step_order_id:
  assumes "job_step L now secs i ts j h = Some (j', h', out)"
  shows "unat (nextOrderId (srv_adapter (srv h'))) \<le> Suc (unat (nextOrderId (srv_adapter (srv h))))"
proof (cases "waiting j")
  case True
  then obtain t where t: "j = Serving t" "wants_mutex t" by (auto simp: waiting_def split: job.splits)
  then have "\<nexists>d bs. t = Reply d bs" by (auto simp: wants_mutex_def)
  then show ?thesis
    using assms t(1) task_step_order_id by (fastforce simp: job_step_Serving split: option.splits)
next
  case False
  then show ?thesis using job_step_quiet(2) [OF assms] by simp
qed

lemma handler_ends:
  assumes L: "json_no_nan L" "json_dumps L"
  shows "world_reachable L w \<Longrightarrow> (\<And>k. k \<noteq> i \<Longrightarrow> \<not> has_mutex (jobs w k)) \<Longrightarrow>
    (waiting (jobs w i) \<Longrightarrow> nextOrderId (srv_adapter (srv (hub w))) \<noteq> INT64_MAX) \<Longrightarrow>
    \<exists>w'. alone L now secs i w w' \<and> jobs w' = (jobs w)(i := Ready) \<and>
      (waiting (jobs w i) \<or> srv_adapter (srv (hub w')) = srv_adapter (srv (hub w))) \<and>
      next_id w' \<le> Suc (next_id w)"
proof (induction "job_rank (jobs w i)" arbitrary: w rule: wf_induct_rule [OF wf_smaller_rank])
  case 1
  show ?case
  proof (cases "jobs w i = Ready")
    case True
    then have "jobs w = (jobs w)(i := Ready)" by (simp add: fun_upd_idem)
    then show ?thesis by (intro exI [of _ w]) simp
  next
    case run: False
    let ?ts = "sorted_list_of_set (clients (hub w))"
    have "strands_ok (jobs w) (hub w)" by (rule world_simulated [OF L(2) 1(2)]) (simp add: strands_def)
    then have fin: "finite (clients (hub w))" by (rule strandsD(4))
    have room: "nextOrderId (srv_adapter (srv (hub w))) \<noteq> INT64_MAX" if "jobs w i = Serving (Want_Place r)" for r
      using 1(4) that by (simp add: waiting_def)
    obtain j h out where st: "job_step L now secs i ?ts (jobs w i) (hub w) = Some (j, h, out)"
      using job_step_defined [OF L 1(2) run room, where now = now and secs = secs and ts = ?ts] by fastforce
    define w' where "w' = moved i j h out w"
    have step: "handler_step L now secs i w w'"
      unfolding w'_def using mutex_free_others 1(3) by (intro handler_stepI [OF st fin]) blast
    have reach: "world_reachable L w'" using alone_reachable [OF r_into_rtranclp] step 1(2) by blast
    have "(job_rank (jobs w' i), job_rank (jobs w i)) \<in> smaller_rank"
      using job_rank_decreases [OF st] by (simp add: w'_def)
    moreover have quiet: "\<not> waiting (jobs w' i)" using job_step_quiet(1) [OF st] by (simp add: w'_def)
    moreover have "\<not> has_mutex (jobs w' k)" if "k \<noteq> i" for k using 1(3) that by (simp add: w'_def moved_others)
    ultimately obtain w'' where w'': "alone L now secs i w' w''" "jobs w'' = (jobs w')(i := Ready)"
        "srv_adapter (srv (hub w'')) = srv_adapter (srv (hub w'))"
      using 1(1) [of w'] reach by blast
    have "jobs w'' = (jobs w)(i := Ready)" using w''(2) by (simp add: w'_def moved_def)
    moreover have "alone L now secs i w w''" using step w''(1) by (rule converse_rtranclp_into_rtranclp)
    moreover have "waiting (jobs w i) \<or> srv_adapter (srv (hub w'')) = srv_adapter (srv (hub w))"
      using w''(3) job_step_quiet(2) [OF st] by (auto simp: w'_def)
    moreover have "next_id w'' \<le> Suc (next_id w)"
      using w''(3) job_step_order_id [OF st] by (simp add: w'_def)
    ultimately show ?thesis by blast
  qed
qed

abbreviation handlers_run :: "'j json_lib \<Rightarrow> u64 \<Rightarrow> double \<Rightarrow> 'j world \<Rightarrow> 'j world \<Rightarrow> bool" where
  "handlers_run L now secs \<equiv> (\<lambda>w w'. \<exists>i. handler_step L now secs i w w')\<^sup>*\<^sup>*"

lemma alone_handlers_run: "alone L now secs i w w' \<Longrightarrow> handlers_run L now secs w w'"
  by (rule rtranclp_mono [THEN predicate2D, rotated]) auto

lemma all_handlers_end:
  assumes L: "json_no_nan L" "json_dumps L"
  shows "world_reachable L w \<Longrightarrow> finite {i. jobs w i \<noteq> Ready} \<Longrightarrow>
    next_id w + card {i. jobs w i \<noteq> Ready} \<le> unat INT64_MAX \<Longrightarrow>
    \<exists>w'. handlers_run L now secs w w' \<and> world_reachable L w' \<and> (\<forall>i. jobs w' i = Ready)"
proof (induction "card {i. jobs w i \<noteq> Ready}" arbitrary: w)
  case 0
  then have "\<forall>i. jobs w i = Ready" by auto
  then show ?case using 0(2) by blast
next
  case (Suc n)
  obtain i where i: "jobs w i \<noteq> Ready" "\<And>k. k \<noteq> i \<Longrightarrow> \<not> has_mutex (jobs w k)"
  proof (cases "\<exists>k. has_mutex (jobs w k)")
    case True
    then obtain k where k: "has_mutex (jobs w k)" by blast
    then have "jobs w k \<noteq> Ready" by (auto simp: has_mutex_def)
    then show thesis using that one_has_mutex [OF L Suc(3) _ k] by blast
  next
    case False
    obtain k where "jobs w k \<noteq> Ready" using Suc(2) by (metis (mono_tags) Collect_empty_eq card.empty nat.distinct(1))
    then show thesis using that False by blast
  qed
  have room: "nextOrderId (srv_adapter (srv (hub w))) \<noteq> INT64_MAX" using Suc(2,5) by auto
  obtain w1 where w1: "alone L now secs i w w1" "jobs w1 = (jobs w)(i := Ready)" "next_id w1 \<le> Suc (next_id w)"
    using handler_ends [OF L Suc(3) i(2), where now = now and secs = secs] room by blast
  have r1: "world_reachable L w1" by (rule alone_reachable [OF w1(1) Suc(3)])
  have rest: "{k. jobs w1 k \<noteq> Ready} = {k. jobs w k \<noteq> Ready} - {i}" by (auto simp: w1(2))
  then have "card {k. jobs w1 k \<noteq> Ready} = n" "finite {k. jobs w1 k \<noteq> Ready}"
    using Suc(2,4) i(1) by (simp_all add: card_Diff_singleton)
  moreover from this have "next_id w1 + card {k. jobs w1 k \<noteq> Ready} \<le> unat INT64_MAX"
    using w1(3) Suc(2,5) by linarith
  ultimately obtain w' where "handlers_run L now secs w1 w'" "world_reachable L w'" "\<forall>i. jobs w' i = Ready"
    using Suc(1) [of w1] r1 by blast
  then show ?case using alone_handlers_run [OF w1(1)] by (meson rtranclp_trans)
qed

lemma running_bound:
  assumes "json_dumps L" and "world_reachable L w"
  shows "finite {i. jobs w i \<noteq> Ready}" and "card {i. jobs w i \<noteq> Ready} \<le> accepted (hub w)"
proof -
  have st: "strands_ok (jobs w) (hub w)" by (rule world_simulated [OF assms]) (simp add: strands_def)
  have "i < accepted (hub w)" if "jobs w i \<noteq> Ready" for i
    by (rule strands_running [OF st that]) (use strandsD(2) [OF st] in blast)
  then have sub: "{i. jobs w i \<noteq> Ready} \<subseteq> {..<accepted (hub w)}" by auto
  then show "finite {i. jobs w i \<noteq> Ready}" by (rule finite_subset) simp
  show "card {i. jobs w i \<noteq> Ready} \<le> accepted (hub w)" using card_mono [OF _ sub] by simp
qed

subsection \<open>A world with a running handler\<close>

definition connected_world :: "'j world" where
  "connected_world = initial_world\<lparr>hub := doAccept False initial_hub\<rparr>"

definition joining_world :: "'j world" where
  "joining_world = start_job 0 (new_session\<lparr>handshaking := False\<rparr>) Joining connected_world"

lemma joining_world_reachable: "world_reachable L joining_world"
proof -
  have "world_step L 0 double_zero (Loop (Connect False)) initial_world = Some connected_world"
    by (simp add: world_step_def loop_step_def connected_world_def initial_world_def)
  moreover have "world_enabled (Loop (Connect False)) (initial_world :: 'a world)"
    by (simp add: world_enabled_def enabled_def event_session_def initial_world_def)
  ultimately have c: "world_reachable L connected_world" using world_next [OF world_init] by blast
  have s: "sessions (hub connected_world) 0 = Some (run_session new_session)"
    by (simp add: connected_world_def doAccept_def initial_hub_def)
  have "world_step L 0 double_zero (Loop (Handshake 0 False)) connected_world = Some joining_world"
    by (simp add: world_step_def loop_step_def s joining_world_def run_session_def)
  moreover have "world_enabled (Loop (Handshake 0 False)) (connected_world :: 'a world)"
    by (simp add: world_enabled_def enabled_def event_session_def s run_session_def)
      (simp add: connected_world_def initial_world_def)
  ultimately show ?thesis using world_next [OF c] by blast
qed

lemma joining_world_state:
  "jobs joining_world 0 = Joining" "stopped joining_world = False"
  "sessions (hub joining_world) 0 = Some (new_session\<lparr>handshaking := False\<rparr>)"
  "srv (hub joining_world) = initial_server" "clients (hub joining_world) = {}"
  by (simp_all add: joining_world_def start_job_def connected_world_def initial_world_def doAccept_def initial_hub_def)

lemma signal_stops:
  assumes "world_reachable L w"
  shows "world_reachable L (server_stop w)" and "\<not> world_enabled (Loop ev) (server_stop w)"
proof -
  show "world_reachable L (server_stop w)"
    by (rule world_next [OF assms, of Stop 0 double_zero]) (simp_all add: world_enabled_def world_step_def)
  show "\<not> world_enabled (Loop ev) (server_stop w)" by (simp add: world_enabled_def server_stop_def)
qed

lemma shutdown:
  assumes "json_no_nan L" and "json_dumps L" and "world_reachable L w"
    and "next_id w + accepted (hub w) \<le> unat INT64_MAX"
  shows "\<exists>w1 w'. signalHandler (Some w) = Some w1 \<and> (\<forall>ev. \<not> world_enabled (Loop ev) w1) \<and>
    handlers_run L now secs w1 w' \<and> world_reachable L w' \<and> (\<forall>j. jobs w' j = Ready)"
proof -
  let ?w = "server_stop w"
  note r = signal_stops(1) [OF assms(3)]
  have "next_id ?w + card {i. jobs ?w i \<noteq> Ready} \<le> unat INT64_MAX"
    using running_bound(2) [OF assms(2,3)] assms(4) by (simp add: server_stop_def)
  then obtain w' where "handlers_run L now secs ?w w'" "world_reachable L w'" "\<forall>j. jobs w' j = Ready"
    using all_handlers_end [OF assms(1,2) r running_bound(1) [OF assms(2) r]] by blast
  then show ?thesis using signal_stops(2) [OF assms(3)] by (auto simp: signalHandler_def)
qed

lemma handler_can_finish:
  assumes "json_no_nan L" and "json_dumps L" and "world_reachable L w"
    and "nextOrderId (srv_adapter (srv (hub w))) \<noteq> INT64_MAX"
  shows "\<exists>k w1 w'. alone L now secs k w w1 \<and> alone L now secs i w1 w' \<and> world_reachable L w' \<and>
    jobs w' = (jobs w)(k := Ready, i := Ready) \<and> (k = i \<or> has_mutex (jobs w k))"
proof (cases "\<exists>k. k \<noteq> i \<and> has_mutex (jobs w k)")
  case True
  then obtain k where k: "k \<noteq> i" "has_mutex (jobs w k)" by blast
  have others: "\<not> has_mutex (jobs w j)" if "j \<noteq> k" for j
    using one_has_mutex [OF assms(1-3) _ k(2)] that by blast
  have "\<not> waiting (jobs w k)"
    using k(2) wants_not_in by (auto simp: waiting_def has_mutex_def split: job.splits)
  then obtain w1 where w1: "alone L now secs k w w1" "jobs w1 = (jobs w)(k := Ready)"
      "srv_adapter (srv (hub w1)) = srv_adapter (srv (hub w))"
    using handler_ends [OF assms(1-3), of k now secs] others by blast
  have r1: "world_reachable L w1" by (rule alone_reachable [OF w1(1) assms(3)])
  have "\<not> has_mutex (jobs w1 j)" for j using others by (simp add: w1(2) has_mutex_def)
  then obtain w' where w': "alone L now secs i w1 w'" "jobs w' = (jobs w1)(i := Ready)"
    using handler_ends [OF assms(1,2) r1, of i now secs] assms(4) w1(3) by auto
  then show ?thesis
    using w1 k alone_reachable [OF w'(1) r1] by (intro exI [of _ k] exI [of _ w1] exI [of _ w']) simp
next
  case False
  then obtain w' where w': "alone L now secs i w w'" "jobs w' = (jobs w)(i := Ready)"
    using handler_ends [OF assms(1-3), of i now secs] assms(4) by blast
  then show ?thesis
    using alone_reachable [OF w'(1) assms(3)]
    by (intro exI [of _ i] exI [of _ w] exI [of _ w']) simp
qed

section \<open>The properties\<close>

text \<open>
  C13: which steps of the concurrent server are undefined. In every reachable world, as long as
  order ids are left, every completion that can be handled, every next step of a running handler and
  \<open>stop\<close> have a result, whatever handlers are running on the other threads and whether or not
  \<open>dump()\<close> throws for the messages they send, with exactly one exception: a message with a quantity
  or an order id that \<open>get<std::int64_t>()\<close> cannot convert. No second read or write is started on a
  session, nothing is taken from an empty queue, no invalid iterator or uninitialised field is used,
  and no exception leaves a handler of the I/O context.
\<close>

theorem concurrent_server_never_stuck:
  assumes "json_getters L" and "json_no_nan L" and "json_texts L" and "json_dumps_ascii L"
    and "world_reachable L w" and "world_enabled e w"
    and "nextOrderId (srv_adapter (srv (hub w))) \<noteq> INT64_MAX"
  shows "if \<exists>i m. e = Loop (Message_Read i False m) \<and> read_request L m = Inl Undefined
    then world_step L now secs e w = None
    else \<exists>w'. world_step L now secs e w = Some w' \<and> world_reachable L w'"
proof -
  have "\<exists>m. js_dump L (msg_error L (''Server error: '' @ p)) = Inr m" if "jobs w i = Reporting p" for i p
    by (rule report_dumps [OF assms(4) world_reports [OF assms(1,3,5) that]])
  from world_step_exact [OF assms(2,5,6,7) this, where now = now and secs = secs] show ?thesis
    using world_next [OF assms(5,6)] by (cases "world_step L now secs e w") auto
qed

text \<open>The sample library with a printer that refuses what is not ASCII, as the real one refuses what
  is not UTF-8.\<close>

fun jascii :: "jval \<Rightarrow> bool" where
  "jascii (JStr s) = ascii s"
| "jascii (JArr js) = list_all jascii js"
| "jascii (JObj kvs) = list_all (\<lambda>kv. ascii (fst kv) \<and> jascii (snd kv)) kvs"
| "jascii j = True"

definition strict_json :: "jval json_lib" where
  "strict_json = sample_json\<lparr>js_dump := (\<lambda>j. if jascii j then Inr (jdump j) else Inl ''invalid UTF-8 byte'')\<rparr>"

lemma strict_json_laws:
  "json_getters strict_json" "json_no_nan strict_json" "json_texts strict_json" "json_dumps_ascii strict_json"
  "\<not> json_dumps strict_json"
proof -
  show "json_getters strict_json" using sample_json_getters by (simp add: json_getters_def strict_json_def)
  show "json_no_nan strict_json" using sample_json_no_nan by (simp add: json_no_nan_def strict_json_def)
  show "json_texts strict_json"
    by (auto simp: json_texts_def strict_json_def sample_json_def jparse_def ascii_def
        split: if_splits option.splits)
  show "json_dumps_ascii strict_json"
    by (simp add: json_dumps_ascii_def strict_json_def sample_json_def list.pred_map o_def list_all_iff case_prod_beta)
  have "js_dump strict_json (JStr [CHR 0xFF]) = Inl ''invalid UTF-8 byte''"
    by (simp add: strict_json_def ascii_def)
  then show "\<not> json_dumps strict_json" by (auto simp: json_dumps_def intro!: exI [of _ "JStr [CHR 0xFF]"])
qed

theorem concurrent_server_never_stuck_witness:
  "\<exists>w'. world_step strict_json 0 double_zero (Job_Step 0 []) joining_world = Some w' \<and> world_reachable strict_json w'"
proof -
  have "world_enabled (Job_Step 0 []) (joining_world :: jval world)"
    "nextOrderId (srv_adapter (srv (hub (joining_world :: jval world)))) \<noteq> INT64_MAX"
    by (simp_all add: world_enabled_def waiting_def joining_world_state initial_server_def
        initial_adapter_def INT64_MAX_def)
  from concurrent_server_never_stuck [OF strict_json_laws(1-4) joining_world_reachable this,
      where now = 0 and secs = double_zero]
  show ?thesis by simp
qed

text \<open>
  C11: a client is written its messages in the order they were sent to it, each once, also when
  handlers of several sessions send to it at the same time. What was written to a session is a
  prefix of what \<open>send\<close> was called with; the outstanding write is of the front of the queue, which
  stays there until the write completes; and while the session is open nothing is lost: what was
  sent is what was written, then the queue, then the posted handlers, and a write is outstanding
  exactly if the queue is not empty.
\<close>

theorem concurrent_writes_in_order:
  assumes "json_dumps L" and "world_reachable L w" and "sessions (hub w) i = Some s"
  shows "prefix (wire s) (sent s) \<and>
    (case inflight s of None \<Rightarrow> True
     | Some m \<Rightarrow> writeQueue s \<noteq> [] \<and> m = hd (writeQueue s) \<and> prefix (wire s @ [m]) (sent s)) \<and>
    (closed s \<or> sent s = wire s @ writeQueue s @ posted s \<and> (writeQueue s = [] \<longleftrightarrow> inflight s = None))"
proof -
  have "strands_ok (jobs w) (hub w)" by (rule world_simulated [OF assms(1,2)]) (simp add: strands_def)
  then have inv: "session_inv s" using strandsD(2) session_ok_inv assms(3) by blast
  then show ?thesis
    using session_inv_prefix [OF inv]
    by (auto simp: session_inv_def pending_def split: option.splits if_splits dest: append_prefixD)
qed

theorem concurrent_writes_in_order_witness:
  "prefix (wire (the (sessions (hub (joining_world :: jval world)) 0)))
     (sent (the (sessions (hub (joining_world :: jval world)) 0)))"
  using concurrent_writes_in_order [OF sample_json_dumps joining_world_reachable joining_world_state(3)]
  by (simp add: joining_world_state(3))

text \<open>
  C14: the client manager while handlers run. A registered session has finished its handshake, and is
  open unless its handler is about to remove it; a session with no handler running is registered
  exactly if it is open and waits for a message. No session reads while its handler runs unless that
  disconnects it, so each client's requests are served one at a time.
\<close>

theorem clients_while_handlers_run:
  assumes "json_dumps L" and "world_reachable L w" and "sessions (hub w) i = Some s"
  shows "(i \<in> clients (hub w) \<longrightarrow> \<not> handshaking s \<and> (closed s \<longrightarrow> jobs w i = Leaving)) \<and>
    (jobs w i = Ready \<longrightarrow> (i \<in> clients (hub w) \<longleftrightarrow> \<not> closed s \<and> reading s)) \<and>
    (reading s \<longrightarrow> jobs w i = Ready \<or> jobs w i = Leaving)"
proof -
  have "strands_ok (jobs w) (hub w)" by (rule world_simulated [OF assms(1,2)]) (simp add: strands_def)
  then have "session_ok (jobs w i) (i \<in> clients (hub w)) s" using strandsD(2) assms(3) by blast
  then show ?thesis by (auto simp: session_ok_def session_inv_def split: job.splits)
qed

theorem clients_while_handlers_run_witness:
  "\<not> reading (the (sessions (hub (joining_world :: jval world)) 0))"
  using clients_while_handlers_run [OF sample_json_dumps joining_world_reachable joining_world_state(3)]
  by (auto simp: joining_world_state)

text \<open>
  C21: the concurrent server refines the interleaved requests: the state of engine and metrics and
  the broadcasts of every reachable world are those of an interleaving of the requests of its
  sessions. So the engine is always in a state that requests served one after the other reach, the
  active order count is that of the book whenever no handler has \<open>engineMutex_\<close>, and when no handler
  runs the metrics agree with the engine.
\<close>

theorem concurrent_server_refines_interleaving:
  assumes "json_no_nan L" and "json_dumps L" and "world_reachable L w"
  shows "(\<exists>s. interleaved L (accepted (hub w)) s \<and> sys_server s = srv (hub w) \<and> sent_out s = announced w \<and>
      length (tasks s) = accepted (hub w)) \<and>
    adapter_reachable (srv_adapter (srv (hub w))) \<and>
    (engine_mutex_free w \<longrightarrow>
      activeOrders (srv_metrics (srv (hub w))) = of_nat (length (open_orders (srv_adapter (srv (hub w)))))) \<and>
    ((\<forall>i. jobs w i = Ready) \<longrightarrow> metrics_agree (srv (hub w)))"
proof -
  obtain s where s: "interleaved L (accepted (hub w)) s"
    and sim: "simulated (accepted (hub w)) (jobs w) (srv (hub w)) (announced w) s"
    by (rule world_simulated [OF assms(2,3)])
  note inv = interleaved_inv [OF assms(1) s]
  have "metrics_agree (srv (hub w))" if "\<forall>i. jobs w i = Ready"
  proof -
    have "\<forall>t\<in>set (tasks s). t = Idle"
      using sim that by (auto simp: simulated_def in_set_conv_nth)
    then show ?thesis
      using inv sim all_idle_uncounted [of "tasks s"] all_idle_free [of "tasks s"]
      by (simp add: system_inv_def mutex_inv_def Let_def simulated_def active_ok_def log_of_def metrics_agree_def)
  qed
  moreover have "active_ok (srv (hub w))" if "engine_mutex_free w"
  proof -
    have "mutex_free (tasks s)"
      using that sim follows_section by (force simp: mutex_free_nth simulated_def engine_mutex_free_def)
    then show ?thesis using inv sim by (simp add: system_inv_def mutex_inv_def Let_def simulated_def)
  qed
  ultimately show ?thesis
    using s sim inv by (auto simp: simulated_def system_inv_def Let_def active_ok_def)
qed

theorem concurrent_server_refines_interleaving_witness:
  "adapter_reachable (srv_adapter (srv (hub (joining_world :: jval world))))"
  using concurrent_server_refines_interleaving [OF sample_json_no_nan sample_json_dumps joining_world_reachable]
  by blast

text \<open>
  C22: no deadlock, and every handler can finish. In every reachable world and for every session there
  is a schedule of the handlers that are running after which the handler of that session is back
  to waiting for a message: at most the handler that has \<open>engineMutex_\<close> runs to its end first, and
  the others need not move. And after a signal no handler starts, and if there are as many order
  ids left as sessions, there is a schedule that ends every handler that is running, so that the
  threads of \<open>run\<close> can be joined and the program ends.
\<close>

theorem every_handler_can_finish:
  assumes "json_no_nan L" and "json_dumps L" and "world_reachable L w"
    and "nextOrderId (srv_adapter (srv (hub w))) \<noteq> INT64_MAX"
  shows "(\<exists>k w1 w'. alone L now secs k w w1 \<and> alone L now secs i w1 w' \<and> world_reachable L w' \<and>
      jobs w' = (jobs w)(k := Ready, i := Ready) \<and> (k = i \<or> has_mutex (jobs w k))) \<and>
    (next_id w + accepted (hub w) \<le> unat INT64_MAX \<longrightarrow>
      (\<exists>w1 w'. signalHandler (Some w) = Some w1 \<and> (\<forall>ev. \<not> world_enabled (Loop ev) w1) \<and>
         handlers_run L now secs w1 w' \<and> world_reachable L w' \<and> (\<forall>j. jobs w' j = Ready)))"
  using handler_can_finish [OF assms] shutdown [OF assms(1-3)] by blast

theorem every_handler_can_finish_witness:
  "\<exists>w'. handlers_run sample_json 0 double_zero (server_stop joining_world) w' \<and> jobs w' 0 = Ready"
proof -
  have id: "nextOrderId (srv_adapter (srv (hub (joining_world :: jval world)))) = 1"
    by (simp add: joining_world_state initial_server_def initial_adapter_def)
  then have ne: "nextOrderId (srv_adapter (srv (hub (joining_world :: jval world)))) \<noteq> INT64_MAX"
    by (simp add: INT64_MAX_def)
  have "accepted (hub (joining_world :: jval world)) = 1"
    by (simp add: joining_world_def start_job_def connected_world_def doAccept_def initial_hub_def)
  then have "next_id (joining_world :: jval world) + accepted (hub (joining_world :: jval world)) \<le> unat INT64_MAX"
    by (simp add: id INT64_MAX_def)
  then show ?thesis
    using every_handler_can_finish [OF sample_json_no_nan sample_json_dumps joining_world_reachable ne,
        where now = 0 and secs = double_zero and i = 0] by (auto simp: signalHandler_def)
qed

end
