(* ===== verification/Concurrent_Runs.thy ===== *)
theory Concurrent_Runs
  imports Concurrent_Theorems
begin

text \<open>
  Runs of one handler of the concurrent server without a step of another in between: they lead to
  what the handler does in one step in \<open>Server_Loop\<close>. So the sequential server is one schedule of
  the concurrent one.
\<close>

subsection \<open>Steps of one handler\<close>

lemma alone_step:
  assumes "alone L now secs i w0 w" and "finite (clients (hub w))"
    and "job_step L now secs i (sorted_list_of_set (clients (hub w))) (jobs w i) (hub w) = Some (j, h, out)"
    and "waiting (jobs w i) \<Longrightarrow> engine_mutex_free w"
  shows "alone L now secs i w0 (moved i j h out w)"
  using handler_stepI [OF assms(3,2,4)] assms(1) by (rule rtranclp.rtrancl_into_rtrancl [rotated])

lemma waiting_simps [simp]:
  "\<not> waiting Ready" "\<not> waiting Joining" "\<not> waiting Reading_Book" "\<not> waiting (Sending_Book b)"
  "waiting (Serving t) = wants_mutex t" "\<not> waiting (Answering d bs)" "\<not> waiting (Broadcasting bs)"
  "\<not> waiting (Sending m js bs)" "\<not> waiting (Reporting p)" "\<not> waiting Rereading" "\<not> waiting Leaving"
  by (simp_all add: waiting_def)

text \<open>The request handler up to its result.\<close>

lemma alone_task:
  assumes "run_task L now secs k t (srv (hub w)) out = Some (sv', t', out)" and "t' \<noteq> Idle"
    and "jobs w i = Serving t" and "finite (clients (hub w))" and "\<And>k. k \<noteq> i \<Longrightarrow> \<not> has_mutex (jobs w k)"
  shows "alone L now secs i w (moved i (Serving t') ((hub w)\<lparr>srv := sv'\<rparr>) [] w)"
  using assms
proof (induction k arbitrary: t w)
  case 0
  then have "jobs w i = Serving t'" "(hub w)\<lparr>srv := sv'\<rparr> = hub w" by auto
  then have "moved i (Serving t') ((hub w)\<lparr>srv := sv'\<rparr>) [] w = w" by (simp add: moved_same)
  then show ?case by simp
next
  case (Suc k)
  then obtain sv1 t1 o1 where st: "task_step L now secs t (srv (hub w)) = Some (sv1, t1, o1)"
    and rest: "run_task L now secs k t1 sv1 (out @ o1) = Some (sv', t', out)"
    by (auto split: option.splits)
  have "\<exists>o2. out = (out @ o1) @ o2" using rest run_task_out by blast
  then have o1: "o1 = []" by simp
  have no: "\<nexists>d bs. t = Reply d bs"
  proof
    assume "\<exists>d bs. t = Reply d bs"
    then obtain d bs where "t = Reply d bs" by blast
    then have "t1 = Idle" using st o1 by (cases bs) auto
    then show False using rest Suc.prems(2) by (cases k) auto
  qed
  have free: "waiting (jobs w i) \<Longrightarrow> engine_mutex_free w" using mutex_free_others Suc.prems(5) by blast
  let ?w = "moved i (Serving t1) ((hub w)\<lparr>srv := sv1\<rparr>) [] w"
  have "alone L now secs i w ?w"
    by (rule alone_step [OF rtranclp.rtrancl_refl Suc.prems(4)])
      (use st o1 no Suc.prems(3) free in \<open>simp_all add: job_step_Serving\<close>)
  moreover have "alone L now secs i ?w (moved i (Serving t') ((hub ?w)\<lparr>srv := sv'\<rparr>) [] ?w)"
    by (rule Suc.IH) (use rest o1 Suc.prems in \<open>simp_all add: moved_others\<close>)
  ultimately show ?case by (auto dest: alone_trans)
qed

text \<open>From the result of the request handler to the next read.\<close>

lemma alone_answer:
  assumes "json_dumps L" and "jobs w i = Serving (Reply d bs) \<or> jobs w i = Answering d bs"
    and fin: "finite (clients (hub w))"
  shows "alone L now secs i w (moved i (Broadcasting bs)
    (if js_is_null L d then hub w else send_to i (text_of L d) (hub w)) [] w)"
proof -
  let ?w = "moved i (Answering d bs) (hub w) [] w"
  have "alone L now secs i w ?w"
  proof (cases "jobs w i = Answering d bs")
    case True
    then have "?w = w" by (simp add: moved_same)
    then show ?thesis by simp
  next
    case False
    then show ?thesis using assms by (intro alone_step [OF rtranclp.rtrancl_refl fin]) auto
  qed
  then show ?thesis
    using alone_step [of L now secs i w ?w "Broadcasting bs"
        "if js_is_null L d then hub w else send_to i (text_of L d) (hub w)" "[]"] fin
    by (auto simp: dump_text [OF assms(1)])
qed

lemma alone_sending:
  assumes "jobs w i = Sending m js bs" and "finite (clients (hub w))"
  shows "alone L now secs i w (moved i (Sending m [] bs) (fold (\<lambda>j. send_to j m) js (hub w)) [] w)"
  using assms
proof (induction js arbitrary: w)
  case Nil
  then have "moved i (Sending m [] bs) (hub w) [] w = w" by (simp add: moved_same)
  then show ?case by simp
next
  case (Cons j js)
  let ?w = "moved i (Sending m js bs) (send_to j m (hub w)) [] w"
  have "alone L now secs i w ?w"
    by (rule alone_step [OF rtranclp.rtrancl_refl Cons.prems(2)]) (simp_all add: Cons.prems(1))
  moreover have "alone L now secs i ?w (moved i (Sending m [] bs) (fold (\<lambda>j. send_to j m) js (hub ?w)) [] ?w)"
    by (rule Cons.IH) (use Cons.prems in simp_all)
  ultimately show ?case by (auto dest: alone_trans)
qed

lemma fold_send_to:
  assumes "distinct js"
  shows "fold (\<lambda>j. send_to j m) js h = sends (\<lambda>j. if j \<in> set js then [m] else []) h"
  using assms
proof (induction js arbitrary: h)
  case Nil
  show ?case by (simp add: sends_nothing)
next
  case (Cons j js)
  have "(\<lambda>k. (if k = j then [m] else []) @ (if k \<in> set js then [m] else [])) =
      (\<lambda>k. if k \<in> set (j # js) then [m] else [])"
    using Cons.prems by auto
  then show ?case using Cons by (simp add: send_to_sends sends_sends)
qed

lemma alone_broadcast:
  assumes "json_dumps L" and "jobs w i = Broadcasting bs" and "finite (clients (hub w))"
  shows "alone L now secs i w (moved i (Broadcasting [])
    (sends (\<lambda>j. if j \<in> clients (hub w) then map (text_of L) bs else []) (hub w)) bs w)"
  using assms(2,3)
proof (induction bs arbitrary: w)
  case Nil
  have "sends (\<lambda>j. if j \<in> clients (hub w) then map (text_of L) [] else []) (hub w) = hub w"
    by (simp add: sends_nothing)
  then have "moved i (Broadcasting []) (sends (\<lambda>j. if j \<in> clients (hub w) then map (text_of L) [] else []) (hub w)) [] w = w"
    using Nil by (simp add: moved_same)
  then show ?case by simp
next
  case (Cons b bs)
  let ?cs = "clients (hub w)" and ?m = "text_of L b"
  let ?h = "fold (\<lambda>j. send_to j ?m) (sorted_list_of_set ?cs) (hub w)"
  have h: "?h = sends (\<lambda>j. if j \<in> ?cs then [?m] else []) (hub w)"
    using Cons.prems(2) by (simp add: fold_send_to)
  let ?w1 = "moved i (Sending ?m (sorted_list_of_set ?cs) bs) (hub w) [b] w"
  have "alone L now secs i w ?w1"
    by (rule alone_step [OF rtranclp.rtrancl_refl Cons.prems(2)]) (simp_all add: Cons.prems(1) dump_text [OF assms(1)])
  moreover have "alone L now secs i ?w1 (moved i (Sending ?m [] bs) ?h [] ?w1)"
    using alone_sending [of ?w1 i] Cons.prems(2) by simp
  ultimately have "alone L now secs i w (moved i (Sending ?m [] bs) ?h [b] w)" by (auto dest: alone_trans)
  then have start: "alone L now secs i w (moved i (Broadcasting bs) ?h [b] w)" (is "alone L now secs i w ?w2")
    using alone_step [of L now secs i w "moved i (Sending ?m [] bs) ?h [b] w" "Broadcasting bs" ?h "[]"] Cons.prems(2)
    by (simp add: h)
  have "alone L now secs i ?w2 (moved i (Broadcasting [])
    (sends (\<lambda>j. if j \<in> clients (hub ?w2) then map (text_of L) bs else []) (hub ?w2)) bs ?w2)"
    by (rule Cons.IH) (use Cons.prems(2) in \<open>simp_all add: h\<close>)
  moreover have "(\<lambda>j. (if j \<in> ?cs then [?m] else []) @ (if j \<in> ?cs then map (text_of L) bs else [])) =
      (\<lambda>j. if j \<in> ?cs then map (text_of L) (b # bs) else [])" by auto
  ultimately show ?case using start by (auto simp: h sends_sends dest: alone_trans)
qed

lemma alone_reread:
  assumes "jobs w i = Broadcasting [] \<or> jobs w i = Rereading" and "finite (clients (hub w))"
    and "start_read i (hub w) = Some h"
  shows "alone L now secs i w (moved i Ready h [] w)"
proof -
  let ?w = "moved i Rereading (hub w) [] w"
  have "alone L now secs i w ?w"
  proof (cases "jobs w i = Rereading")
    case True
    then have "?w = w" by (simp add: moved_same)
    then show ?thesis by simp
  next
    case False
    then show ?thesis using assms by (intro alone_step [OF rtranclp.rtrancl_refl]) auto
  qed
  then show ?thesis using alone_step [of L now secs i w ?w Ready h "[]"] assms(2,3) by simp
qed

text \<open>A result of the request handler, delivered.\<close>

lemma alone_deliver:
  assumes L: "json_dumps L" and j: "jobs w i = Serving (Reply d bs) \<or> jobs w i = Answering d bs"
    and fin: "finite (clients (hub w))"
    and r: "start_read i (sends (reply L i (clients (hub w)) \<lparr>directResponse = d, broadcasts = bs\<rparr>) (hub w)) = Some h"
  shows "alone L now secs i w (moved i Ready h bs w)"
proof -
  let ?h1 = "if js_is_null L d then hub w else send_to i (text_of L d) (hub w)"
  let ?w1 = "moved i (Broadcasting bs) ?h1 [] w"
  let ?h2 = "sends (\<lambda>j. if j \<in> clients (hub ?w1) then map (text_of L) bs else []) (hub ?w1)"
  have c: "clients ?h1 = clients (hub w)" by simp
  have "alone L now secs i w ?w1" by (rule alone_answer [OF L j fin])
  moreover have "alone L now secs i ?w1 (moved i (Broadcasting []) ?h2 bs ?w1)"
    by (rule alone_broadcast [OF L]) (use fin in simp_all)
  ultimately have w2: "alone L now secs i w (moved i (Broadcasting []) ?h2 bs w)" by (auto dest: alone_trans)
  have "?h2 = sends (reply L i (clients (hub w)) \<lparr>directResponse = d, broadcasts = bs\<rparr>) (hub w)"
  proof (cases "js_is_null L d")
    case True
    then have "reply L i (clients (hub w)) \<lparr>directResponse = d, broadcasts = bs\<rparr> =
        (\<lambda>j. if j \<in> clients (hub w) then map (text_of L) bs else [])"
      by (intro ext) (simp add: reply_def)
    then show ?thesis using True by simp
  next
    case False
    have "(\<lambda>j. (if j = i then [text_of L d] else []) @ (if j \<in> clients (hub w) then map (text_of L) bs else [])) =
        reply L i (clients (hub w)) \<lparr>directResponse = d, broadcasts = bs\<rparr>"
      using False by (intro ext) (simp add: reply_def)
    then show ?thesis using False by (simp add: send_to_sends sends_sends)
  qed
  then have "alone L now secs i (moved i (Broadcasting []) ?h2 bs w) (moved i Ready h [] (moved i (Broadcasting []) ?h2 bs w))"
    using r fin by (intro alone_reread) simp_all
  then show ?thesis using w2 by (auto dest: alone_trans)
qed

subsection \<open>An event of the sequential server is a run of the concurrent one\<close>

definition at_rest :: "hub \<Rightarrow> 'j list \<Rightarrow> 'j world" where
  "at_rest h out = \<lparr>hub = h, jobs = (\<lambda>_. Ready), announced = out, stopped = False\<rparr>"

lemma at_rest_simps [simp]:
  "hub (at_rest h out) = h" "jobs (at_rest h out) i = Ready" "\<not> stopped (at_rest h out)"
  "moved i Ready h' out' (start_job i s j (at_rest h out)) = at_rest h' (out @ out')"
  "start_job i s Ready (at_rest h out) = at_rest (set_session i s h) out"
  by (simp_all add: at_rest_def moved_def start_job_def fun_upd_idem)

lemma start_job_simps [simp]:
  "hub (start_job i s j w) = set_session i s (hub w)" "jobs (start_job i s j w) i = j"
  by (simp_all add: start_job_def)

lemma at_rest_start:
  assumes "world_reachable L (at_rest h out)" and "enabled ev h"
    and "loop_step L ev (at_rest h out) = Some w"
  shows "world_reachable L w"
  by (rule world_next [OF assms(1), of "Loop ev" 0 double_zero])
    (use assms(2,3) in \<open>simp_all add: world_enabled_def world_step_def split: option.split\<close>)

lemma at_rest_run:
  assumes "world_reachable L (at_rest h out)" and "enabled ev h"
    and "loop_step L ev (at_rest h out) = Some (start_job i s j (at_rest h out))"
    and "alone L now secs i (start_job i s j (at_rest h out)) (moved i Ready h' out' (start_job i s j (at_rest h out)))"
  shows "\<exists>out. world_reachable L (at_rest h' out)"
  using alone_reachable [OF assms(4) at_rest_start [OF assms(1-3)]] by auto

lemma begin_request_read:
  assumes "json_getters L"
  shows "begin_request L m =
    (case read_request L m of
       Inl (ProtocolError e) \<Rightarrow> Some (Answering (msg_error L e) [])
     | Inl (StdException w) \<Rightarrow> Some (Reporting w)
     | Inl Undefined \<Rightarrow> None
     | Inr req \<Rightarrow> Some (Serving (task_of req)))"
proof (cases "protocol_parse L m")
  case (Inr msg)
  then show ?thesis
    using requests_protocol_only [OF assms, of msg]
    by (auto simp: begin_request_def answer_error_def read_request_def bind_throws_def read_fields_def
        split: sum.splits cpp_exception.splits)
qed (simp add: begin_request_def answer_error_def read_request_def bind_throws_def split: cpp_exception.splits)

text \<open>A message that was read.\<close>

lemma alone_request:
  assumes L: "json_getters L" "json_dumps L" and j: "begin_request L m = Some (jobs w i)"
    and fin: "finite (clients (hub w))" and free: "\<And>k. k \<noteq> i \<Longrightarrow> \<not> has_mutex (jobs w k)"
    and r: "onRead L now secs i False m s (hub w) = Some h"
  shows "\<exists>out. alone L now secs i w (moved i Ready h out w)"
proof -
  obtain sv' res where hd: "handle L now secs m (srv (hub w)) = Some (sv', res)"
    using r by (auto simp: onRead_def split: option.splits)
  let ?h = "(hub w)\<lparr>srv := sv'\<rparr>"
  note rd = r [unfolded onRead_sends [OF L(2) hd]]
  show ?thesis
  proof (cases "read_request L m")
    case (Inr req)
    then obtain a where sv: "serve L now secs req (srv (hub w)) = Some (sv', a)" and res: "res = Inr a"
      using hd handle_serve [OF L(1), of now secs m "srv (hub w)"] by auto
    obtain k where k: "run_task L now secs k (task_of req) (srv (hub w)) [] =
        Some (sv', Reply (directResponse a) (broadcasts a), [])"
      using run_serve_reply [OF sv] by blast
    let ?w = "moved i (Serving (Reply (directResponse a) (broadcasts a))) ?h [] w"
    have "alone L now secs i w ?w"
      by (rule alone_task [OF k]) (use j fin free Inr in \<open>simp_all add: begin_request_read [OF L(1)]\<close>)
    moreover have "alone L now secs i ?w (moved i Ready h (broadcasts a) ?w)"
      by (rule alone_deliver [OF L(2), where d = "directResponse a"]) (use rd res fin in \<open>cases a; simp add: answers_def\<close>)+
    ultimately show ?thesis by (auto dest: alone_trans)
  next
    case (Inl e)
    then have sv: "sv' = srv (hub w)" "unread L e = Some res"
      using hd handle_serve [OF L(1), of now secs m "srv (hub w)"] by auto
    show ?thesis
    proof (cases e)
      case (ProtocolError p)
      have "alone L now secs i w (moved i Ready h [] w)"
        by (rule alone_deliver [OF L(2), where d = "msg_error L p"])
          (use rd sv [unfolded unread_def ProtocolError] fin j Inl ProtocolError in
            \<open>auto simp: answers_def direct_def begin_request_read [OF L(1)]\<close>)
      then show ?thesis by blast
    next
      case (StdException p)
      let ?m = "text_of L (msg_error L (''Server error: '' @ p))"
      let ?w = "moved i Rereading (send_to i ?m (hub w)) [] w"
      have j': "jobs w i = Reporting p" using j Inl StdException by (simp add: begin_request_read [OF L(1)])
      have "alone L now secs i w ?w"
        by (rule alone_step [OF rtranclp.rtrancl_refl fin]) (simp_all add: j' dump_text [OF L(2)])
      moreover have "alone L now secs i ?w (moved i Ready h [] ?w)"
        by (rule alone_reread)
          (use rd sv [unfolded unread_def StdException] fin in \<open>auto simp: answers_def what_def send_to_sends simp del: append.simps cong: if_cong\<close>)
      ultimately show ?thesis by (auto dest: alone_trans)
    next
      case Undefined
      then show ?thesis using sv by (simp add: unread_def)
    qed
  qed
qed

text \<open>A handshake that succeeded.\<close>

lemma alone_join:
  assumes L: "json_dumps L" and j: "jobs w i = Joining"
    and fin: "finite (clients (hub w))" and r: "onAccept L i False (hub w) = Some h"
  shows "alone L now secs i w (moved i Ready h [] w)"
proof -
  let ?h = "addClient i (hub w)" and ?b = "getOrderBookMessage L (srv (hub w))"
  have fin': "finite (clients ?h)" using fin by (simp add: addClient_def)
  have "alone L now secs i w (moved i Reading_Book ?h [] w)"
    by (rule alone_step [OF rtranclp.rtrancl_refl fin]) (simp_all add: j)
  then have "alone L now secs i w (moved i (Sending_Book ?b) ?h [] w)"
    using alone_step [of L now secs i w "moved i Reading_Book ?h [] w"] fin' by (simp add: addClient_def)
  then have "alone L now secs i w (moved i Rereading (send_to i (text_of L ?b) ?h) [] w)" (is "alone L now secs i w ?w")
    using alone_step [of L now secs i w "moved i (Sending_Book ?b) ?h [] w"] fin' by (simp add: dump_text [OF L])
  moreover have "alone L now secs i ?w (moved i Ready h [] ?w)"
    by (rule alone_reread)
      (use r fin' in \<open>simp_all add: onAccept_def sendInitialOrderBook_def send_to_def dump_text [OF L] addClient_def
        split: option.splits\<close>)
  ultimately show ?thesis by (auto dest: alone_trans)
qed

text \<open>A read or a write that failed.\<close>

lemma alone_disconnect:
  assumes "begin_disconnect s = (s', j)" and "finite (clients h)"
  shows "alone L now secs i (start_job i s' j (at_rest h out))
    (moved i Ready (disconnect i s h) [] (start_job i s' j (at_rest h out)))"
proof (cases "closed s")
  case True
  then have "s' = s" "j = Ready" using assms(1) by (simp_all add: begin_disconnect_def)
  then show ?thesis
    using True moved_same [of "at_rest (set_session i s h) out" i Ready] by (simp add: disconnect_def)
next
  case False
  then have s': "s' = s\<lparr>closed := True\<rparr>" "j = Leaving" using assms(1) by (auto simp: begin_disconnect_def)
  show ?thesis
    by (rule alone_step [OF rtranclp.rtrancl_refl]) (use False assms(2) in \<open>simp_all add: s' disconnect_def\<close>)
qed

lemma start_job_again [simp]:
  "start_job i s j (at_rest (set_session i s h) out) = start_job i s j (at_rest h out)"
  by (simp add: start_job_def at_rest_def set_session_def)

lemma at_rest_event:
  assumes L: "json_getters L" "json_dumps L" and h: "hub_reachable L h" and w: "world_reachable L (at_rest h out)"
    and en: "enabled ev h" and st: "server_step L now secs ev h = Some h'"
  shows "\<exists>out. world_reachable L (at_rest h' out)"
proof -
  have fin: "finite (clients h)" using hub_reachable_ok [OF L(2) h] by (simp add: hub_ok_def)
  note run = at_rest_run [OF w en, where now = now and secs = secs]
  show ?thesis
  proof (cases ev)
    case (Connect ec)
    have "loop_step L ev (at_rest h out) = Some (at_rest h' out)"
      using st by (simp add: Connect loop_step_def server_step_def at_rest_def)
    then show ?thesis using at_rest_start [OF w en] by blast
  next
    case (Handshake i ec)
    let ?s = "(the (sessions h i))\<lparr>handshaking := False\<rparr>"
    let ?j = "if ec then Ready else Joining"
    have ls: "loop_step L ev (at_rest h out) = Some (start_job i ?s ?j (at_rest h out))"
      by (simp add: Handshake loop_step_def Let_def)
    have r: "onAccept L i ec (set_session i ?s h) = Some h'"
      using st by (simp add: Handshake server_step_def Let_def)
    show ?thesis
    proof (cases ec)
      case True
      then show ?thesis using at_rest_start [OF w en ls] r by (auto simp: onAccept_def)
    next
      case False
      show ?thesis
        by (rule run [OF ls]) (rule alone_join [OF L(2)]; use False r fin in simp)
    qed
  next
    case (Message_Read i ec m)
    let ?s = "(the (sessions h i))\<lparr>reading := False\<rparr>"
    have r: "onRead L now secs i ec m ?s (set_session i ?s h) = Some h'"
      using st by (simp add: Message_Read server_step_def Let_def)
    show ?thesis
    proof (cases ec)
      case True
      obtain s' and j :: "'a job" where d: "begin_disconnect ?s = (s', j)" by (rule prod.exhaust)
      have ls: "loop_step L ev (at_rest h out) = Some (start_job i s' j (at_rest h out))"
        using True d by (simp add: Message_Read loop_step_def Let_def)
      have h': "h' = disconnect i ?s (set_session i ?s h)" using r True by (simp add: onRead_def)
      have "disconnect i ?s (set_session i ?s h) = disconnect i ?s h"
        by (simp add: disconnect_def set_session_def)
      then show ?thesis using run [OF ls alone_disconnect [OF d fin]] h' by simp
    next
      case False
      have "handle L now secs m (srv h) \<noteq> None"
        using r False by (auto simp: onRead_def split: option.splits)
      then have "read_request L m \<noteq> Inl Undefined"
        using handle_serve [OF L(1), of now secs m "srv h"] by (auto simp: unread_def)
      then obtain j where b: "begin_request L m = Some j" using begin_request_None [of L m] by blast
      have ls: "loop_step L ev (at_rest h out) = Some (start_job i ?s j (at_rest h out))"
        using False b by (simp add: Message_Read loop_step_def Let_def)
      obtain out' where "alone L now secs i (start_job i ?s j (at_rest h out))
          (moved i Ready h' out' (start_job i ?s j (at_rest h out)))"
        using alone_request [OF L, of m "start_job i ?s j (at_rest h out)" i now secs ?s h']
          False r fin b by (auto simp: start_job_def at_rest_def has_mutex_def)
      then show ?thesis by (rule run [OF ls])
    qed
  next
    case (Posted i)
    then obtain s where s: "run_posted (the (sessions h i)) = Some s" "h' = set_session i s h"
      using st by (auto simp: server_step_def split: option.splits)
    have "loop_step L ev (at_rest h out) = Some (start_job i s Ready (at_rest h out))"
      using s by (simp add: Posted loop_step_def)
    then show ?thesis using at_rest_start [OF w en] s by auto
  next
    case (Write_Done i ec)
    show ?thesis
    proof (cases ec)
      case True
      let ?s = "(the (sessions h i))\<lparr>inflight := None\<rparr>"
      obtain s' and j :: "'a job" where d: "begin_disconnect ?s = (s', j)" by (rule prod.exhaust)
      have ls: "loop_step L ev (at_rest h out) = Some (start_job i s' j (at_rest h out))"
        using True d by (simp add: Write_Done loop_step_def Let_def)
      have "h' = disconnect i ?s h" using st True by (simp add: Write_Done server_step_def Let_def)
      then show ?thesis using run [OF ls alone_disconnect [OF d fin]] by simp
    next
      case False
      then obtain s where s: "write_completed (the (sessions h i)) = Some s" "h' = set_session i s h"
        using st by (auto simp: Write_Done server_step_def Let_def split: option.splits)
      have "loop_step L ev (at_rest h out) = Some (start_job i s Ready (at_rest h out))"
        using s False by (simp add: Write_Done loop_step_def Let_def)
      then show ?thesis using at_rest_start [OF w en] s by auto
    qed
  qed
qed

lemma hub_reachable_at_rest:
  assumes "json_getters L" and "json_dumps L" and "hub_reachable L h"
  shows "\<exists>out. world_reachable L (at_rest h out)"
  using assms(3)
proof (induction rule: hub_reachable.induct)
  case hub_init
  show ?case using world_init by (auto simp: at_rest_def initial_world_def intro: exI [of _ "[]"])
next
  case (hub_step h ev now secs h')
  then show ?case using at_rest_event [OF assms(1,2)] by blast
qed

end
