(* ===== verification/Concurrent_Answers.thy ===== *)
theory Concurrent_Answers
  imports Concurrent_Runs
begin

text \<open>
  What a request is answered while other handlers run: the engine serves it at one moment between
  the message and the answer, and the answer is that of a server that did nothing else then. Only
  the order book in the broadcasts is read at a second, later moment.
\<close>

subsection \<open>Runs of the server in which a handler goes on\<close>

definition moves :: "'j json_lib \<Rightarrow> nat \<Rightarrow> 'j world \<Rightarrow> 'j world \<Rightarrow> bool" where
  "moves L i w w' \<longleftrightarrow>
     jobs w i \<noteq> Ready \<and> (\<exists>now secs e. world_enabled e w \<and> world_step L now secs e w = Some w')"

abbreviation running :: "'j json_lib \<Rightarrow> nat \<Rightarrow> 'j world \<Rightarrow> 'j world \<Rightarrow> bool" where
  "running L i \<equiv> (moves L i)\<^sup>*\<^sup>*"

abbreviation engine_of :: "'j world \<Rightarrow> adapter" where
  "engine_of w \<equiv> srv_adapter (srv (hub w))"

text \<open>The step of another handler leaves this one where it is.\<close>

lemma moves_cases:
  assumes "moves L i w w'"
  obtains "jobs w' i = jobs w i"
    | now secs ts j h out where "job_step L now secs i ts (jobs w i) (hub w) = Some (j, h, out)"
      and "w' = moved i j h out w"
proof -
  obtain now secs e where run: "jobs w i \<noteq> Ready" and en: "world_enabled e w"
    and st: "world_step L now secs e w = Some w'"
    using assms by (auto simp: moves_def)
  show thesis
  proof (cases e)
    case (Job_Step k ts)
    then obtain j h out where st': "job_step L now secs k ts (jobs w k) (hub w) = Some (j, h, out)"
      and w': "w' = moved k j h out w"
      using st by (auto simp: world_step_def moved_def split: option.splits)
    show thesis
    proof (cases "k = i")
      case True
      then show thesis using that(2) st' w' by blast
    next
      case False
      then show thesis using that(1) w' by (simp add: moved_def)
    qed
  next
    case (Loop ev)
    then have "loop_step L ev w = Some w'" "world_enabled (Loop ev) w" using st en by (simp_all add: world_step_def)
    then have "jobs w' = jobs w \<or> (\<exists>k j. jobs w k = Ready \<and> jobs w' = (jobs w)(k := j))"
      using loop_step_jobs by blast
    then have "jobs w' i = jobs w i" using run by auto
    then show thesis by (rule that(1))
  next
    case Stop
    then show thesis using that(1) st by (auto simp: world_step_def server_stop_def)
  qed
qed

lemma running_then: "running L i w v \<Longrightarrow> moves L i v v' \<Longrightarrow> running L i w v'"
  by (rule rtranclp.rtrancl_into_rtrancl)

subsection \<open>The effect of a request and its answer\<close>

text \<open>The engine serves a request, at some reading of the clock.\<close>

definition effect :: "request \<Rightarrow> outcome \<Rightarrow> adapter \<Rightarrow> adapter \<Rightarrow> bool" where
  "effect req p a a' \<longleftrightarrow>
     (case p of
        Placed r x \<Rightarrow> req = Place r \<and>
          (\<exists>now. adapter_placeOrder now (req_side r) (req_orderType r) (req_price r) (req_quantity r) a = Some (a', x))
      | Removed y \<Rightarrow> (\<exists>c. req = Cancel c \<and> adapter_cancelOrder (req_orderId c) a = Some (a', y)))"

text \<open>The direct response and the broadcasts that follow from it and from a snapshot of the book.\<close>

definition answer :: "'j json_lib \<Rightarrow> outcome \<Rightarrow> snapshot \<Rightarrow> 'j \<times> 'j list" where
  "answer L p b =
     (case p of
        Placed r x \<Rightarrow>
          if \<not> er_accepted x then (msg_orderRejected L (er_rejectReason x), [])
          else (accepted_message L r (er_orderId x),
                place_broadcasts L x @ (if er_bookChanged x then [msg_orderBook L b] else []))
      | Removed y \<Rightarrow>
          if \<not> cr_success y then (msg_orderRejected L (cr_reason y), [])
          else (msg_orderCancelled L (cr_orderId y),
                [msg_orderUpdate L \<lparr>ou_orderId = cr_orderId y, ou_status = CANCELLED, ou_remaining = 0\<rparr>,
                 msg_orderBook L b]))"

definition took_effect :: "'j json_lib \<Rightarrow> nat \<Rightarrow> 'j world \<Rightarrow> request \<Rightarrow> outcome \<Rightarrow> 'j world \<Rightarrow> bool" where
  "took_effect L i w req p w' \<longleftrightarrow>
     (\<exists>v v'. running L i w v \<and> moves L i v v' \<and> running L i v' w' \<and> effect req p (engine_of v) (engine_of v'))"

definition answered_by :: "'j json_lib \<Rightarrow> nat \<Rightarrow> 'j world \<Rightarrow> request \<Rightarrow> 'j \<times> 'j list \<Rightarrow> 'j world \<Rightarrow> bool" where
  "answered_by L i w req a w' \<longleftrightarrow>
     (\<exists>p u. took_effect L i w req p u \<and> running L i u w' \<and> a = answer L p (adapter_getOrderBook (engine_of u)))"

text \<open>What has happened when the handler of a request has come to a task.\<close>

definition stage :: "'j json_lib \<Rightarrow> nat \<Rightarrow> 'j world \<Rightarrow> request \<Rightarrow> 'j task \<Rightarrow> 'j world \<Rightarrow> bool" where
  "stage L i w req t w' \<longleftrightarrow>
     t = task_of req \<or>
     (case t of
        Counting p \<Rightarrow> took_effect L i w req p w'
      | Storing p n \<Rightarrow> took_effect L i w req p w'
      | Count r x \<Rightarrow> took_effect L i w req (Placed r x) w' \<and> er_accepted x
      | Record r x ts \<Rightarrow> took_effect L i w req (Placed r x) w' \<and> er_accepted x
      | Add_Volume r x t ts \<Rightarrow> took_effect L i w req (Placed r x) w' \<and> er_accepted x
      | Cancelled y \<Rightarrow> took_effect L i w req (Removed y) w' \<and> cr_success y
      | Load vs \<Rightarrow> req = Get_Metrics
      | Reply d bs \<Rightarrow> req \<noteq> Get_Metrics \<longrightarrow> answered_by L i w req (d, bs) w'
      | _ \<Rightarrow> False)"

lemma took_effect_later: "took_effect L i w req p v \<Longrightarrow> moves L i v v' \<Longrightarrow> took_effect L i w req p v'"
  unfolding took_effect_def using running_then by metis

lemma answered_by_later: "answered_by L i w req a v \<Longrightarrow> moves L i v v' \<Longrightarrow> answered_by L i w req a v'"
  unfolding answered_by_def using running_then by metis

lemma stage_later: "stage L i w req t v \<Longrightarrow> moves L i v v' \<Longrightarrow> stage L i w req t v'"
  using took_effect_later answered_by_later
  by (fastforce simp: stage_def split: task.splits)

lemma stage_step:
  assumes st: "task_step L now secs t (srv (hub v)) = Some (sv', t', out)" and t: "\<nexists>d bs. t = Reply d bs"
    and run: "running L i w v" and mv: "moves L i v v'" and sv: "srv (hub v') = sv'"
    and s: "stage L i w req t v"
  shows "stage L i w req t' v'"
proof -
  have effect: "took_effect L i w req p v'" if "effect req p (engine_of v) (engine_of v')" for p
    unfolding took_effect_def using run mv that by blast
  have later: "took_effect L i w req p v \<Longrightarrow> took_effect L i w req p v'" for p
    by (rule took_effect_later [OF _ mv])
  have now: "took_effect L i w req p v \<Longrightarrow> a = answer L p (adapter_getOrderBook (engine_of v)) \<Longrightarrow>
      answered_by L i w req a v'" for p a
    unfolding answered_by_def using mv by blast
  show ?thesis
  proof (cases t)
    case (Want_Place r)
    then have "req = Place r" using s by (auto simp: stage_def task_of_def split: request.splits)
    moreover have "\<exists>x. t' = Counting (Placed r x) \<and> effect (Place r) (Placed r x) (engine_of v) (srv_adapter sv')"
      using st by (auto simp: Want_Place effect_def split: option.splits)
    ultimately show ?thesis using effect sv by (auto simp: stage_def)
  next
    case (Want_Cancel c)
    then have "req = Cancel c" using s by (auto simp: stage_def task_of_def split: request.splits)
    moreover have "\<exists>y. t' = Counting (Removed y) \<and> effect (Cancel c) (Removed y) (engine_of v) (srv_adapter sv')"
      using st by (auto simp: Want_Cancel effect_def split: option.splits)
    ultimately show ?thesis using effect sv by (auto simp: stage_def)
  next
    case (Counting p)
    then show ?thesis using st s later by (auto simp: stage_def task_of_def split: request.splits)
  next
    case (Storing p n)
    then have p: "took_effect L i w req p v" using s by (auto simp: stage_def task_of_def split: request.splits)
    then have "req \<noteq> Get_Metrics" by (cases p) (auto simp: took_effect_def effect_def)
    then show ?thesis
      using st later [OF p] now [OF p]
      by (auto simp: Storing stage_def after_section_def answer_def split: outcome.splits)
  next
    case (Count r x)
    then show ?thesis using st s later by (auto simp: stage_def task_of_def split: request.splits)
  next
    case (Record r x ts)
    then have p: "took_effect L i w req (Placed r x) v" "er_accepted x"
      using s by (auto simp: stage_def task_of_def split: request.splits)
    show ?thesis
    proof (cases ts)
      case Nil
      then show ?thesis
        using st now [OF p(1)] p(2) by (auto simp: Record stage_def answer_def getOrderBookMessage_def)
    next
      case (Cons y ys)
      then show ?thesis using st later [OF p(1)] p(2) by (auto simp: Record stage_def)
    qed
  next
    case (Add_Volume r x y ys)
    then show ?thesis using st s later by (auto simp: stage_def task_of_def split: request.splits)
  next
    case (Cancelled y)
    then have p: "took_effect L i w req (Removed y) v" "cr_success y"
      using s by (auto simp: stage_def task_of_def split: request.splits)
    then show ?thesis
      using st now [OF p(1)] p(2) by (auto simp: Cancelled stage_def answer_def getOrderBookMessage_def)
  next
    case (Load vs)
    then have "req = Get_Metrics" using s by (auto simp: stage_def task_of_def split: request.splits)
    then show ?thesis using st by (auto simp: Load stage_def split: if_splits)
  qed (use st t in auto)
qed

subsection \<open>The handler of a request\<close>

definition job_stage :: "'j json_lib \<Rightarrow> nat \<Rightarrow> 'j world \<Rightarrow> request \<Rightarrow> 'j world \<Rightarrow> bool" where
  "job_stage L i w req w' \<longleftrightarrow>
     (case jobs w' i of
        Serving t \<Rightarrow> stage L i w req t w'
      | Answering d bs \<Rightarrow> stage L i w req (Reply d bs) w'
      | _ \<Rightarrow> True)"

lemma job_stage_step:
  assumes run: "running L i w v" and mv: "moves L i v v'" and s: "job_stage L i w req v"
  shows "job_stage L i w req v'"
  using mv
proof (cases rule: moves_cases)
  case 1
  then show ?thesis using s stage_later [OF _ mv] by (simp add: job_stage_def split: job.splits)
next
  case (2 now secs ts j h out)
  note st = 2(1)
  show ?thesis
  proof (cases "\<exists>t. jobs v i = Serving t \<and> (\<nexists>d bs. t = Reply d bs)")
    case True
    then obtain t where t: "jobs v i = Serving t" "\<nexists>d bs. t = Reply d bs" by blast
    then obtain sv' t' where t': "task_step L now secs t (srv (hub v)) = Some (sv', t', out)"
      and "j = Serving t'" "h = (hub v)\<lparr>srv := sv'\<rparr>"
      using st by (auto simp: job_step_Serving split: option.splits)
    moreover have "stage L i w req t' v'"
      by (rule stage_step [OF t' t(2) run mv]) (use s t 2(2) calculation in \<open>simp_all add: job_stage_def\<close>)
    ultimately show ?thesis using 2(2) by (simp add: job_stage_def)
  next
    case False
    show ?thesis
    proof (cases "\<exists>d bs. jobs v i = Serving (Reply d bs)")
      case True
      then obtain d bs where d: "jobs v i = Serving (Reply d bs)" by blast
      then have "stage L i w req (Reply d bs) v" using s by (simp add: job_stage_def)
      then have "stage L i w req (Reply d bs) v'" by (rule stage_later [OF _ mv])
      moreover have "jobs v' i = Answering d bs" using st d 2(2) by auto
      ultimately show ?thesis by (simp add: job_stage_def)
    next
      case no: False
      have "(case j of Serving t \<Rightarrow> False | Answering d bs \<Rightarrow> False | _ \<Rightarrow> True)"
        using st False no by (cases "(L, now, secs, i, ts, jobs v i, hub v)" rule: job_step.cases)
          (auto split: sum.splits if_splits option.splits)
      then show ?thesis using 2(2) by (simp add: job_stage_def split: job.splits)
    qed
  qed
qed

lemma job_stage_running:
  assumes "jobs w i = Serving (task_of req)" and "running L i w w'"
  shows "job_stage L i w req w'"
  using assms(2)
proof (induction rule: rtranclp_induct)
  case base
  show ?case by (simp add: job_stage_def assms(1) stage_def)
next
  case (step v v')
  then show ?case by (rule job_stage_step)
qed

subsection \<open>The same request served alone\<close>

lemma effect_served:
  assumes e: "effect req p (srv_adapter sv) a'"
  shows "\<exists>now sv'. serve L now secs req sv =
      Some (sv', \<lparr>directResponse = fst (answer L p (adapter_getOrderBook a')),
                  broadcasts = snd (answer L p (adapter_getOrderBook a'))\<rparr>) \<and> srv_adapter sv' = a'"
proof (cases p)
  case (Placed r x)
  then obtain now where "req = Place r"
    "adapter_placeOrder now (req_side r) (req_orderType r) (req_price r) (req_quantity r) (srv_adapter sv) = Some (a', x)"
    using e by (auto simp: effect_def)
  then show ?thesis
    by (intro exI [of _ now])
      (simp add: Placed serve_def serve_place_def place_locked_def direct_def answer_def place_broadcasts_def getOrderBookMessage_def)
next
  case (Removed y)
  then obtain c where "req = Cancel c" "adapter_cancelOrder (req_orderId c) (srv_adapter sv) = Some (a', y)"
    using e by (auto simp: effect_def)
  then show ?thesis
    by (simp add: Removed serve_def serve_cancel_def cancel_locked_def direct_def answer_def getOrderBookMessage_def)
qed

lemma effect_handled:
  assumes "json_getters L" and "read_request L m = Inr req" and "effect req p (srv_adapter sv) a'"
  shows "\<exists>now sv'. handle L now secs m sv =
      Some (sv', Inr \<lparr>directResponse = fst (answer L p (adapter_getOrderBook a')),
                      broadcasts = snd (answer L p (adapter_getOrderBook a'))\<rparr>) \<and> srv_adapter sv' = a'"
proof -
  obtain now sv' where s: "serve L now secs req sv = Some (sv', \<lparr>directResponse = fst (answer L p (adapter_getOrderBook a')),
      broadcasts = snd (answer L p (adapter_getOrderBook a'))\<rparr>)" "srv_adapter sv' = a'"
    using effect_served [OF assms(3)] by blast
  then show ?thesis
    using assms(2) by (intro exI [of _ now] exI [of _ sv']) (simp add: handle_serve [OF assms(1)])
qed

section \<open>The property\<close>

text \<open>
  C17: answers are linearizable. Take any run of the server in which the handler of a session goes on,
  from the moment a \<open>PLACE_ORDER\<close> or \<open>CANCEL_ORDER\<close> message was read to the moment its answer is
  there, whatever the handlers of other sessions do meanwhile. Then there is one step of the run,
  from \<open>v\<close> to \<open>v'\<close>, that changes the engine as \<open>handle\<close> does when it serves this message alone in
  the state of \<open>v\<close>; and the direct response and the broadcasts are those that \<open>handle\<close> returns
  there, but for the order book, which is that of a later moment \<open>u\<close>.
\<close>

theorem answers_are_linearizable:
  assumes "json_getters L" and "begin_request L m = Some (jobs w i)" and "read_request L m = Inr req"
    and "req \<noteq> Get_Metrics" and "running L i w w'" and "jobs w' i = Answering d bs"
  shows "\<exists>v v' u p now sv'.
    running L i w v \<and> moves L i v v' \<and> running L i v' u \<and> running L i u w' \<and>
    handle L now secs m (srv (hub v)) =
      Some (sv', Inr \<lparr>directResponse = fst (answer L p (adapter_getOrderBook (engine_of v'))),
                      broadcasts = snd (answer L p (adapter_getOrderBook (engine_of v')))\<rparr>) \<and>
    srv_adapter sv' = engine_of v' \<and>
    (d, bs) = answer L p (adapter_getOrderBook (engine_of u))"
proof -
  have "jobs w i = Serving (task_of req)" using assms(2,3) by (simp add: begin_request_read [OF assms(1)])
  then have "stage L i w req (Reply d bs) w'"
    using job_stage_running [OF _ assms(5)] assms(6) by (simp add: job_stage_def)
  then have "answered_by L i w req (d, bs) w'"
    using assms(4) by (auto simp: stage_def task_of_def split: request.splits)
  then obtain p v v' u where r: "running L i w v" "moves L i v v'" "running L i v' u" "running L i u w'"
    and e: "effect req p (engine_of v) (engine_of v')"
    and a: "(d, bs) = answer L p (adapter_getOrderBook (engine_of u))"
    unfolding answered_by_def took_effect_def by blast
  from effect_handled [OF assms(1,3) e, of secs] r a show ?thesis by metis
qed

text \<open>A run to the answer, for the witness: the handler of the only session, alone.\<close>

lemma alone_running:
  assumes "alone L now secs i w w'" and "jobs w' i \<noteq> Ready"
  shows "running L i w w'"
  using assms
proof (induction rule: rtranclp_induct)
  case (step y z)
  obtain ts where ts: "world_enabled (Job_Step i ts) y" "world_step L now secs (Job_Step i ts) y = Some z"
    using step.hyps(2) by (auto simp: handler_step_def)
  have "jobs y i \<noteq> Ready" using ts(1) by (auto simp: world_enabled_def)
  moreover from this have "moves L i y z" using ts by (auto simp: moves_def)
  ultimately show ?case using step.IH running_then by metis
qed simp

theorem answers_are_linearizable_witness:
  "\<exists>p b d bs now sv sv' res. handle sample_json now double_zero ''buy 100 at 100'' sv = Some (sv', Inr res) \<and>
    (d, bs) = answer sample_json p b \<and> bs = [msg_orderBook sample_json book_with_bid]"
proof -
  let ?L = "sample_json" and ?m = "text_of sample_json (getOrderBookMessage sample_json initial_server)"
  let ?s = "(connected_session ?m)\<lparr>reading := False\<rparr>"
  let ?w = "start_job 0 ?s (Serving (Want_Place buy_request)) (at_rest hub_one ([] :: jval list))"
  have b: "begin_request ?L ''buy 100 at 100'' = Some (Serving (Want_Place buy_request))"
    by (simp add: begin_request_read [OF sample_json_getters] buy_read task_of_def)
  obtain sv d where k: "run_task ?L 0 double_zero 5 (Want_Place buy_request) initial_server [] =
      Some (sv, Reply d [msg_orderBook ?L book_with_bid], [])"
    using buy_until_reply [of ?L] by (elim exE conjE)
  let ?h = "(hub ?w)\<lparr>srv := sv\<rparr>" and ?r = "[msg_orderBook ?L book_with_bid]"
  have hub: "srv (hub ?w) = initial_server" "finite (clients (hub ?w))" by (simp_all add: hub_one_def)
  have a: "alone ?L 0 double_zero 0 ?w (moved 0 (Serving (Reply d ?r)) ?h [] ?w)"
    by (rule alone_task) (use k hub b in \<open>simp_all add: start_job_def at_rest_def has_mutex_def\<close>)
  have "alone ?L 0 double_zero 0 ?w (moved 0 (Answering d ?r) ?h [] ?w)" (is "alone _ _ _ _ _ ?w'")
    using alone_step [OF a, of "Answering d ?r" ?h "[]"] hub by simp
  then have run: "running ?L 0 ?w ?w'" by (rule alone_running) simp
  show ?thesis
    using answers_are_linearizable [OF sample_json_getters _ buy_read _ run, of d ?r double_zero] b by fastforce
qed

end
