(* ===== verification/Concurrent_Books.thy ===== *)
theory Concurrent_Books
  imports Concurrent_Runs
begin

text \<open>
  Two clients of the concurrent server, and the order books they see: a request can be served in
  one go whatever the other handlers are doing; an order book that was read before another request
  was served can be sent after it.
\<close>

subsection \<open>A request served in one go\<close>

lemma start_read_defined:
  assumes "sessions h i = Some s" and "\<not> reading s"
  obtains h' where "start_read i h = Some h'"
  using assms by (cases "closed s") (auto simp: start_read_def doRead_def)

lemma start_read_keeps:
  assumes "start_read i h = Some h'"
  shows "clients h' = clients h" and "srv h' = srv h" and "accepted h' = accepted h"
    and "sessions h' j = None \<longleftrightarrow> sessions h j = None"
    and "closed (the (sessions h' j)) = closed (the (sessions h j))"
    and "sent (the (sessions h' j)) = sent (the (sessions h j))"
  using assms by (auto simp: start_read_def doRead_def set_session_def split: option.splits if_splits)

lemma serve_in_one_go:
  assumes L: "json_getters L" "json_dumps L" and w: "world_reachable L w" "jobs w i = Ready" "\<not> stopped w"
    and free: "\<And>k. \<not> has_mutex (jobs w k)"
    and s: "sessions (hub w) i = Some s" "reading s" and req: "read_request L m = Inr req"
    and sv: "serve L now secs req (srv (hub w)) = Some (sv', res)"
  obtains w' where "world_reachable L w'" and "jobs w' = jobs w" and "\<not> stopped w'"
    and "srv (hub w') = sv'" and "clients (hub w') = clients (hub w)"
    and "announced w' = announced w @ broadcasts res"
proof -
  let ?s = "s\<lparr>reading := False\<rparr>"
  let ?w = "start_job i ?s (Serving (task_of req)) w"
  have "strands w" by (rule world_simulated [OF L(2) w(1)])
  then have fin: "finite (clients (hub w))" by (simp add: strands_def strandsD(4))
  have "world_step L now secs (Loop (Message_Read i False m)) w = Some ?w"
    using req by (simp add: world_step_def loop_step_def s(1) Let_def begin_request_read [OF L(1)])
  moreover have "world_enabled (Loop (Message_Read i False m)) w"
    using w s by (simp add: world_enabled_def enabled_def event_session_def)
  ultimately have w1: "world_reachable L ?w" using w(1) world_next by blast
  obtain k where k: "run_task L now secs k (task_of req) (srv (hub w)) [] =
      Some (sv', Reply (directResponse res) (broadcasts res), [])"
    using run_serve_reply [OF sv] by blast
  let ?h = "(hub ?w)\<lparr>srv := sv'\<rparr>"
  let ?w2 = "moved i (Serving (Reply (directResponse res) (broadcasts res))) ?h [] ?w"
  have a1: "alone L now secs i ?w ?w2"
    by (rule alone_task) (use k fin free in \<open>simp_all add: start_job_def\<close>)
  let ?h2 = "sends (reply L i (clients ?h) \<lparr>directResponse = directResponse res, broadcasts = broadcasts res\<rparr>) ?h"
  obtain h' where h': "start_read i ?h2 = Some h'"
    by (rule start_read_defined [of ?h2 i "fold send (reply L i (clients ?h)
      \<lparr>directResponse = directResponse res, broadcasts = broadcasts res\<rparr> i) ?s"]) simp_all
  have "alone L now secs i ?w2 (moved i Ready h' (broadcasts res) ?w2)"
    by (rule alone_deliver [OF L(2)]) (use h' fin in simp_all)
  then have "world_reachable L (moved i Ready h' (broadcasts res) ?w)"
    using alone_reachable [OF alone_trans [OF a1] w1] by simp
  then show thesis
    using start_read_keeps(1,2) [OF h'] w
    by (elim that) (auto simp: moved_def start_job_def)
qed

subsection \<open>Two clients\<close>

lemma onAccept_joins:
  assumes "json_dumps L" and "onAccept L i False h = Some h'"
  shows "clients h' = insert i (clients h)" and "srv h' = srv h" and "accepted h' = accepted h"
  using assms start_read_keeps(1-3)
  by (fastforce simp: onAccept_def sendInitialOrderBook_def dump_text [OF assms(1)] addClient_def split: option.splits)+

lemma another_client:
  assumes L: "json_dumps L" and h: "hub_reachable L h"
  obtains h' where "hub_reachable L h'" and "clients h' = insert (accepted h) (clients h)"
    and "srv h' = srv h" and "accepted h' = Suc (accepted h)"
proof -
  let ?h = "doAccept False h" and ?i = "accepted h"
  have "server_step L 0 double_zero (Connect False) h = Some ?h" by (simp add: server_step_def)
  then have r: "hub_reachable L ?h" by (rule hub_step [OF h, rotated]) (simp add: enabled_def)
  have s: "sessions ?h ?i = Some (run_session new_session)" by (simp add: doAccept_def)
  have en: "enabled (Handshake ?i False) ?h" by (simp add: enabled_def s run_session_def)
  obtain h' where st: "server_step L 0 double_zero (Handshake ?i False) ?h = Some h'"
    by (rule server_step_ok [OF hub_reachable_ok [OF L r] en L]) auto
  have "hub_reachable L h'" by (rule hub_step [OF r en st])
  moreover have "clients h' = insert ?i (clients h)" "srv h' = srv h" "accepted h' = Suc ?i"
    using st onAccept_joins [OF L, of ?i "set_session ?i (the (sessions ?h ?i)\<lparr>handshaking := False\<rparr>) ?h" h']
    by (simp_all add: server_step_def Let_def doAccept_def)
  ultimately show thesis by (rule that)
qed

lemma two_clients:
  assumes "json_dumps L"
  obtains h where "hub_reachable L h" and "clients h = {0, 1}" and "srv h = initial_server"
proof -
  obtain h1 where h1: "hub_reachable L h1" "clients h1 = {0}" "srv h1 = initial_server" "accepted h1 = 1"
    by (rule another_client [OF assms hub_init]) (simp add: initial_hub_def)
  show thesis by (rule another_client [OF assms h1(1)]) (use that h1 in auto)
qed

subsection \<open>A book that is sent after another request was served\<close>

text \<open>A handler that has to broadcast one message does so and goes back to reading.\<close>

lemma broadcast_to_rest:
  assumes L: "json_dumps L" and w: "world_reachable L w" "jobs w i = Broadcasting [b]"
  obtains w' where "world_reachable L w'" and "jobs w' = (jobs w)(i := Ready)"
    and "srv (hub w') = srv (hub w)" and "clients (hub w') = clients (hub w)"
    and "\<And>k. k \<in> clients (hub w) \<Longrightarrow> \<exists>s. sessions (hub w') k = Some s \<and> (\<not> closed s \<longrightarrow> sent s \<noteq> [] \<and> last (sent s) = text_of L b)"
proof -
  have st: "strands_ok (jobs w) (hub w)" by (rule world_simulated [OF L w(1)]) (simp add: strands_def)
  note fin = strandsD(4) [OF st]
  let ?ms = "\<lambda>j. if j \<in> clients (hub w) then map (text_of L) [b] else []"
  let ?h = "sends ?ms (hub w)"
  have a: "alone L 0 double_zero i w (moved i (Broadcasting []) ?h [b] w)" (is "alone _ _ _ _ _ ?w")
    by (rule alone_broadcast [OF L w(2) fin])
  have "strands_ok (jobs ?w) (hub ?w)"
    by (rule world_simulated [OF L alone_reachable [OF a w(1)]]) (simp add: strands_def)
  moreover have "at_work (jobs ?w i)" by (simp add: at_work_def)
  ultimately obtain h' where h': "start_read i (hub ?w) = Some h'" by (rule strands_start_read)
  have "alone L 0 double_zero i ?w (moved i Ready h' [] ?w)" by (rule alone_reread) (use h' fin in simp_all)
  then have r: "world_reachable L (moved i Ready h' [b] w)" (is "world_reachable L ?w'")
    using alone_reachable [OF alone_trans [OF a] w(1)] by simp
  note k = start_read_keeps [OF h']
  have "\<exists>s. sessions h' k = Some s \<and> (\<not> closed s \<longrightarrow> sent s \<noteq> [] \<and> last (sent s) = text_of L b)"
    if c: "k \<in> clients (hub w)" for k
  proof -
    obtain s0 where s0: "sessions (hub w) k = Some s0" using strandsD(1) [OF st, of k] c by fastforce
    then obtain s where s: "sessions h' k = Some s" using k(4) [of k] by fastforce
    have "closed s = closed s0" "sent s = sent (send (text_of L b) s0)" using k(5,6) [of k] s s0 c by simp_all
    then show ?thesis using s by (simp add: send_def)
  qed
  then show thesis using r k by (intro that [of ?w']) (auto simp: moved_def)
qed

lemma stale_world:
  assumes L: "json_getters L" "json_dumps L"
    and p: "read_request L p = Inr (Place buy_request)" and c: "read_request L c = Inr (Cancel cancel_request)"
  obtains w where "world_reachable L w" and "\<And>i. jobs w i = Ready" and "clients (hub w) = {0, 1}"
    and "\<And>i. i \<in> {0, 1} \<Longrightarrow> \<exists>s. sessions (hub w) i = Some s \<and> \<not> closed s \<and> sent s \<noteq> [] \<and>
      last (sent s) = text_of L (msg_orderBook L book_with_bid)"
    and "adapter_getOrderBook (srv_adapter (srv (hub w))) = empty_book"
proof -
  let ?b = "msg_orderBook L book_with_bid"
  obtain h where h: "hub_reachable L h" "clients h = {0, 1}" "srv h = initial_server" by (rule two_clients [OF L(2)])
  have "open_reader h 0" "open_reader h 1"
    using hub_ok_client [OF hub_reachable_ok [OF L(2) h(1)]] h(2) by auto
  then obtain s0 s1 where s: "sessions h 0 = Some s0" "sessions h 1 = Some s1" "reading s0" "reading s1"
    by (auto simp: open_reader_def split: option.splits)
  obtain out where w0: "world_reachable L (at_rest h out)" (is "world_reachable L ?w0")
    using hub_reachable_at_rest [OF L h(1)] by blast
  let ?w1 = "start_job 0 (s0\<lparr>reading := False\<rparr>) (Serving (task_of (Place buy_request))) ?w0"
  have "loop_step L (Message_Read 0 False p) ?w0 = Some ?w1"
    by (simp add: loop_step_def s Let_def begin_request_read [OF L(1)] p)
  then have w1: "world_reachable L ?w1" by (rule at_rest_start [OF w0, rotated]) (simp add: enabled_def s)
  obtain sv d where k: "run_task L 0 double_zero 5 (Want_Place buy_request) initial_server [] = Some (sv, Reply d [?b], [])"
    and sv: "srv_adapter sv = adapter_one"
    using buy_until_reply [of L] by (elim exE conjE)
  let ?h2 = "(hub ?w1)\<lparr>srv := sv\<rparr>"
  let ?w2 = "moved 0 (Serving (Reply d [?b])) ?h2 [] ?w1"
  have "alone L 0 double_zero 0 ?w1 ?w2"
    by (rule alone_task) (use k h in \<open>simp_all add: task_of_def start_job_def at_rest_def has_mutex_def\<close>)
  moreover have "alone L 0 double_zero 0 ?w2 (moved 0 (Broadcasting [?b])
      (if js_is_null L d then hub ?w2 else send_to 0 (text_of L d) (hub ?w2)) [] ?w2)" (is "alone _ _ _ _ _ ?w3")
    by (rule alone_answer [OF L(2)]) (simp_all add: h)
  ultimately have w3: "world_reachable L ?w3" using alone_trans alone_reachable [OF _ w1] by blast
  have s3: "sessions (hub ?w3) 1 = Some s1" by (simp add: send_to_def s del: One_nat_def split: option.split)
  have adp: "srv_adapter (srv (hub ?w3)) = adapter_one" using sv by simp
  obtain sv' res where served: "serve L 0 double_zero (Cancel cancel_request) (srv (hub ?w3)) = Some (sv', res)"
    and empty: "adapter_getOrderBook (srv_adapter sv') = empty_book"
    using serve_cancel_one [OF adp] by blast
  obtain w4 where w4: "world_reachable L w4" "jobs w4 = jobs ?w3" "srv (hub w4) = sv'"
    "clients (hub w4) = clients (hub ?w3)"
    by (rule serve_in_one_go [OF L w3 _ _ _ s3 s(4) c served])
      (simp_all add: moved_def start_job_def at_rest_def has_mutex_def)
  have j4: "jobs w4 0 = Broadcasting [?b]" and cl: "clients (hub w4) = {0, 1}" using w4 h by simp_all
  obtain w5 where w5: "world_reachable L w5" "jobs w5 = (jobs w4)(0 := Ready)" "srv (hub w5) = sv'"
      "clients (hub w5) = {0, 1}"
    and last: "\<And>k. k \<in> {0, 1} \<Longrightarrow> \<exists>s. sessions (hub w5) k = Some s \<and>
      (\<not> closed s \<longrightarrow> sent s \<noteq> [] \<and> last (sent s) = text_of L ?b)"
    by (rule broadcast_to_rest [OF L(2) w4(1) j4]) (use w4(3) cl in simp_all)
  have jobs: "jobs w5 i = Ready" for i
    by (simp add: w5(2) w4(2) moved_def start_job_def at_rest_def)
  have "strands w5" by (rule world_simulated [OF L(2) w5(1)])
  then have st: "strands_ok (jobs w5) (hub w5)" by (simp add: strands_def)
  have "\<exists>s. sessions (hub w5) k = Some s \<and> \<not> closed s \<and> sent s \<noteq> [] \<and> last (sent s) = text_of L ?b"
    if k: "k \<in> {0, 1}" for k
  proof -
    obtain s where s: "sessions (hub w5) k = Some s" "\<not> closed s \<longrightarrow> sent s \<noteq> [] \<and> last (sent s) = text_of L ?b"
      using last [OF k] by blast
    then have "\<not> closed s" using strandsD(2) [OF st s(1)] k by (simp add: session_ok_def jobs w5(4))
    then show ?thesis using s by blast
  qed
  then show thesis using w5 jobs empty by (intro that [of w5]) simp_all
qed

text \<open>A client that joins while an order is placed: its first book was read before and is sent after.\<close>

lemma serve_buy_one:
  "\<exists>sv res. serve L 0 double_zero (Place buy_request) initial_server = Some (sv, res) \<and>
    srv_adapter sv = adapter_one"
  using place_locked_one by (auto simp: serve_def serve_place_def)

lemma joining_world_stale:
  assumes L: "json_getters L" "json_dumps L" and p: "read_request L p = Inr (Place buy_request)"
  obtains w s where "world_reachable L w" and "\<And>i. jobs w i = Ready" and "1 \<in> clients (hub w)"
    and "sessions (hub w) 1 = Some s" and "\<not> closed s" and "sent s \<noteq> []"
    and "last (sent s) = text_of L (msg_orderBook L empty_book)" and "srv_adapter (srv (hub w)) = adapter_one"
proof -
  let ?b = "getOrderBookMessage L initial_server"
  obtain h where h: "hub_reachable L h" "clients h = {0}" "srv h = initial_server" "accepted h = 1"
    by (rule another_client [OF L(2) hub_init]) (simp add: initial_hub_def)
  note ok = hub_reachable_ok [OF L(2) h(1)]
  have "open_reader h 0" using hub_ok_client [OF ok, of 0] h(2) by simp
  then obtain s0 where s0: "sessions h 0 = Some s0" "reading s0" by (auto simp: open_reader_def split: option.splits)
  let ?h = "doAccept False h"
  have "server_step L 0 double_zero (Connect False) h = Some ?h" by (simp add: server_step_def)
  then have "hub_reachable L ?h" by (rule hub_step [OF h(1), rotated]) (simp add: enabled_def)
  then obtain out where w0: "world_reachable L (at_rest ?h out)" (is "world_reachable L ?w0")
    using hub_reachable_at_rest [OF L] by blast
  have s1: "sessions ?h 1 = Some (run_session new_session)" by (simp add: doAccept_def h(4))
  let ?s = "(run_session new_session)\<lparr>handshaking := False\<rparr>"
  let ?w1 = "start_job 1 ?s Joining ?w0"
  have "loop_step L (Handshake 1 False) ?w0 = Some ?w1" by (simp add: loop_step_def s1 Let_def del: One_nat_def)
  then have w1: "world_reachable L ?w1"
    by (rule at_rest_start [OF w0, rotated]) (simp add: enabled_def s1 run_session_def del: One_nat_def)
  have fin: "finite (clients (hub ?w1))" by (simp add: doAccept_def h)
  let ?h2 = "addClient 1 (hub ?w1)"
  have "alone L 0 double_zero 1 ?w1 (moved 1 Reading_Book ?h2 [] ?w1)"
    by (rule alone_step [OF rtranclp.rtrancl_refl fin]) simp_all
  then have "alone L 0 double_zero 1 ?w1 (moved 1 (Sending_Book ?b) ?h2 [] ?w1)" (is "alone _ _ _ _ _ ?w2")
    using alone_step [of L 0 double_zero 1 ?w1 "moved 1 Reading_Book ?h2 [] ?w1"] fin
    by (simp add: addClient_def doAccept_def h)
  then have w2: "world_reachable L ?w2" by (rule alone_reachable [OF _ w1])
  obtain sv res where served: "serve L 0 double_zero (Place buy_request) (srv (hub ?w2)) = Some (sv, res)"
    and sv: "srv_adapter sv = adapter_one"
    using serve_buy_one [of L] by (auto simp: addClient_def doAccept_def h)
  have s02: "sessions (hub ?w2) 0 = Some s0" by (simp add: addClient_def doAccept_def set_session_def s0 h(4))
  obtain w3 where w3: "world_reachable L w3" "jobs w3 = jobs ?w2" "srv (hub w3) = sv" "clients (hub w3) = clients (hub ?w2)"
    by (rule serve_in_one_go [OF L w2 _ _ _ s02 s0(2) p served])
      (simp_all add: moved_def start_job_def at_rest_def has_mutex_def)
  have j3: "jobs w3 1 = Sending_Book ?b" and c3: "1 \<in> clients (hub w3)" using w3 by (simp_all add: addClient_def)
  have others: "jobs w3 k = Ready" if "k \<noteq> 1" for k
    using that by (simp add: w3(2) moved_others) (simp add: start_job_def at_rest_def)
  have "strands w3" by (rule world_simulated [OF L(2) w3(1)])
  then have st: "strands_ok (jobs w3) (hub w3)" by (simp add: strands_def)
  note fin3 = strandsD(4) [OF st]
  obtain s3 where s3: "sessions (hub w3) 1 = Some s3" using strandsD(1) [OF st, of 1] c3 by fastforce
  then have "session_ok (Sending_Book ?b) True s3" using strandsD(2) [OF st s3] c3 unfolding j3 by simp
  then have open3: "\<not> closed s3" "\<not> reading s3" by (simp_all add: session_ok_def)
  let ?t = "text_of L ?b"
  let ?w4 = "moved 1 Rereading (send_to 1 ?t (hub w3)) [] w3"
  have a: "alone L 0 double_zero 1 w3 ?w4"
    by (rule alone_step [OF rtranclp.rtrancl_refl fin3]) (simp_all add: j3 dump_text [OF L(2)] del: One_nat_def)
  have s4: "sessions (hub ?w4) 1 = Some (send ?t s3)" by (simp add: send_to_def s3 del: One_nat_def)
  obtain h5 where h5: "start_read 1 (hub ?w4) = Some h5"
    by (rule start_read_defined [OF s4]) (use open3 in simp)
  have "alone L 0 double_zero 1 ?w4 (moved 1 Ready h5 [] ?w4)"
    by (rule alone_reread) (use h5 fin3 in simp_all)
  then have r5: "world_reachable L (moved 1 Ready h5 [] w3)" (is "world_reachable L ?w5")
    using alone_reachable [OF alone_trans [OF a] w3(1)] by simp
  note k = start_read_keeps [OF h5]
  obtain s5 where s5: "sessions h5 1 = Some s5" using k(4) [of 1] s4 by fastforce
  have f5: "closed s5 = closed s3" "sent s5 = sent s3 @ [?t]"
    using k(5,6) [of 1] s5 s4 open3 by (simp_all add: send_def)
  have book: "?b = msg_orderBook L empty_book"
    by (simp add: getOrderBookMessage_def empty_book_def server_simps sample_eval initial_adapter_def)
  show thesis
  proof (rule that [of ?w5 s5])
    show "jobs ?w5 i = Ready" for i using others by (cases "i = 1") (simp_all add: moved_others)
  qed (use r5 s5 f5 open3 k c3 w3(3) sv in \<open>simp_all add: book [symmetric]\<close>)
qed

section \<open>The properties\<close>

text \<open>
  C20: the sequential server is one schedule of the concurrent one: every state that the event loop
  reaches when each handler runs to its end before the next begins is reached by the threads, with
  no handler left running. So the behaviours shown for one thread, who is answered what and who is
  sent which broadcasts among them, are behaviours of the server as it runs.
\<close>

theorem sequential_server_is_concurrent:
  assumes "json_getters L" and "json_dumps L" and "hub_reachable L h"
  shows "\<exists>w. world_reachable L w \<and> hub w = h \<and> (\<forall>i. jobs w i = Ready) \<and> \<not> stopped w"
proof -
  obtain out where "world_reachable L (at_rest h out)" using hub_reachable_at_rest [OF assms] by blast
  then show ?thesis by (intro exI [of _ "at_rest h out"]) simp
qed

theorem sequential_server_is_concurrent_witness:
  "\<exists>w. world_reachable sample_json w \<and> clients (hub w) = {0} \<and> (\<forall>i. jobs w i = Ready)"
  using sequential_server_is_concurrent [OF sample_json_getters sample_json_dumps hub_one_reachable]
  by (auto simp: hub_one_def)

text \<open>
  C19: clients can be left with an order book that is not the current one. The book of a request is
  read after \<open>engineMutex_\<close> was released and broadcast later still: there is a run with two clients,
  in which the first places a BUY order and the second cancels it, that ends with no handler
  running and an empty book, while the last message sent to each client is the book with the order
  in it. And a new client is registered before its first book is read and sent: there is a run in
  which an order is placed in between, so that the last message the new client is sent is an empty
  book, while the order rests.
\<close>

theorem stale_book_reaches_every_client:
  assumes "json_getters L" and "json_dumps L"
    and "read_request L p = Inr (Place buy_request)" and "read_request L c = Inr (Cancel cancel_request)"
  shows "(\<exists>w. world_reachable L w \<and> (\<forall>i. jobs w i = Ready) \<and> clients (hub w) = {0, 1} \<and>
      (\<forall>i\<in>clients (hub w). \<exists>s. sessions (hub w) i = Some s \<and> \<not> closed s \<and> sent s \<noteq> [] \<and>
         js_dump L (msg_orderBook L book_with_bid) = Inr (last (sent s))) \<and>
      getOrderBookMessage L (srv (hub w)) = msg_orderBook L empty_book) \<and>
    (\<exists>w s. world_reachable L w \<and> (\<forall>i. jobs w i = Ready) \<and> 1 \<in> clients (hub w) \<and>
      sessions (hub w) 1 = Some s \<and> \<not> closed s \<and> sent s \<noteq> [] \<and>
      js_dump L (msg_orderBook L empty_book) = Inr (last (sent s)) \<and>
      getOrderBookMessage L (srv (hub w)) = msg_orderBook L book_with_bid)"
proof
  obtain w where w: "world_reachable L w" "\<And>i. jobs w i = Ready" "clients (hub w) = {0, 1}"
    "\<And>i. i \<in> {0, 1} \<Longrightarrow> \<exists>s. sessions (hub w) i = Some s \<and> \<not> closed s \<and> sent s \<noteq> [] \<and>
      last (sent s) = text_of L (msg_orderBook L book_with_bid)"
    "adapter_getOrderBook (srv_adapter (srv (hub w))) = empty_book"
    using stale_world [OF assms] by metis
  have "\<exists>s. sessions (hub w) i = Some s \<and> \<not> closed s \<and> sent s \<noteq> [] \<and>
      js_dump L (msg_orderBook L book_with_bid) = Inr (last (sent s))" if "i \<in> clients (hub w)" for i
    using w(4) [of i] that w(3) by (auto simp: dump_text [OF assms(2)])
  then show "\<exists>w. world_reachable L w \<and> (\<forall>i. jobs w i = Ready) \<and> clients (hub w) = {0, 1} \<and>
      (\<forall>i\<in>clients (hub w). \<exists>s. sessions (hub w) i = Some s \<and> \<not> closed s \<and> sent s \<noteq> [] \<and>
         js_dump L (msg_orderBook L book_with_bid) = Inr (last (sent s))) \<and>
      getOrderBookMessage L (srv (hub w)) = msg_orderBook L empty_book"
    using w by (intro exI [of _ w]) (simp add: getOrderBookMessage_def)
next
  obtain w s where w: "world_reachable L w" "\<And>i. jobs w i = Ready" "1 \<in> clients (hub w)"
    "sessions (hub w) 1 = Some s" "\<not> closed s" "sent s \<noteq> []"
    "last (sent s) = text_of L (msg_orderBook L empty_book)" "srv_adapter (srv (hub w)) = adapter_one"
    using joining_world_stale [OF assms(1-3)] by metis
  then show "\<exists>w s. world_reachable L w \<and> (\<forall>i. jobs w i = Ready) \<and> 1 \<in> clients (hub w) \<and>
      sessions (hub w) 1 = Some s \<and> \<not> closed s \<and> sent s \<noteq> [] \<and>
      js_dump L (msg_orderBook L empty_book) = Inr (last (sent s)) \<and>
      getOrderBookMessage L (srv (hub w)) = msg_orderBook L book_with_bid"
    by (intro exI [of _ w] exI [of _ s]) (simp add: getOrderBookMessage_def adapter_one_book dump_text [OF assms(2)])
qed

theorem stale_book_reaches_every_client_witness:
  "\<exists>w. world_reachable sample_json w \<and> clients (hub w) = {0, 1} \<and>
    getOrderBookMessage sample_json (srv (hub w)) = msg_orderBook sample_json empty_book \<and>
    msg_orderBook sample_json book_with_bid \<noteq> msg_orderBook sample_json empty_book"
proof -
  have c: "read_request sample_json ''cancel 1'' = Inr (Cancel cancel_request)"
    by (simp add: read_request_def read_fields_def server_simps sample_json_simps cancel_request_def)
  have "msg_orderBook sample_json book_with_bid \<noteq> msg_orderBook sample_json empty_book"
    by (simp add: msg_orderBook_def book_with_bid_def empty_book_def sample_json_simps)
  then show ?thesis
    using stale_book_reaches_every_client [OF sample_json_getters sample_json_dumps buy_read c] by blast
qed

end
