(* ===== verification/Concurrent_Types.thy ===== *)
theory Concurrent_Types
  imports Concurrent_Runs
begin

text \<open>
  The types of the messages clients are sent: a running handler holds only messages of a type that
  its step may answer or broadcast, and every text a session was given to write is the dump of
  such a message.
\<close>

definition direct_types :: "string list" where
  "direct_types = [''ORDER_ACCEPTED'', ''ORDER_REJECTED'', ''ORDER_CANCELLED'', ''METRICS'', ''ERROR'']"

definition broadcast_types :: "string list" where
  "broadcast_types = [''TRADE'', ''ORDER_STATUS'', ''ORDER_BOOK_UPDATE'']"

definition typed :: "'j json_lib \<Rightarrow> string list \<Rightarrow> 'j \<Rightarrow> bool" where
  "typed L ts j = (case getMessageType L j of Inl e \<Rightarrow> False | Inr t \<Rightarrow> t \<in> set ts)"

lemma typed_iff: "typed L ts j \<longleftrightarrow> (\<exists>t\<in>set ts. getMessageType L j = Inr t)"
  by (auto simp: typed_def split: sum.split)

definition text_typed :: "'j json_lib \<Rightarrow> string \<Rightarrow> bool" where
  "text_typed L m \<longleftrightarrow> (\<exists>j. js_dump L j = Inr m \<and> typed L (direct_types @ broadcast_types) j)"

subsection \<open>The messages the handlers make\<close>

lemma accepted_type:
  assumes "json_objects L"
  shows "getMessageType L (accepted_message L req i) = Inr ''ORDER_ACCEPTED''"
proof -
  have set: "js_set L (js_object L kvs) k v = js_object L (kvs @ [(k, v)])"
    if "distinct (map fst kvs)" "k \<notin> fst ` set kvs" for kvs k v
    using assms that unfolding json_objects_def by blast
  show ?thesis
    by (simp add: accepted_message_def msg_orderAccepted_def Let_def set message_type [OF assms])
qed

lemma typed_messages:
  assumes "json_objects L"
  shows "typed L direct_types (accepted_message L req i)" "typed L direct_types (msg_orderRejected L w)"
    "typed L direct_types (msg_orderCancelled L i)" "typed L direct_types (msg_metrics L m)"
    "typed L direct_types (msg_error L w)" "typed L broadcast_types (msg_tradeEvent L t)"
    "typed L broadcast_types (msg_orderUpdate L u)" "typed L broadcast_types (msg_orderBook L b)"
    "typed L broadcast_types (getOrderBookMessage L sv)"
  using message_types [OF assms] accepted_type [OF assms]
  by (simp_all add: typed_def direct_types_def broadcast_types_def getOrderBookMessage_def)

lemma text_typedI:
  assumes "js_dump L j = Inr m"
  shows "typed L direct_types j \<Longrightarrow> text_typed L m" and "typed L broadcast_types j \<Longrightarrow> text_typed L m"
  unfolding text_typed_def by (rule exI [of _ j]; use assms in \<open>simp add: typed_def split: sum.splits\<close>)+

definition task_typed :: "'j json_lib \<Rightarrow> 'j task \<Rightarrow> bool" where
  "task_typed L t =
     (case t of Reply d bs \<Rightarrow> typed L direct_types d \<and> list_all (typed L broadcast_types) bs | _ \<Rightarrow> True)"

lemma task_step_typed:
  assumes o: "json_objects L" and t: "task_typed L t" and st: "task_step L now secs t sv = Some (sv', t', out)"
  shows "task_typed L t'"
proof (cases t)
  case (Record req r ts)
  then show ?thesis
    using st typed_messages [OF o]
    by (cases ts) (auto simp: task_typed_def place_broadcasts_def list_all_iff)
next
  case (Reply d bs)
  then show ?thesis using t st by (cases bs) (auto simp: task_typed_def)
qed (use st typed_messages [OF o] in
    \<open>auto simp: task_typed_def after_section_def split: option.splits if_splits outcome.splits\<close>)

definition job_typed :: "'j json_lib \<Rightarrow> 'j job \<Rightarrow> bool" where
  "job_typed L j =
     (case j of
        Sending_Book b \<Rightarrow> typed L broadcast_types b
      | Serving t \<Rightarrow> task_typed L t
      | Answering d bs \<Rightarrow> typed L direct_types d \<and> list_all (typed L broadcast_types) bs
      | Broadcasting bs \<Rightarrow> list_all (typed L broadcast_types) bs
      | Sending m js bs \<Rightarrow> text_typed L m \<and> list_all (typed L broadcast_types) bs
      | _ \<Rightarrow> True)"

lemma job_typed_simps [simp]:
  "job_typed L Ready" "job_typed L Joining" "job_typed L Reading_Book" "job_typed L (Reporting w)"
  "job_typed L Rereading" "job_typed L Leaving"
  by (simp_all add: job_typed_def)

lemma begin_request_typed: "json_objects L \<Longrightarrow> begin_request L m = Some j \<Longrightarrow> job_typed L j"
  using typed_messages
  by (auto simp: begin_request_def answer_error_def job_typed_def task_typed_def task_of_def
      split: sum.splits cpp_exception.splits request.splits)

subsection \<open>What was sent\<close>

definition hub_typed :: "'j json_lib \<Rightarrow> hub \<Rightarrow> bool" where
  "hub_typed L h \<longleftrightarrow> (\<forall>i s. sessions h i = Some s \<longrightarrow> list_all (text_typed L) (sent s))"

lemma hub_typed_send: "hub_typed L h \<Longrightarrow> text_typed L m \<Longrightarrow> hub_typed L (send_to i m h)"
  by (auto simp: hub_typed_def send_to_def set_session_def send_def split: option.splits)

lemma hub_typed_set:
  "hub_typed L h \<Longrightarrow> list_all (text_typed L) (sent s) \<Longrightarrow> hub_typed L (set_session i s h)"
  by (simp add: hub_typed_def set_session_def)

lemma hub_typed_fields [simp]:
  "hub_typed L (h\<lparr>clients := c\<rparr>) = hub_typed L h" "hub_typed L (h\<lparr>srv := sv\<rparr>) = hub_typed L h"
  by (simp_all add: hub_typed_def)

lemma hub_typed_read: "hub_typed L h \<Longrightarrow> start_read i h = Some h' \<Longrightarrow> hub_typed L h'"
  by (auto simp: hub_typed_def start_read_def doRead_def set_session_def split: option.splits if_splits)

lemma job_step_typed:
  assumes o: "json_objects L" and j: "job_typed L j" and h: "hub_typed L h"
    and st: "job_step L now secs i ts j h = Some (j', h', out)"
  shows "job_typed L j' \<and> hub_typed L h' \<and> (json_dumps L \<longrightarrow> list_all (typed L broadcast_types) out)"
proof (cases "\<exists>t. j = Serving t \<and> (\<nexists>d bs. t = Reply d bs)")
  case True
  then obtain t where t: "j = Serving t" "\<nexists>d bs. t = Reply d bs" by blast
  then obtain sv' t' where t': "task_step L now secs t (srv h) = Some (sv', t', out)"
    and "j' = Serving t'" "h' = h\<lparr>srv := sv'\<rparr>"
    using st by (auto simp: job_step_Serving split: option.splits)
  then show ?thesis
    using task_step_typed [OF o _ t'] task_step_not_Idle [OF t'] t j h
    by (simp add: job_typed_def)
next
  case False
  then show ?thesis
    using st j h typed_messages [OF o]
    by (cases "(L, now, secs, i, ts, j, h)" rule: job_step.cases)
      (auto simp: job_typed_def task_typed_def addClient_def removeClient_def simp del: append.simps
        intro: hub_typed_send hub_typed_read text_typedI text_typedI(1) [OF _ typed_messages(5) [OF o]]
        split: sum.splits if_splits option.splits)
qed

lemma onSend_sent: "onSend m s = Some s' \<Longrightarrow> sent s' = sent s"
  by (auto simp: onSend_def async_write_def Let_def split: if_splits)

lemma run_posted_sent: "run_posted s = Some s' \<Longrightarrow> sent s' = sent s"
  by (auto simp: run_posted_def dest!: onSend_sent split: list.splits)

lemma write_completed_sent: "write_completed s = Some s' \<Longrightarrow> sent s' = sent s"
  by (auto simp: write_completed_def onWrite_def async_write_def Let_def split: option.splits if_splits)

lemma begin_disconnect_typed:
  "begin_disconnect s = (s', j) \<Longrightarrow> sent s' = sent s \<and> job_typed L j"
  by (auto simp: begin_disconnect_def split: if_splits)

text \<open>A handler that starts gives its session nothing to send and holds nothing.\<close>

lemma loop_step_starts:
  fixes w w' :: "'j world"
  assumes o: "json_objects L" and ev: "event_session ev = Some k" and en: "world_enabled (Loop ev) w"
    and st: "loop_step L ev w = Some w'"
  obtains s s' j where "w' = start_job k s' j w" and "sessions (hub w) k = Some s" and "sent s' = sent s"
    and "job_typed L j"
proof -
  obtain s where s: "sessions (hub w) k = Some s"
    using en ev by (cases ev) (auto simp: world_enabled_def enabled_def event_session_def split: option.splits)
  have "\<exists>s' j. w' = start_job k s' j w \<and> sent s' = sent s \<and> job_typed L j"
  proof (cases ev)
    case (Connect ec)
    then show ?thesis using ev by (simp add: event_session_def)
  next
    case (Handshake i ec)
    have "w' = start_job k (s\<lparr>handshaking := False\<rparr>) (if ec then Ready else Joining) w"
      using st ev s by (simp add: Handshake event_session_def loop_step_def Let_def)
    then show ?thesis by (intro exI conjI) (assumption, simp_all)
  next
    case (Message_Read i ec m)
    then show ?thesis
      using st ev s begin_request_typed [OF o, of m] begin_disconnect_typed [of "s\<lparr>reading := False\<rparr>"]
      by (fastforce simp: event_session_def loop_step_def Let_def split: if_splits prod.splits option.splits)
  next
    case (Posted i)
    then show ?thesis
      using st ev s run_posted_sent [of s] job_typed_simps(1)
      by (fastforce simp: event_session_def loop_step_def split: option.splits)
  next
    case (Write_Done i ec)
    then show ?thesis
      using st ev s write_completed_sent [of s] job_typed_simps(1) begin_disconnect_typed [of "s\<lparr>inflight := None\<rparr>"]
      by (fastforce simp: event_session_def loop_step_def Let_def split: option.splits if_splits prod.splits)
  qed
  then show thesis using that s by blast
qed

definition world_typed :: "'j json_lib \<Rightarrow> 'j world \<Rightarrow> bool" where
  "world_typed L w \<longleftrightarrow>
     (\<forall>i. job_typed L (jobs w i)) \<and> hub_typed L (hub w) \<and> list_all (typed L broadcast_types) (announced w)"

lemma world_step_typed:
  assumes o: "json_objects L" and dumps: "json_dumps L" and w: "world_typed L w"
    and en: "world_enabled e w" and st: "world_step L now secs e w = Some w'"
  shows "world_typed L w'"
proof (cases e)
  case (Job_Step i ts)
  then obtain j h out where st': "job_step L now secs i ts (jobs w i) (hub w) = Some (j, h, out)"
    and w': "w' = w\<lparr>hub := h, jobs := (jobs w)(i := j), announced := announced w @ out\<rparr>"
    using st by (auto simp: world_step_def split: option.splits)
  have "job_typed L j \<and> hub_typed L h \<and> list_all (typed L broadcast_types) out"
    using job_step_typed [OF o _ _ st'] w dumps by (simp add: world_typed_def)
  then show ?thesis using w by (simp add: world_typed_def w')
next
  case Stop
  then show ?thesis using st w by (auto simp: world_step_def server_stop_def world_typed_def)
next
  case (Loop ev)
  then have ls: "loop_step L ev w = Some w'" and en': "world_enabled (Loop ev) w"
    using st en by (simp_all add: world_step_def)
  show ?thesis
  proof (cases "event_session ev")
    case None
    then obtain ec where w': "w' = w\<lparr>hub := doAccept ec (hub w)\<rparr>"
      using ls by (cases ev) (auto simp: event_session_def loop_step_def)
    have "list_all (text_typed L) (sent (run_session new_session))" by (simp add: run_session_def new_session_def)
    then have "hub_typed L (doAccept ec (hub w))" using w by (auto simp: doAccept_def hub_typed_def world_typed_def)
    then show ?thesis using w by (simp add: world_typed_def w')
  next
    case (Some k)
    obtain s s' j where w': "w' = start_job k s' j w" "sessions (hub w) k = Some s" "sent s' = sent s" "job_typed L j"
      by (rule loop_step_starts [OF o Some en' ls])
    have "list_all (text_typed L) (sent s')" using w w'(2,3) by (simp add: world_typed_def hub_typed_def)
    then have "hub_typed L (set_session k s' (hub w))" using w by (intro hub_typed_set) (simp_all add: world_typed_def)
    then show ?thesis using w w'(4) by (simp add: world_typed_def w'(1) start_job_def)
  qed
qed

lemma world_reachable_typed:
  assumes "json_objects L" and "json_dumps L" and "world_reachable L w"
  shows "world_typed L w"
  using assms(3)
proof (induction rule: world_reachable.induct)
  case world_init
  show ?case by (simp add: world_typed_def initial_world_def initial_hub_def hub_typed_def)
next
  case world_next
  then show ?case using world_step_typed [OF assms(1,2)] by blast
qed

section \<open>The properties\<close>

text \<open>
  C23: every message a client is sent is well typed. In every reachable world, whatever handlers are
  running, each text that \<open>send\<close> was called with for a session is the dump of a JSON message whose
  \<open>type\<close> is one of the eight the server has; and what was broadcast is a trade, an order status or
  an order book, never the direct answer to one client. The types of the last two are
  \<open>ORDER_STATUS\<close> and \<open>ORDER_BOOK_UPDATE\<close>, which the protocol document calls \<open>ORDER_UPDATE\<close> and
  \<open>ORDER_BOOK\<close>.
\<close>

theorem messages_well_typed:
  assumes "json_objects L" and "json_dumps L" and "world_reachable L w"
  shows "(\<forall>i s m. sessions (hub w) i = Some s \<longrightarrow> m \<in> set (sent s) \<longrightarrow>
      (\<exists>j t. js_dump L j = Inr m \<and> getMessageType L j = Inr t \<and>
        t \<in> {''ORDER_ACCEPTED'', ''ORDER_REJECTED'', ''ORDER_CANCELLED'', ''METRICS'', ''ERROR'',
             ''TRADE'', ''ORDER_STATUS'', ''ORDER_BOOK_UPDATE''})) \<and>
    (\<forall>b\<in>set (announced w). \<exists>t. getMessageType L b = Inr t \<and>
      t \<in> {''TRADE'', ''ORDER_STATUS'', ''ORDER_BOOK_UPDATE''})"
proof (intro conjI allI impI ballI)
  note w = world_reachable_typed [OF assms]
  fix i s m
  assume "sessions (hub w) i = Some s" "m \<in> set (sent s)"
  then have "text_typed L m" using w by (auto simp: world_typed_def hub_typed_def list_all_iff)
  then obtain j t where "js_dump L j = Inr m" "getMessageType L j = Inr t" "t \<in> set (direct_types @ broadcast_types)"
    unfolding text_typed_def typed_iff by blast
  then show "\<exists>j t. js_dump L j = Inr m \<and> getMessageType L j = Inr t \<and>
      t \<in> {''ORDER_ACCEPTED'', ''ORDER_REJECTED'', ''ORDER_CANCELLED'', ''METRICS'', ''ERROR'',
           ''TRADE'', ''ORDER_STATUS'', ''ORDER_BOOK_UPDATE''}"
    by (intro exI [of _ j] exI [of _ t]) (simp add: direct_types_def broadcast_types_def)
next
  note w = world_reachable_typed [OF assms]
  fix b
  assume "b \<in> set (announced w)"
  then have "typed L broadcast_types b" using w by (auto simp: world_typed_def list_all_iff)
  then show "\<exists>t. getMessageType L b = Inr t \<and> t \<in> {''TRADE'', ''ORDER_STATUS'', ''ORDER_BOOK_UPDATE''}"
    by (auto simp: typed_def broadcast_types_def split: sum.splits)
qed

theorem messages_well_typed_witness:
  "\<exists>j t. js_dump sample_json j = Inr (text_of sample_json (getOrderBookMessage sample_json initial_server)) \<and>
    getMessageType sample_json j = Inr t"
proof -
  let ?m = "text_of sample_json (getOrderBookMessage sample_json initial_server)"
  obtain out where w: "world_reachable sample_json (at_rest hub_one out)"
    using hub_reachable_at_rest [OF sample_json_getters sample_json_dumps hub_one_reachable] by blast
  have "sessions (hub (at_rest hub_one out)) 0 = Some (connected_session ?m)" "?m \<in> set (sent (connected_session ?m))"
    by (simp_all add: hub_one_def connected_session_def)
  then show ?thesis
    using messages_well_typed [OF sample_json_objects sample_json_dumps w] by blast
qed

end
