(* ===== verification/Concurrent_Delivery.thy ===== *)
theory Concurrent_Delivery
  imports Concurrent_Types
begin

text \<open>
  The delivery of what was sent: the write queue of a session empties when its posted handlers run
  and its writes complete, whatever the other sessions do meanwhile.
\<close>

definition delivery_step :: "'j json_lib \<Rightarrow> nat \<Rightarrow> 'j world \<Rightarrow> 'j world \<Rightarrow> bool" where
  "delivery_step L i w w' \<longleftrightarrow>
     (\<exists>ev\<in>{Posted i, Write_Done i False}. world_enabled (Loop ev) w \<and> loop_step L ev w = Some w')"

text \<open>How many of these steps are left.\<close>

definition undelivered :: "session \<Rightarrow> nat" where
  "undelivered s = 2 * length (posted s) + length (writeQueue s)"

lemma run_posted_open:
  assumes "run_posted s = Some s'" and "\<not> closed s"
  shows "undelivered s = Suc (undelivered s')" and "closed s' = closed s" and "handshaking s' = handshaking s"
  using assms
  by (auto simp: run_posted_def onSend_def async_write_def Let_def undelivered_def split: list.splits if_splits)

lemma write_completed_open:
  assumes "write_completed s = Some s'" and "\<not> closed s"
  shows "undelivered s = Suc (undelivered s')" and "closed s' = closed s" and "handshaking s' = handshaking s"
  using assms
  by (auto simp: write_completed_def onWrite_def async_write_def Let_def undelivered_def neq_Nil_conv
      split: option.splits if_splits)

text \<open>While something is left, one of the two completions can be handled.\<close>

lemma delivery_goes_on:
  assumes dumps: "json_dumps L" and w: "world_reachable L w" "\<not> stopped w" "jobs w i = Ready"
    and s: "sessions (hub w) i = Some s" "\<not> closed s" "undelivered s \<noteq> 0"
  obtains s' where "delivery_step L i w (start_job i s' Ready w)" and "undelivered s = Suc (undelivered s')"
    and "sent s' = sent s" and "\<not> closed s'"
proof -
  have "strands w" by (rule world_simulated [OF dumps w(1)])
  then have inv: "session_inv s" using strandsD(2) s(1) session_ok_inv unfolding strands_def by blast
  show thesis
  proof (cases "posted s = []")
    case False
    then obtain s' where s': "run_posted s = Some s'" using run_posted_ok [OF inv] by metis
    have "world_enabled (Loop (Posted i)) w"
      using False w s by (simp add: world_enabled_def enabled_def event_session_def)
    moreover have "loop_step L (Posted i) w = Some (start_job i s' Ready w)"
      by (simp add: loop_step_def s(1) s')
    ultimately have "delivery_step L i w (start_job i s' Ready w)" unfolding delivery_step_def by blast
    then show thesis
      using that run_posted_open [OF s' s(2)] run_posted_sent [OF s'] s(2) by simp
  next
    case True
    then have "inflight s \<noteq> None" using s(2,3) inv by (auto simp: undelivered_def session_inv_def)
    then obtain s' where s': "write_completed s = Some s'" using write_completed_ok [OF inv] by metis
    have "world_enabled (Loop (Write_Done i False)) w"
      using \<open>inflight s \<noteq> None\<close> w s by (simp add: world_enabled_def enabled_def event_session_def)
    moreover have "loop_step L (Write_Done i False) w = Some (start_job i s' Ready w)"
      by (simp add: loop_step_def s(1) s')
    ultimately have "delivery_step L i w (start_job i s' Ready w)" unfolding delivery_step_def by blast
    then show thesis
      using that write_completed_open [OF s' s(2)] write_completed_sent [OF s'] s(2) by simp
  qed
qed

lemma delivery_reachable:
  assumes "delivery_step L i w w'" and "world_reachable L w"
  shows "world_reachable L w'"
proof -
  obtain ev where "world_enabled (Loop ev) w" "loop_step L ev w = Some w'"
    using assms(1) by (auto simp: delivery_step_def)
  then show ?thesis
    by (intro world_next [OF assms(2), of "Loop ev" 0 double_zero]) (simp_all add: world_step_def)
qed

lemma delivered:
  assumes dumps: "json_dumps L"
  shows "world_reachable L w \<Longrightarrow> \<not> stopped w \<Longrightarrow> jobs w i = Ready \<Longrightarrow> sessions (hub w) i = Some s \<Longrightarrow>
    \<not> closed s \<Longrightarrow> \<exists>s'. (delivery_step L i ^^ undelivered s) w (start_job i s' Ready w) \<and>
      world_reachable L (start_job i s' Ready w) \<and> sent s' = sent s \<and> wire s' = sent s \<and> \<not> closed s'"
proof (induction "undelivered s" arbitrary: w s)
  case 0
  have "strands w" by (rule world_simulated [OF dumps 0(2)])
  then have inv: "session_inv s" using strandsD(2) 0(5) session_ok_inv unfolding strands_def by blast
  have "wire s = sent s" using inv 0(1,6) by (simp add: session_inv_def undelivered_def)
  moreover have "start_job i s Ready w = w"
    using 0(4,5) by (cases w; cases "hub w") (auto simp: start_job_def set_session_def fun_upd_idem)
  ultimately show ?case using 0 by (intro exI [of _ s]) simp
next
  case (Suc n)
  obtain s1 where s1: "delivery_step L i w (start_job i s1 Ready w)" "undelivered s = Suc (undelivered s1)"
      "sent s1 = sent s" "\<not> closed s1"
    by (rule delivery_goes_on [OF dumps Suc(3-7)]) (use Suc(2) in simp)
  let ?w = "start_job i s1 Ready w"
  have "world_reachable L ?w" by (rule delivery_reachable [OF s1(1) Suc(3)])
  then obtain s' where s': "(delivery_step L i ^^ undelivered s1) ?w (start_job i s' Ready ?w)"
      "world_reachable L (start_job i s' Ready ?w)" "sent s' = sent s1" "wire s' = sent s1" "\<not> closed s'"
    using Suc(1) [of s1 ?w] Suc(2,4) s1 by (auto simp: start_job_def)
  have same: "start_job i s' Ready ?w = start_job i s' Ready w"
    by (simp add: start_job_def set_session_def)
  have "(delivery_step L i ^^ undelivered s) w (start_job i s' Ready w)"
    unfolding s1(2) using relpowp_Suc_I2 [of "delivery_step L i", OF s1(1)] s'(1) same by simp
  then show ?case using s' s1(3) same by (intro exI [of _ s']) simp
qed

section \<open>The property\<close>

text \<open>
  C12: everything that was sent can be written. In every reachable world that was not stopped, an open
  session whose handler is not running has enough completions to come, two for each message that
  is only posted and one for each that is queued, for the client to have been written exactly what
  was sent to it, without a message waiting for one that is not coming: the write queue never
  stalls.
\<close>

theorem everything_sent_can_be_written:
  assumes "json_dumps L" and "world_reachable L w" and "\<not> stopped w" and "jobs w i = Ready"
    and "sessions (hub w) i = Some s" and "\<not> closed s"
  shows "\<exists>w' s'. (delivery_step L i ^^ (2 * length (posted s) + length (writeQueue s))) w w' \<and>
    world_reachable L w' \<and> sessions (hub w') i = Some s' \<and> wire s' = sent s \<and> sent s' = sent s \<and>
    \<not> closed s'"
proof -
  obtain s' where s': "(delivery_step L i ^^ undelivered s) w (start_job i s' Ready w)"
    "world_reachable L (start_job i s' Ready w)" "sent s' = sent s" "wire s' = sent s" "\<not> closed s'"
    using delivered [OF assms] by blast
  have "sessions (hub (start_job i s' Ready w)) i = Some s'" by simp
  with s' show ?thesis unfolding undelivered_def by blast
qed

theorem everything_sent_can_be_written_witness:
  "\<exists>w s. world_reachable sample_json w \<and> sessions (hub w) 0 = Some s \<and> wire s = sent s \<and> sent s \<noteq> []"
proof -
  let ?m = "text_of sample_json (getOrderBookMessage sample_json initial_server)"
  obtain out where w: "world_reachable sample_json (at_rest hub_one out)"
    using hub_reachable_at_rest [OF sample_json_getters sample_json_dumps hub_one_reachable] by blast
  have s: "sessions (hub (at_rest hub_one out)) 0 = Some (connected_session ?m)" by (simp add: hub_one_def)
  have "\<not> closed (connected_session ?m)" "sent (connected_session ?m) = [?m]"
    by (simp_all add: connected_session_def)
  then show ?thesis
    using everything_sent_can_be_written [OF sample_json_dumps w at_rest_simps(3) at_rest_simps(2) s] by fastforce
qed

end
