(* ===== verification/Server_Main.thy ===== *)
theory Server_Main
  imports Prelude
begin

text \<open>
  The command line of \<open>main\<close> (\<open>server/main.cpp\<close>): the port is \<open>argv[1]\<close> as read by \<open>std::stoi\<close>, or
  8080 without an argument. \<open>std::stoi\<close> skips white space, takes an optional sign and the longest
  sequence of digits after it, ignores what follows, and throws \<open>std::invalid_argument\<close> when there
  is no digit and \<open>std::out_of_range\<close> when the number is no \<open>int\<close>. A character is its code.
\<close>

subsection \<open>std::stoi\<close>

datatype stoi_error = Invalid_Argument | Out_Of_Range

definition is_space :: "char \<Rightarrow> bool" where
  "is_space c \<longleftrightarrow> of_char c = (32::nat) \<or> 9 \<le> (of_char c :: nat) \<and> of_char c \<le> (13::nat)"

definition is_digit :: "char \<Rightarrow> bool" where
  "is_digit c \<longleftrightarrow> 48 \<le> (of_char c :: nat) \<and> of_char c \<le> (57::nat)"

definition digits_value :: "string \<Rightarrow> int" where
  "digits_value ds = foldl (\<lambda>v c. 10 * v + (int (of_char c) - 48)) 0 ds"

definition read_sign :: "string \<Rightarrow> bool \<times> string" where
  "read_sign s =
     (case s of
        c # cs \<Rightarrow> if c = CHR ''-'' then (True, cs) else if c = CHR ''+'' then (False, cs) else (False, s)
      | [] \<Rightarrow> (False, []))"

definition stoi :: "string \<Rightarrow> stoi_error + int" where
  "stoi s =
     (let (neg, u) = read_sign (dropWhile is_space s);
          ds = takeWhile is_digit u;
          v = (if neg then - digits_value ds else digits_value ds)
      in if ds = [] then Inl Invalid_Argument
         else if v < - (2 ^ 31) \<or> 2 ^ 31 \<le> v then Inl Out_Of_Range
         else Inr v)"

subsection \<open>The port\<close>

text \<open>The result of the block at the start of \<open>main\<close>: the port, or \<open>None\<close> for \<open>return 1\<close>.\<close>

definition parse_port :: "string \<Rightarrow> 16 word option" where
  "parse_port arg =
     (case stoi arg of
        Inl e \<Rightarrow> None
      | Inr p \<Rightarrow> if 0 < p \<and> p \<le> 65535 then Some (word_of_int p) else None)"

definition server_port :: "string list \<Rightarrow> 16 word option" where
  "server_port argv = (if 2 \<le> length argv then parse_port (argv ! 1) else Some 8080)"

text \<open>
  What \<open>main\<close> returns. \<open>opens p\<close> is whether the constructor of \<open>Server\<close> gets the port without an
  exception, \<open>runs p\<close> whether \<open>run\<close> then returns without one; both exceptions are caught.
\<close>

definition main_exit :: "(16 word \<Rightarrow> bool) \<Rightarrow> (16 word \<Rightarrow> bool) \<Rightarrow> string list \<Rightarrow> int" where
  "main_exit opens runs argv =
     (case server_port argv of
        None \<Rightarrow> 1
      | Some p \<Rightarrow> if opens p \<and> runs p then 0 else 1)"

subsection \<open>What is accepted\<close>

lemma digit_not_space: "is_digit c \<Longrightarrow> \<not> is_space c"
  by (auto simp: is_digit_def is_space_def)

lemma digit_not_sign: "is_digit c \<Longrightarrow> c \<noteq> CHR ''-'' \<and> c \<noteq> CHR ''+''"
  by (auto simp: is_digit_def)

lemma sign_not_space: "\<not> is_space (CHR ''-'')" "\<not> is_space (CHR ''+'')"
  by (simp_all add: is_space_def)

lemma digits_value_snoc: "digits_value (ds @ [c]) = 10 * digits_value ds + (int (of_char c) - 48)"
  by (simp add: digits_value_def)

lemma digits_value_nonneg: "list_all is_digit ds \<Longrightarrow> 0 \<le> digits_value ds"
proof (induction ds rule: rev_induct)
  case (snoc c ds)
  have "(48::nat) \<le> of_char c" using snoc.prems by (simp add: is_digit_def)
  then have "(48::int) \<le> int (of_char c)" by linarith
  then show ?case using snoc by (simp add: digits_value_snoc)
qed (simp add: digits_value_def)

text \<open>An argument as \<open>std::stoi\<close> splits it.\<close>

definition reads_as :: "string \<Rightarrow> bool \<Rightarrow> string \<Rightarrow> bool" where
  "reads_as arg neg ds \<longleftrightarrow>
     (\<exists>ws sign rest. arg = ws @ sign @ ds @ rest \<and> list_all is_space ws \<and>
        (if neg then sign = ''-'' else sign \<in> {'''', ''+''}) \<and>
        list_all is_digit ds \<and> ds \<noteq> [] \<and> (rest = [] \<or> \<not> is_digit (hd rest)))"

definition number :: "bool \<Rightarrow> string \<Rightarrow> int" where
  "number neg ds = (if neg then - digits_value ds else digits_value ds)"

lemma stoi_reads:
  assumes "reads_as arg neg ds"
  shows "stoi arg = (if number neg ds < - (2 ^ 31) \<or> 2 ^ 31 \<le> number neg ds then Inl Out_Of_Range
    else Inr (number neg ds))"
proof -
  obtain ws sign rest where arg: "arg = ws @ sign @ ds @ rest" and ws: "list_all is_space ws"
    and sign: "if neg then sign = ''-'' else sign \<in> {'''', ''+''}"
    and ds: "list_all is_digit ds" "ds \<noteq> []" and rest: "rest = [] \<or> \<not> is_digit (hd rest)"
    using assms by (auto simp: reads_as_def)
  obtain c cs where c: "ds = c # cs" "is_digit c" using ds by (cases ds) auto
  have "\<not> is_space (hd (sign @ ds @ rest))" "sign @ ds @ rest \<noteq> []"
    using sign c sign_not_space digit_not_space by (auto split: if_splits)
  then have drop: "dropWhile is_space arg = sign @ ds @ rest"
    unfolding arg using ws dropWhile_append2 [of ws is_space "sign @ ds @ rest"]
    by (simp add: list_all_iff dropWhile_eq_self_iff del: dropWhile_append2)
  have read: "read_sign (sign @ ds @ rest) = (neg, ds @ rest)"
    using sign digit_not_sign [OF c(2)] by (auto simp: read_sign_def c(1) split: if_splits)
  have take: "takeWhile is_digit (ds @ rest) = ds"
    using ds rest by (cases rest) (auto simp: list_all_iff takeWhile_append)
  show ?thesis
    by (simp add: stoi_def drop read take ds(2) number_def)
qed

lemma stoi_reads_as:
  assumes "stoi arg \<noteq> Inl Invalid_Argument"
  shows "\<exists>neg ds. reads_as arg neg ds"
proof -
  define s where "s = dropWhile is_space arg"
  obtain neg u where u: "read_sign s = (neg, u)" by fastforce
  define ds where "ds = takeWhile is_digit u"
  have ne: "ds \<noteq> []" using assms by (auto simp: stoi_def u ds_def s_def [symmetric])
  obtain sign where s: "s = sign @ u" and sign: "if neg then sign = ''-'' else sign \<in> {'''', ''+''}"
    using u by (auto simp: read_sign_def split: list.splits if_splits)
  have "arg = takeWhile is_space arg @ sign @ ds @ dropWhile is_digit u"
    unfolding ds_def by (simp add: s [symmetric] s_def)
  moreover have "list_all is_space (takeWhile is_space arg)" "list_all is_digit ds"
    unfolding ds_def by (auto simp: list_all_iff dest: set_takeWhileD)
  moreover have "dropWhile is_digit u = [] \<or> \<not> is_digit (hd (dropWhile is_digit u))"
    using hd_dropWhile by blast
  ultimately show ?thesis using sign ne unfolding reads_as_def by blast
qed

lemma parse_port_Some:
  "parse_port arg = Some p \<longleftrightarrow>
     (\<exists>ds. reads_as arg False ds \<and> 0 < digits_value ds \<and> digits_value ds \<le> 65535 \<and> uint p = digits_value ds)"
  (is "?l \<longleftrightarrow> ?r")
proof
  assume l: ?l
  then obtain neg ds where r: "reads_as arg neg ds"
    using stoi_reads_as [of arg] by (fastforce simp: parse_port_def split: sum.splits)
  have "list_all is_digit ds" using r by (auto simp: reads_as_def)
  then have nn: "0 \<le> digits_value ds" by (rule digits_value_nonneg)
  show ?r
    using l nn stoi_reads [OF r] r
    by (cases neg) (auto simp: parse_port_def number_def uint_word_of_int split: if_splits intro!: exI [of _ ds])
next
  assume ?r
  then obtain ds where r: "reads_as arg False ds" and v: "0 < digits_value ds" "digits_value ds \<le> 65535"
    and p: "uint p = digits_value ds" by blast
  have "word_of_int (digits_value ds) = p" by (simp add: p [symmetric])
  then show ?l using stoi_reads [OF r] v by (simp add: parse_port_def number_def)
qed

subsection \<open>A printed number is read back\<close>

lemma digits_is_digit: "list_all is_digit (digits n)"
proof (induction n rule: digits.induct)
  case (1 n)
  have d: "is_digit (char_of (48 + m))" if "m < 10" for m :: nat
    using that by (simp add: is_digit_def of_char_mod_256)
  show ?case
    using 1 d by (subst digits.simps) simp
qed

lemma digits_nonempty: "digits n \<noteq> []"
  by (subst digits.simps) simp

lemma digits_value_digits: "digits_value (digits n) = int n"
proof (induction n rule: digits.induct)
  case (1 n)
  have d: "int (of_char (char_of (48 + m) :: char)) - 48 = int m" if "m < 10" for m :: nat
    using that by simp
  show ?case
  proof (cases "n < 10")
    case True
    then show ?thesis using d by (subst digits.simps) (simp add: digits_value_def)
  next
    case False
    have "digits_value (digits n) = 10 * int (n div 10) + int (n mod 10)"
      using 1 False d [of "n mod 10"] by (subst digits.simps) (simp add: digits_value_snoc)
    then show ?thesis by (simp add: zdiv_int zmod_int)
  qed
qed

lemma reads_digits:
  assumes "rest = [] \<or> \<not> is_digit (hd rest)"
  shows "reads_as (digits n @ rest) False (digits n)"
  unfolding reads_as_def using assms digits_is_digit digits_nonempty
  by (intro exI [of _ "[]"] exI [of _ rest]) simp

subsection \<open>The properties\<close>

lemma port_of_digits:
  assumes "0 < n" and "n \<le> 65535" and "rest = [] \<or> \<not> is_digit (hd rest)"
  shows "\<exists>p. server_port [prog, digits n @ rest] = Some p \<and> unat p = n"
proof (intro exI conjI)
  have "uint (of_nat n :: 16 word) = int n" "unat (of_nat n :: 16 word) = n"
    using assms(2) by (simp_all add: unsigned_of_nat take_bit_nat_eq_self_iff take_bit_int_eq_self_iff)
  then show "server_port [prog, digits n @ rest] = Some (of_nat n)" "unat (of_nat n :: 16 word) = n"
    using assms reads_digits [OF assms(3), of n]
    by (auto simp: server_port_def parse_port_Some digits_value_digits intro!: exI [of _ "digits n"])
qed

text \<open>
  C39: which arguments start the server, and on which port. Without an argument it is 8080. The first
  argument is accepted exactly if, after white space and an optional \<open>+\<close>, it starts with digits
  whose longest run has a value from 1 to 65535, and that value is the port: the cast to
  \<open>uint16_t\<close> loses nothing. Every other argument (no digits, a minus sign, zero, too large, beyond
  \<open>int\<close>) ends the program with exit code 1 before a port is opened. So a port number that is printed in decimal is read back, whatever
  characters that are no digits follow it: \<open>8080abc\<close> is the port 8080.
\<close>

theorem port_argument:
  assumes "0 < n" and "n \<le> 65535" and "rest = [] \<or> \<not> is_digit (hd rest)"
  shows "server_port [prog] = Some 8080 \<and>
    (server_port (prog # arg # more) = Some p \<longleftrightarrow>
      (\<exists>ds. reads_as arg False ds \<and> 0 < digits_value ds \<and> digits_value ds \<le> 65535 \<and> uint p = digits_value ds)) \<and>
    ((\<nexists>ds. reads_as arg False ds \<and> 0 < digits_value ds \<and> digits_value ds \<le> 65535) \<longrightarrow>
      main_exit opens runs (prog # arg # more) = 1) \<and>
    (\<exists>p. server_port [prog, digits n @ rest] = Some p \<and> unat p = n)"
  using port_of_digits [OF assms]
  by (auto simp: main_exit_def server_port_def parse_port_Some split: option.split)

theorem port_argument_witness:
  "\<exists>p. server_port [''server'', digits 9090 @ ''abc''] = Some p \<and> unat p = 9090"
  by (rule port_argument [THEN conjunct2, THEN conjunct2, THEN conjunct2]) (simp_all add: is_digit_def)

end
