(* ===== verification/IEEE_Rounding.thy ===== *)
theory IEEE_Rounding
  imports IEEE_Arith Complex_Main
begin

text \<open>
  The floating-point operations of the metrics round correctly: of all finite doubles none is
  nearer to the exact quotient, or to the exact integer, than the result. Numbers are compared as
  integers, scaled by \<open>2 ^ 1074\<close> as in \<open>IEEE_Double\<close>.
\<close>

subsection \<open>The exponent\<close>

lemma bit_length_bounds:
  assumes "0 < n"
  shows "2 ^ (bit_length n - 1) \<le> n" and "n < 2 ^ bit_length n" and "0 < bit_length n"
proof -
  have "2 ^ (bit_length n - 1) \<le> n \<and> n < 2 ^ bit_length n \<and> 0 < bit_length n"
    using assms
  proof (induction n rule: bit_length.induct)
    case (1 n)
    show ?case
    proof (cases "n div 2 = 0")
      case True
      then have "n = 1" using 1 by (cases n) auto
      then show ?thesis by (simp add: bit_length.simps)
    next
      case False
      then obtain k where k: "bit_length (n div 2) = Suc k" "2 ^ k \<le> n div 2" "n div 2 < 2 ^ Suc k"
        using 1 by (cases "bit_length (n div 2)") auto
      have "bit_length n = Suc (Suc k)" using 1 k(1) by (subst bit_length.simps) simp
      moreover have "2 * p \<le> n \<and> n < 4 * p" if "p \<le> n div 2" "n div 2 < 2 * p" for p
        using that by presburger
      ultimately show ?thesis using k(2,3) by simp
    qed
  qed
  then show "2 ^ (bit_length n - 1) \<le> n" "n < 2 ^ bit_length n" "0 < bit_length n" by blast+
qed

lemma bit_length_powi:
  assumes "0 < n"
  shows "2 powi (int (bit_length n) - 1) \<le> real n" and "real n < 2 powi int (bit_length n)"
proof -
  note b = bit_length_bounds [OF assms]
  have "int (bit_length n) - 1 = int (bit_length n - 1)" using b(3) by simp
  then show "2 powi (int (bit_length n) - 1) \<le> real n"
    using b(1) by (simp only: power_int_of_nat) (metis of_nat_le_iff of_nat_numeral of_nat_power)
  show "real n < 2 powi int (bit_length n)"
    using b(2) by (simp only: power_int_of_nat) (metis of_nat_less_iff of_nat_numeral of_nat_power)
qed

lemma scaled_ratio:
  assumes "0 < d"
  shows "real (scaled_num n e) = real n / real d * 2 powi (- e) * real (scaled_den d e)"
  using assms by (auto simp: scaled_num_def scaled_den_def power_int_def field_simps)

lemma scaled_less:
  assumes "0 < d"
  shows "real (scaled_num n e) < c * real (scaled_den d e) \<longleftrightarrow> real n / real d * 2 powi (- e) < c"
    and "c * real (scaled_den d e) \<le> real (scaled_num n e) \<longleftrightarrow> c \<le> real n / real d * 2 powi (- e)"
proof -
  have "0 < real (scaled_den d e)" using assms by (simp add: scaled_den_def)
  then show "real (scaled_num n e) < c * real (scaled_den d e) \<longleftrightarrow> real n / real d * 2 powi (- e) < c"
    "c * real (scaled_den d e) \<le> real (scaled_num n e) \<longleftrightarrow> c \<le> real n / real d * 2 powi (- e)"
    unfolding scaled_ratio [OF assms] by (simp_all only: mult_less_cancel_right_pos mult_le_cancel_right_pos)
qed


lemma ratio_bounds:
  assumes "0 < n" and "0 < d"
  defines "b \<equiv> int (bit_length n) - int (bit_length d)"
  shows "2 powi (b - 1) \<le> real n / real d" and "real n / real d < 2 powi (b + 1)"
proof -
  note n = bit_length_powi [OF assms(1)] and d = bit_length_powi [OF assms(2)]
  have pos: "0 < real d" using assms by simp
  have "2 powi (b - 1) * real d \<le> 2 powi (b - 1) * 2 powi int (bit_length d)"
    using d(2) by (intro mult_left_mono) (simp_all add: less_imp_le)
  also have "\<dots> = 2 powi (int (bit_length n) - 1)"
    by (subst power_int_add [symmetric]) (simp_all add: b_def)
  finally show "2 powi (b - 1) \<le> real n / real d" using n(1) pos by (simp add: pos_le_divide_eq)
  have "(2::real) powi int (bit_length n) = 2 powi (b + 1) * 2 powi (int (bit_length d) - 1)"
    by (subst power_int_add [symmetric]) (simp_all add: b_def)
  also have "\<dots> \<le> 2 powi (b + 1) * real d" using d(1) by (intro mult_left_mono) simp_all
  finally have "real n < 2 powi (b + 1) * real d" using n(2) by (rule less_le_trans [rotated])
  then show "real n / real d < 2 powi (b + 1)" using pos by (simp only: pos_divide_less_eq)
qed

lemma powi_shift: "b = a + int k \<Longrightarrow> (2::real) powi b = 2 ^ k * 2 powi a"
  by (simp add: power_int_add)

lemma ratio_exponent_bounds:
  assumes "0 < n" and "0 < d"
  defines "e \<equiv> ratio_exponent n d"
  shows "scaled_num n e < 2 ^ 53 * scaled_den d e"
    and "- 1074 < e \<Longrightarrow> 2 ^ 52 * scaled_den d e \<le> scaled_num n e" and "- 1074 \<le> e"
proof -
  define b where "b = int (bit_length n) - int (bit_length d)"
  define r where "r = real n / real d"
  define e0 where "e0 = (if scaled_num n b < scaled_den d b then b - 53 else b - 52)"
  have e: "e = max e0 (- 1074)" by (simp add: e_def ratio_exponent_def Let_def e0_def b_def)
  have low: "2 powi (b - 1) \<le> r" and high: "r < 2 powi (b + 1)"
    using ratio_bounds [OF assms(1,2)] by (simp_all add: b_def r_def)
  have test: "scaled_num n b < scaled_den d b \<longleftrightarrow> r * 2 powi (- b) < 1"
    using scaled_less(1) [OF assms(2), of n b 1] by (simp add: r_def)
  have shift: "x \<le> r * 2 powi (- k) \<longleftrightarrow> x * 2 powi k \<le> r" "r * 2 powi (- k) < x \<longleftrightarrow> r < x * 2 powi k" for x k
    by (simp_all add: power_int_minus field_simps)
  have e0: "r * 2 powi (- e0) < 2 ^ 53 \<and> 2 ^ 52 \<le> r * 2 powi (- e0)"
  proof (cases "scaled_num n b < scaled_den d b")
    case True
    then have "r < 2 powi b" using test shift(2) [of b 1] by simp
    moreover have "2 powi b = 2 ^ 53 * (2::real) powi (b - 53)" "2 powi (b - 1) = 2 ^ 52 * (2::real) powi (b - 53)"
      by (rule powi_shift, simp)+
    ultimately show ?thesis using True low unfolding shift by (simp add: e0_def)
  next
    case False
    then have "2 powi b \<le> r" using test shift(2) [of b 1] by simp
    moreover have "2 powi b = 2 ^ 52 * (2::real) powi (b - 52)" "2 powi (b + 1) = 2 ^ 53 * (2::real) powi (b - 52)"
      by (rule powi_shift, simp)+
    ultimately show ?thesis using False high unfolding shift by (simp add: e0_def)
  qed
  have rpos: "0 \<le> r" by (simp add: r_def)
  have "2 powi (- e) \<le> (2::real) powi (- e0)" by (rule power_int_increasing) (simp_all add: e)
  then have "r * 2 powi (- e) \<le> r * 2 powi (- e0)" using rpos by (rule mult_left_mono)
  then have "r * 2 powi (- e) < 2 ^ 53" using e0 by simp
  then have "real (scaled_num n e) < 2 ^ 53 * real (scaled_den d e)"
    using scaled_less(1) [OF assms(2), of n e "2 ^ 53"] by (simp add: r_def)
  then show "scaled_num n e < 2 ^ 53 * scaled_den d e"
    by (simp only: of_nat_less_iff [where 'a = real, symmetric] of_nat_mult of_nat_power of_nat_numeral)
  show "2 ^ 52 * scaled_den d e \<le> scaled_num n e" if "- 1074 < e"
  proof -
    have "e = e0" using that by (simp add: e)
    then have "2 ^ 52 * real (scaled_den d e) \<le> real (scaled_num n e)"
      using e0 scaled_less(2) [OF assms(2), of "2 ^ 52" e n] by (simp add: r_def)
    then show ?thesis
      by (simp only: of_nat_le_iff [where 'a = real, symmetric] of_nat_mult of_nat_power of_nat_numeral)
  qed
  show "- 1074 \<le> e" by (simp add: e)
qed

subsection \<open>Rounding to an integer\<close>

lemma nearer:
  fixes d :: int
  shows "d \<le> \<bar>K - Q\<bar> \<Longrightarrow> 2 * \<bar>Q - n\<bar> \<le> d \<Longrightarrow> \<bar>Q - n\<bar> \<le> \<bar>K - n\<bar>"
    and "Q + d \<le> C \<Longrightarrow> C \<le> n \<Longrightarrow> 2 * \<bar>Q - n\<bar> \<le> d \<Longrightarrow> d \<le> 0"
    and "C + d \<le> Q \<Longrightarrow> n \<le> C \<Longrightarrow> 2 * \<bar>Q - n\<bar> \<le> d \<Longrightarrow> d \<le> 0"
proof -
  have t: "\<bar>K - Q\<bar> \<le> \<bar>K - n\<bar> + \<bar>Q - n\<bar>" using abs_triangle_ineq4 [of "K - n" "Q - n"] by simp
  have x: "y \<le> z" if "d \<le> a" "2 * y \<le> d" "a \<le> z + y" for a y z :: int using that by simp
  show "\<bar>Q - n\<bar> \<le> \<bar>K - n\<bar>" if "d \<le> \<bar>K - Q\<bar>" "2 * \<bar>Q - n\<bar> \<le> d" by (rule x [OF that t])
  have a: "n - Q \<le> \<bar>Q - n\<bar>" "Q - n \<le> \<bar>Q - n\<bar>" using abs_ge_self [of "Q - n"] abs_ge_minus_self [of "Q - n"] by simp_all
  have y: "d \<le> 0" if "m + d \<le> k" "2 * y \<le> d" "k - m \<le> y" for m k y :: int using that by simp
  show "d \<le> 0" if "Q + d \<le> C" "C \<le> n" "2 * \<bar>Q - n\<bar> \<le> d" by (rule y [OF _ that(3) a(1)]) (use that in simp)
  show "d \<le> 0" if "C + d \<le> Q" "n \<le> C" "2 * \<bar>Q - n\<bar> \<le> d" by (rule y [OF _ that(3) a(2)]) (use that in simp)
qed

lemma round_half_even_nearest:
  fixes n d :: nat
  assumes "0 < d"
  defines "q \<equiv> round_half_even n d"
  shows "2 * \<bar>int q * int d - int n\<bar> \<le> int d"
    and "\<bar>int q * int d - int n\<bar> \<le> \<bar>k * int d - int n\<bar>"
proof -
  have n: "int n = int (n div d) * int d + int (n mod d)"
    by (metis div_mult_mod_eq of_nat_add of_nat_mult)
  have r: "int (n mod d) < int d" "0 \<le> int (n mod d)" using assms by simp_all
  have q: "q = n div d \<and> 2 * int (n mod d) \<le> int d \<or> q = n div d + 1 \<and> int d \<le> 2 * int (n mod d)"
    by (auto simp: q_def round_half_even_def Let_def)
  then show half: "2 * \<bar>int q * int d - int n\<bar> \<le> int d"
    using n r by (auto simp: algebra_simps)
  show "\<bar>int q * int d - int n\<bar> \<le> \<bar>k * int d - int n\<bar>"
  proof (cases "k = int q")
    case False
    then have "1 \<le> \<bar>k - int q\<bar>" by simp
    then have "1 * int d \<le> \<bar>k - int q\<bar> * int d" by (rule mult_right_mono) simp
    then have "int d \<le> \<bar>k * int d - int q * int d\<bar>" by (simp add: abs_mult left_diff_distrib [symmetric])
    then show ?thesis using half by (rule nearer(1))
  qed simp
qed

lemma round_half_even_le:
  assumes "0 < d" and "n \<le> c * d"
  shows "round_half_even n d \<le> c"
proof (rule ccontr)
  assume "\<not> round_half_even n d \<le> c"
  then have "c * d + d \<le> round_half_even n d * d" by (metis add.commute mult_Suc mult_le_mono1 not_less_eq_eq)
  then have "int c * int d + int d \<le> int (round_half_even n d) * int d" by (metis of_nat_add of_nat_le_iff of_nat_mult)
  moreover have "int n \<le> int c * int d" using assms(2) by (metis of_nat_le_iff of_nat_mult)
  ultimately have "int d \<le> 0" using round_half_even_nearest(1) [OF assms(1), of n] by (rule nearer(3))
  then show False using assms(1) by simp
qed

lemma round_half_even_ge:
  assumes "0 < d" and "c * d \<le> n"
  shows "c \<le> round_half_even n d"
proof (rule ccontr)
  assume "\<not> c \<le> round_half_even n d"
  then have "round_half_even n d * d + d \<le> c * d" by (metis add.commute mult_Suc mult_le_mono1 not_less_eq_eq)
  then have "int (round_half_even n d) * int d + int d \<le> int c * int d" by (metis of_nat_add of_nat_le_iff of_nat_mult)
  moreover have "int c * int d \<le> int n" using assms(2) by (metis of_nat_le_iff of_nat_mult)
  ultimately have "int d \<le> 0" using round_half_even_nearest(1) [OF assms(1), of n] by (rule nearer(2))
  then show False using assms(1) by simp
qed

subsection \<open>The values of the doubles\<close>

text \<open>The number whose exponent field and fraction are put together from \<open>E\<close> and \<open>q\<close>.\<close>

lemma scaled_mag_compose:
  assumes "q \<le> 2 ^ 53" and "E = 0 \<or> 2 ^ 52 \<le> q"
  shows "scaled_mag (int (E * 2 ^ 52 + q)) = int (q * 2 ^ E)"
proof -
  consider "q < 2 ^ 52" "E = 0" | "2 ^ 52 \<le> q" "q < 2 ^ 53" | "q = 2 ^ 53" using assms by linarith
  then show ?thesis
  proof cases
    case 1
    then show ?thesis by (simp add: scaled_mag_def)
  next
    case 2
    define f where "f = q - 2 ^ 52"
    have q: "q = 2 ^ 52 + f" "f < 2 ^ 52" using 2 by (simp_all add: f_def)
    have m: "int (E * 2 ^ 52 + q) = int f + (int E + 1) * 2 ^ 52" by (simp add: q)
    have "int (E * 2 ^ 52 + q) div 2 ^ 52 = int E + 1" "int (E * 2 ^ 52 + q) mod 2 ^ 52 = int f"
      using q(2) unfolding m by (subst div_mult_self1 mod_mult_self1; simp)+
    then show ?thesis by (simp add: scaled_mag_def q)
  next
    case 3
    have m: "int (E * 2 ^ 52 + q) = (int E + 2) * 2 ^ 52" by (simp add: 3)
    have "int (E * 2 ^ 52 + q) div 2 ^ 52 = int E + 2" "int (E * 2 ^ 52 + q) mod 2 ^ 52 = 0"
      unfolding m by simp_all
    moreover have "nat (int E + 2 - 1) = Suc E" by simp
    ultimately show ?thesis by (simp add: scaled_mag_def 3)
  qed
qed

text \<open>Every other double is a multiple of the same power of two, or lies below the normal range.\<close>

lemma scaled_mag_grid:
  assumes "0 \<le> m"
  shows "(\<exists>k. scaled_mag m = k * 2 ^ E) \<or> E \<noteq> 0 \<and> scaled_mag m < 2 ^ 52 * 2 ^ E"
proof (cases "int E < m div 2 ^ 52")
  case True
  then have "nat (m div 2 ^ 52 - 1) = E + (nat (m div 2 ^ 52 - 1) - E)" by simp
  then have "scaled_mag m = (2 ^ 52 + m mod 2 ^ 52) * 2 ^ (nat (m div 2 ^ 52 - 1) - E) * 2 ^ E"
    using True by (simp add: scaled_mag_def power_add [symmetric])
  then show ?thesis by blast
next
  case False
  show ?thesis
  proof (cases "E = 0")
    case True
    then show ?thesis by simp
  next
    case nz: False
    have "(2::int) ^ nat (m div 2 ^ 52) \<le> 2 ^ E" using False by (intro power_increasing) simp_all
    then have "scaled_mag m < 2 ^ 52 * 2 ^ E" using scaled_mag_bounds(1) [OF assms]
      by (metis less_le_trans mult_left_mono zero_le_numeral zero_le_power)
    then show ?thesis using nz by simp
  qed
qed


subsection \<open>The quotient is the nearest double\<close>

lemma scaled_cross:
  assumes "- 1074 \<le> e"
  shows "n * 2 ^ 1074 * scaled_den d e = scaled_num n e * (d * 2 ^ nat (e + 1074))"
proof (cases "0 \<le> e")
  case True
  then have "nat (e + 1074) = nat e + 1074" by simp
  then show ?thesis using True by (simp add: scaled_num_def scaled_den_def power_add mult_ac del: power_numeral)
next
  case False
  then have "1074 = nat (- e) + nat (e + 1074)" using assms by simp
  then have "(2::nat) ^ 1074 = 2 ^ nat (- e) * 2 ^ nat (e + 1074)" by (metis power_add)
  then show ?thesis using False unfolding scaled_num_def scaled_den_def by (simp only: if_False mult_ac)
qed

lemma scaled_distance:
  fixes b g :: int
  assumes "b * N = a * g" and "g = d * p" and "0 < b" and "0 < g"
  shows "b * \<bar>d * (k * p) - N\<bar> = g * \<bar>k * b - a\<bar>"
proof -
  have "b * (d * (k * p) - N) = g * (k * b - a)"
    using assms(1) by (simp add: right_diff_distrib assms(2) mult_ac)
  then have "\<bar>b\<bar> * \<bar>d * (k * p) - N\<bar> = \<bar>g\<bar> * \<bar>k * b - a\<bar>" by (metis abs_mult)
  then show ?thesis using assms(3,4) by simp
qed

lemma farther: "x \<le> y \<Longrightarrow> y \<le> N \<Longrightarrow> \<bar>y - N\<bar> \<le> \<bar>x - N\<bar>" for x y N :: int
  by simp

text \<open>
  Rounding \<open>A / B\<close> to an integer gives the nearest double, when \<open>A / B\<close> is the quotient \<open>N / d\<close> in
  units of \<open>2 ^ E\<close> and either subnormals are its grid or it has its full 53 bits.
\<close>

lemma grid_nearest:
  fixes d N :: int and A B E :: nat
  assumes B: "0 < B" and d: "0 < d" and cross: "int B * N = int A * (d * 2 ^ E)"
    and norm: "E \<noteq> 0 \<Longrightarrow> 2 ^ 52 * B \<le> A" and m: "0 \<le> m"
  shows "\<bar>d * (int (round_half_even A B) * 2 ^ E) - N\<bar> \<le> \<bar>d * scaled_mag m - N\<bar>"
proof -
  let ?q = "round_half_even A B"
  have g: "0 < d * 2 ^ E" using d by simp
  have b: "0 < int B" using B by simp
  note dist = scaled_distance [OF cross refl b g]
  have near: "d * 2 ^ E * \<bar>int ?q * int B - int A\<bar> \<le> int B * \<bar>d * (k * 2 ^ E) - N\<bar>" for k
    unfolding dist by (rule mult_left_mono [OF round_half_even_nearest(2) [OF B] less_imp_le [OF g]])
  have "d * 2 ^ E * \<bar>int ?q * int B - int A\<bar> \<le> int B * \<bar>d * scaled_mag m - N\<bar>"
    using scaled_mag_grid [OF m, of E]
  proof (elim disjE conjE exE)
    fix k assume "scaled_mag m = k * 2 ^ E"
    then show ?thesis using near [of k] by simp
  next
    assume E: "E \<noteq> 0" and x: "scaled_mag m < 2 ^ 52 * 2 ^ E"
    have "2 ^ 52 * int B \<le> int A" using norm [OF E]
      by (simp only: of_nat_le_iff [where 'a = int, symmetric] of_nat_mult of_nat_power of_nat_numeral)
    then have "d * 2 ^ E * (2 ^ 52 * int B) \<le> d * 2 ^ E * int A" using g by (intro mult_left_mono) simp_all
    then have "int B * (d * (2 ^ 52 * 2 ^ E)) \<le> int B * N" unfolding cross by (simp only: mult_ac)
    then have "d * (2 ^ 52 * 2 ^ E) \<le> N" using b by (simp only: mult_le_cancel_left_pos)
    moreover have "d * scaled_mag m \<le> d * (2 ^ 52 * 2 ^ E)" using x d by (intro mult_left_mono) simp_all
    ultimately have "\<bar>d * (2 ^ 52 * 2 ^ E) - N\<bar> \<le> \<bar>d * scaled_mag m - N\<bar>" by (rule farther [rotated])
    then show ?thesis using near [of "2 ^ 52"] b by (meson mult_left_mono less_imp_le order_trans)
  qed
  then have "int B * \<bar>d * (int ?q * 2 ^ E) - N\<bar> \<le> int B * \<bar>d * scaled_mag m - N\<bar>" unfolding dist .
  then show ?thesis using b by (simp only: mult_le_cancel_left_pos)
qed

lemma round_ratio_nearest:
  assumes n: "0 < n" and d: "0 < d" and fin: "round_ratio n d < 0x7FF0000000000000" and m: "0 \<le> m"
  shows "\<bar>int d * scaled_mag (int (round_ratio n d)) - int n * 2 ^ 1074\<bar> \<le> \<bar>int d * scaled_mag m - int n * 2 ^ 1074\<bar>"
proof -
  define e where "e = ratio_exponent n d"
  define A B E where "A = scaled_num n e" and "B = scaled_den d e" and "E = nat (e + 1074)"
  define q where "q = round_half_even A B"
  have A: "A < 2 ^ 53 * B" and norm: "E \<noteq> 0 \<Longrightarrow> 2 ^ 52 * B \<le> A" and e: "- 1074 \<le> e"
    using ratio_exponent_bounds [OF n d] by (simp_all add: e_def A_def B_def E_def)
  have B: "0 < B" using d by (simp add: B_def scaled_den_def)
  have "round_ratio n d = min (E * 2 ^ 52 + q) 0x7FF0000000000000"
    using n by (simp add: round_ratio_def Let_def e_def A_def B_def E_def q_def)
  then have mag: "round_ratio n d = E * 2 ^ 52 + q" using fin by simp
  have q: "q \<le> 2 ^ 53" unfolding q_def using B A by (intro round_half_even_le) simp_all
  have zero_or: "E = 0 \<or> 2 ^ 52 \<le> q" unfolding q_def using norm round_half_even_ge [OF B] by blast
  have R: "scaled_mag (int (round_ratio n d)) = int q * 2 ^ E"
    unfolding mag scaled_mag_compose [OF q zero_or] by (simp only: of_nat_mult of_nat_power of_nat_numeral)
  have cross: "int B * (int n * 2 ^ 1074) = int A * (int d * 2 ^ E)"
    using arg_cong [where f = int, OF scaled_cross [OF e, of n d]] unfolding A_def B_def E_def
    by (simp only: of_nat_mult of_nat_power of_nat_numeral mult_ac)
  have "0 < int d" using d by simp
  from grid_nearest [OF B this cross norm m] show ?thesis unfolding R q_def .
qed


subsection \<open>The properties of the operations\<close>

definition sign :: "bool \<Rightarrow> int" where
  "sign neg = (if neg then - 1 else 1)"

lemma dscaled_sign: "dscaled c = sign (dneg c) * scaled_mag (dmag c)"
  by (simp add: dscaled_def sign_def)

lemma dneg_signed_double: "m < 2 ^ 63 \<Longrightarrow> dneg (signed_double neg m) = neg"
proof -
  assume m: "m < 2 ^ 63"
  have u: "uint (of_nat k :: u64) = int k" if "k < 2 ^ 64" for k
    using that by (simp add: unsigned_of_nat take_bit_nat_eq_self)
  show ?thesis using m by (cases neg) (simp_all add: dneg_def signed_double_def u del: of_nat_add)
qed

lemma sign_abs [simp]: "\<bar>sign neg\<bar> = 1" "\<bar>sign neg * z\<bar> = \<bar>z\<bar>" "sign neg * sign neg = 1"
  by (simp_all add: sign_def)

text \<open>The sign: a magnitude that is nearest among the magnitudes is nearest among all doubles.\<close>

lemma signed_nearest:
  assumes near: "\<And>m. 0 \<le> m \<Longrightarrow> \<bar>d * R - N\<bar> \<le> \<bar>d * scaled_mag m - N\<bar>" and "0 \<le> d" and "0 \<le> N"
  shows "\<bar>d * R - N\<bar> \<le> \<bar>d * dscaled c - sign neg * N\<bar>"
proof (cases "dneg c = neg")
  case True
  then have "d * dscaled c - sign neg * N = sign neg * (d * scaled_mag (dmag c) - N)"
    by (simp add: dscaled_sign right_diff_distrib)
  then show ?thesis using near [OF dmag_nonneg] by simp
next
  case False
  then have "d * dscaled c - sign neg * N = sign (dneg c) * (d * scaled_mag (dmag c) + N)"
    by (simp add: dscaled_sign sign_def distrib_left)
  moreover have "0 \<le> d * scaled_mag (dmag c)" using assms(2) scaled_mag_bounds(3) [OF dmag_nonneg] by simp
  moreover have "\<bar>d * R - N\<bar> \<le> N" using near [of 0] assms(3) by (simp add: scaled_mag_def)
  ultimately show ?thesis using assms(3) by simp
qed

lemma finite_mag: "is_finite_double (signed_double neg m) \<longleftrightarrow> m < 0x7FF0000000000000" if "m < 2 ^ 63"
  using that by (simp add: is_finite_double_def dmag_signed_double)

lemma round_ratio_63: "round_ratio n d < 2 ^ 63"
  using round_ratio_le [of n d] by simp

lemma round_ratio_zero_or_nearest:
  assumes "0 < d" and "round_ratio n d < 0x7FF0000000000000" and "0 \<le> m"
  shows "\<bar>int d * scaled_mag (int (round_ratio n d)) - int n * 2 ^ 1074\<bar> \<le> \<bar>int d * scaled_mag m - int n * 2 ^ 1074\<bar>"
proof (cases "n = 0")
  case True
  have "round_ratio 0 d = 0" "scaled_mag 0 = 0" by (simp_all add: round_ratio_def scaled_mag_def)
  then show ?thesis by (simp add: True)
next
  case False
  then show ?thesis using round_ratio_nearest [OF _ assms] by simp
qed

lemma round_ratio_finite:
  assumes "n < 2 ^ 64 * d"
  shows "round_ratio n d < 0x7FF0000000000000"
proof (cases "n = 0")
  case True
  then show ?thesis by (simp add: round_ratio_def)
next
  case False
  have small: "k \<le> 1086 \<Longrightarrow> q \<le> 2 ^ 53 \<Longrightarrow> k * 2 ^ 52 + q < 0x7FF0000000000000" for k q :: nat by simp
  have pos: "0 < n" "0 < d" using False assms by (auto intro: gr0I)
  define e where "e = ratio_exponent n d"
  define b where "b = int (bit_length n) - int (bit_length d)"
  have "real n < 2 ^ 64 * real d"
    using assms by (simp only: of_nat_less_iff [where 'a = real, symmetric] of_nat_mult of_nat_power of_nat_numeral)
  then have "real n / real d < 2 ^ 64" using pos by (simp add: pos_divide_less_eq)
  then have "(2::real) powi (b - 1) < 2 powi 64" using ratio_bounds(1) [OF pos] by (simp add: b_def)
  then have "b - 1 < 64" using power_int_increasing [of 64 "b - 1" "2::real"] by linarith
  then have "e \<le> 12" by (simp add: e_def ratio_exponent_def Let_def b_def)
  then have "nat (e + 1074) \<le> 1086" by simp
  moreover have "round_half_even (scaled_num n e) (scaled_den d e) \<le> 2 ^ 53"
    using ratio_exponent_bounds(1) [OF pos] pos
    by (intro round_half_even_le) (simp_all add: e_def scaled_den_def less_imp_le)
  ultimately have "nat (e + 1074) * 2 ^ 52 + round_half_even (scaled_num n e) (scaled_den d e) < 0x7FF0000000000000"
    by (rule small)
  then show ?thesis
    using False unfolding round_ratio_def Let_def e_def by (simp only: if_False min_less_iff_disj simp_thms)
qed

lemma int64_conversion_nearest:
  "\<bar>dscaled (double_of_int64 w) - sint w * 2 ^ 1074\<bar> \<le> \<bar>dscaled c - sint w * 2 ^ 1074\<bar>"
proof -
  let ?n = "nat \<bar>sint w\<bar>" and ?neg = "sint w < 0"
  let ?R = "scaled_mag (int (round_ratio ?n 1))" and ?N = "int ?n * 2 ^ 1074"
  have "\<bar>sint w\<bar> < 2 ^ 64" using sint_range_size [of w] by (auto simp: word_size abs_less_iff)
  then have fin: "round_ratio ?n 1 < 0x7FF0000000000000" by (intro round_ratio_finite) simp
  have s: "sint w * 2 ^ 1074 = sign ?neg * ?N" by (simp add: sign_def)
  have r: "dscaled (double_of_int64 w) = sign ?neg * ?R"
    unfolding double_of_int64_def dscaled_sign
    by (simp only: dmag_signed_double [OF round_ratio_63] dneg_signed_double [OF round_ratio_63])
  have "\<bar>1 * ?R - ?N\<bar> \<le> \<bar>1 * dscaled c - sign ?neg * ?N\<bar>"
    by (rule signed_nearest) (use round_ratio_zero_or_nearest [OF _ fin] in simp_all)
  then show ?thesis unfolding s r right_diff_distrib [symmetric] sign_abs by simp
qed

lemma double_div_finite:
  assumes "is_finite_double a" and "is_finite_double b" and "dscaled b \<noteq> 0"
  shows "double_div a b =
    signed_double (dneg a \<noteq> dneg b) (round_ratio (nat (scaled_mag (dmag a))) (nat (scaled_mag (dmag b))))"
proof -
  have "dmag b \<noteq> 0" using assms(3) by (auto simp: dscaled_sign scaled_mag_def)
  then show ?thesis
    using assms(1,2) by (simp add: double_div_def is_finite_double_def is_nan_def is_infinite_double_def)
qed

lemma sign_diff:
  "\<bar>sign p * d * x - sign q * n * w\<bar> = \<bar>d * x - sign (q \<noteq> p) * (n * w)\<bar>"
proof -
  have "sign p * d * x - sign q * n * w = sign p * (d * x - sign (q \<noteq> p) * (n * w))"
    by (simp add: sign_def algebra_simps)
  then show ?thesis by simp
qed

lemma sign_diff_same: "\<bar>d * (sign p * x) - sign p * y\<bar> = \<bar>d * x - y\<bar>"
proof -
  have "d * (sign p * x) - sign p * y = sign p * (d * x - y)" by (simp add: sign_def algebra_simps)
  then show ?thesis by simp
qed

lemma division_nearest:
  assumes a: "is_finite_double a" and b: "is_finite_double b" "dscaled b \<noteq> 0"
    and fin: "is_finite_double (double_div a b)"
  shows "\<bar>dscaled b * dscaled (double_div a b) - dscaled a * 2 ^ 1074\<bar> \<le>
    \<bar>dscaled b * dscaled c - dscaled a * 2 ^ 1074\<bar>"
proof -
  define n d where "n = scaled_mag (dmag a)" and "d = scaled_mag (dmag b)"
  define R where "R = scaled_mag (int (round_ratio (nat n) (nat d)))"
  define sa sb where "sa = sign (dneg a)" and "sb = sign (dneg b)"
  have nn: "0 \<le> n" "0 \<le> d" using scaled_mag_bounds(3) [OF dmag_nonneg] by (simp_all add: n_def d_def)
  have d: "0 < d" using b(2) nn(2) by (auto simp: dscaled_sign d_def)
  note div = double_div_finite [OF a b, folded n_def d_def]
  have less: "round_ratio (nat n) (nat d) < 0x7FF0000000000000"
    using fin unfolding div finite_mag [OF round_ratio_63] .
  have ab: "dscaled a = sa * n" "dscaled b = sb * d" by (simp_all only: dscaled_sign n_def d_def sa_def sb_def)
  have res: "dscaled (double_div a b) = sign (dneg a \<noteq> dneg b) * R"
    unfolding div dscaled_sign R_def
    by (simp only: dmag_signed_double [OF round_ratio_63] dneg_signed_double [OF round_ratio_63])
  have near: "\<bar>d * R - n * 2 ^ 1074\<bar> \<le> \<bar>d * scaled_mag m - n * 2 ^ 1074\<bar>" if "0 \<le> m" for m
    using round_ratio_zero_or_nearest [OF _ less that] d nn by (simp only: R_def zero_less_nat_eq int_nat_eq if_True)
  have nonneg: "0 \<le> n * 2 ^ 1074" by (rule mult_nonneg_nonneg [OF nn(1)]) simp
  show ?thesis
    unfolding ab res sa_def sb_def sign_diff sign_diff_same by (rule signed_nearest [OF near nn(2) nonneg])
qed
lemma finite_int64: "is_finite_double (double_of_int64 w)"
proof -
  have "\<bar>sint w\<bar> < 2 ^ 64" using sint_range_size [of w] by (auto simp: word_size abs_less_iff)
  then show ?thesis
    unfolding double_of_int64_def finite_mag [OF round_ratio_63] by (intro round_ratio_finite) simp
qed

lemma double_div_is_finite:
  assumes "is_finite_double a" and "is_finite_double b" and "dscaled b \<noteq> 0"
    and "nat (scaled_mag (dmag a)) < 2 ^ 64 * nat (scaled_mag (dmag b))"
  shows "is_finite_double (double_div a b)"
  unfolding double_div_finite [OF assms(1-3)] finite_mag [OF round_ratio_63]
  by (rule round_ratio_finite [OF assms(4)])

end
