(* ===== verification/Metrics_Theorems.thy ===== *)
theory Metrics_Theorems
  imports Metrics IEEE_Rounding
begin

text \<open>The rate that \<open>Metrics::snapshot\<close> reports is as exact as a \<open>double\<close> can be.\<close>

lemma positive_dscaled:
  assumes "double_zero < d"
  shows "0 < dscaled d"
proof -
  have m: "0 < dkey d" using assms by (simp add: less_double_def dkey_def double_zero_def dneg_def dmag_def)
  then have p: "\<not> dneg d" "0 < dmag d" by (auto simp: dkey_def dmag_def split: if_splits)
  have "scaled_mag 0 < scaled_mag (dmag d)" by (rule scaled_mag_strict_mono) (use p in simp_all)
  then show ?thesis using p by (simp add: dscaled_def scaled_mag_def)
qed

text \<open>
  C40: the orders per second of a metrics snapshot are correctly rounded. The number of orders is
  converted to the \<open>double\<close> nearest to it, and the rate, when it is finite, is the \<open>double\<close> nearest to
  the quotient of that and the elapsed seconds: no finite \<open>double\<close> is nearer. (All values are scaled
  by \<open>2 ^ 1074\<close>, and the quotients by the seconds.)
\<close>

theorem rate_rounds_correctly:
  fixes m :: metrics and c secs :: double
  defines "orders \<equiv> double_of_int64 (ordersProcessed m)"
    and "rate \<equiv> md_ordersPerSecond (metrics_snapshot secs m)"
  assumes "is_finite_double secs" and "double_zero < secs" and "is_finite_double rate" and "is_finite_double c"
  shows "\<bar>dscaled orders - sint (ordersProcessed m) * 2 ^ 1074\<bar> \<le> \<bar>dscaled c - sint (ordersProcessed m) * 2 ^ 1074\<bar> \<and>
    \<bar>dscaled secs * dscaled rate - dscaled orders * 2 ^ 1074\<bar> \<le>
      \<bar>dscaled secs * dscaled c - dscaled orders * 2 ^ 1074\<bar>"
proof
  have rate: "rate = double_div orders secs"
    using assms(4) by (simp add: rate_def orders_def metrics_snapshot_def)
  have "is_finite_double orders"
    unfolding orders_def by (rule finite_int64)
  then show "\<bar>dscaled secs * dscaled rate - dscaled orders * 2 ^ 1074\<bar> \<le>
      \<bar>dscaled secs * dscaled c - dscaled orders * 2 ^ 1074\<bar>"
    using division_nearest [of orders secs c] assms(3,5) positive_dscaled [OF assms(4)] unfolding rate by simp
  show "\<bar>dscaled orders - sint (ordersProcessed m) * 2 ^ 1074\<bar> \<le> \<bar>dscaled c - sint (ordersProcessed m) * 2 ^ 1074\<bar>"
    unfolding orders_def by (rule int64_conversion_nearest)
qed

theorem rate_rounds_correctly_witness:
  "\<bar>dscaled (double_of_int64 1) - sint (1 :: i64) * 2 ^ 1074\<bar> \<le> \<bar>dscaled double_zero - sint (1 :: i64) * 2 ^ 1074\<bar>"
proof -
  let ?m = "recordOrder initial_metrics" and ?secs = "Double 0x4059000000000000"
  have one: "ordersProcessed ?m = 1" by (simp add: recordOrder_def initial_metrics_def)
  have secs: "double_zero < ?secs" "is_finite_double ?secs" "is_finite_double double_zero"
    by (simp_all add: less_double_def double_zero_def dkey_def dneg_def dmag_def not_nan_def is_nan_def is_finite_double_def)
  have mag: "dmag (double_of_int64 1) = 0x3FF0000000000000"
    unfolding double_of_int64_def dmag_signed_double [OF round_ratio_63]
    by (simp add: round_ratio_def ratio_exponent_def scaled_num_def scaled_den_def bit_length.simps
        round_half_even_def Let_def)
  have "is_finite_double (md_ordersPerSecond (metrics_snapshot ?secs ?m))"
    using secs positive_dscaled [OF secs(1)] mag one
    by (auto simp: metrics_snapshot_def scaled_mag_def dmag_def intro!: double_div_is_finite finite_int64)
  then show ?thesis
    using rate_rounds_correctly [of ?secs ?m double_zero] secs unfolding one by blast
qed

end
