(* ===== verification/Spec2Isabelle.thy ===== *)
theory Spec2Isabelle
  imports Concurrent_Answers Concurrent_Books Concurrent_Delivery Server_Main Metrics_Theorems
begin

text \<open>
  FinTora is a trading server: a matching engine for limit and market orders on one order book
  (\<open>src/engine\<close>) behind a WebSocket server with a JSON protocol (\<open>src/server\<close>). This development
  models both in full detail, from the price levels of the book up to the event loop, and proves
  what makes them correct.

  The program. \<open>main\<close> reads a port and runs \<open>Server\<close>, which accepts connections. Each connection
  is a \<open>WebSocketSession\<close>, registered with the \<open>ClientManager\<close>. A text message goes to
  \<open>RequestHandler::handle\<close>, which reads it with \<open>Protocol\<close>, calls \<open>EngineAdapter\<close> under
  \<open>engineMutex_\<close>, counts in \<open>Metrics\<close>, and returns a direct response for the sender and broadcasts
  for all clients. \<open>EngineAdapter\<close> gives orders their ids, calls \<open>MatchingEngine\<close> and derives a
  result from the event stream it returns. \<open>MatchingEngine::placeOrder\<close> trades the incoming order
  against the best orders of the other side of the \<open>OrderBook\<close> until nothing crosses, and lets the
  rest of a limit order rest.

  The theories, in the order of their imports:

    \<^item> \<open>Prelude\<close>: the machine integers as words, the collections of rewrite rules, lemmas on lists.
      \<open>IEEE_Double\<close>: a \<open>double\<close> as its 64 bits, with the comparisons of C++ and the proof that
      they compare the denoted numbers. \<open>Ordered_Map\<close>: \<open>std::map\<close> with a comparator, and the
      locale \<open>ranked_compare\<close>, which is the contract of a comparator; it is interpreted for
      \<open>std::less\<close> and \<open>std::greater\<close>.
    \<^item> \<open>Order_Types\<close>, \<open>Order_Book\<close>: the data of \<open>engine/include\<close> and every operation of
      \<open>OrderBook.cpp\<close>. A list node has an address, so that the iterators kept in
      \<open>orderLocations_\<close> are modelled; using one that is not valid is \<open>None\<close>. \<open>Book_Side\<close> proves
      one side of the book in the locale \<open>price_side\<close>, interpreted for bids and asks;
      \<open>Book_Invariant\<close> is the invariant \<open>book_wf\<close> and what each operation does to the two queues;
      \<open>Book_Depth\<close> the aggregated depth.
    \<^item> \<open>Matching_Engine\<close>: \<open>MatchingEngine.cpp\<close>, the loop of \<open>placeOrder\<close> as a terminating function.
      \<open>Matching_Spec\<close>: price-time priority matching on queues, the abstract specification.
      \<open>Matching_Correct\<close>: the loop implements it, proved once in the locale \<open>matching_side\<close>,
      interpreted for the BUY and the SELL branch. \<open>Engine_Invariant\<close>, \<open>Samples\<close>,
      \<open>Engine_Theorems\<close>: reachable engines, concrete ones, and the properties of the engine.
    \<^item> \<open>Protocol_Types\<close>, \<open>Engine_Adapter\<close>, \<open>Adapter_Correct\<close>, \<open>Adapter_Theorems\<close>:
      \<open>EngineAdapter.cpp\<close>, its results and snapshots.
    \<^item> \<open>IEEE_Arith\<close>, \<open>IEEE_Rounding\<close>, \<open>Metrics\<close>, \<open>Metrics_Theorems\<close>: the conversion and the division
      of the metrics' rate, their correct rounding, and \<open>Metrics.cpp\<close>.
    \<^item> \<open>Protocol\<close>, \<open>Sample_Json\<close>, \<open>Protocol_Theorems\<close>: \<open>Protocol.cpp\<close> over a JSON library that is a
      parameter (the record \<open>json_lib\<close>), and a concrete library for the witnesses.
    \<^item> \<open>Request_Handler\<close>, \<open>Handler_Correct\<close>, \<open>Handler_Theorems\<close>: \<open>RequestHandler.cpp\<close>, the split of
      a request into reading and serving, and the agreement of the metrics with the engine.
    \<^item> \<open>WebSocket_Session\<close>, \<open>Server_Loop\<close>, \<open>Session_Correct\<close>, \<open>Loop_Correct\<close>, \<open>Loop_Theorems\<close>:
      \<open>WebSocketSession.cpp\<close>, \<open>ClientManager.cpp\<close> and \<open>Server.cpp\<close> as a step function on the events
      of the loop, with the invariant of all reachable states.
    \<^item> \<open>Interleaving\<close>, \<open>Interleaving_Correct\<close>, \<open>Interleaving_Theorems\<close>: the requests of several
      sessions at the same time, one access to engine or metrics a step, with \<open>engineMutex_\<close>.
    \<^item> \<open>Concurrent_Server\<close>: the whole server on the threads of \<open>Server::run\<close>. The handlers of the
      sessions (\<open>onAccept\<close>, \<open>onRead\<close> with the request handler, \<open>disconnect\<close>) run side by side and
      interleave at every access to the client manager, the engine, the metrics and the sessions.
      \<open>Concurrent_Correct\<close> is its invariant, \<open>Concurrent_Simulation\<close> the simulation by the
      interleaved requests, \<open>Concurrent_Safety\<close> which of its steps are defined,
      \<open>Concurrent_Theorems\<close> its properties, \<open>Concurrent_Runs\<close> the runs of one
      handler at a time, which are the steps of \<open>Server_Loop\<close>, \<open>Concurrent_Answers\<close> what a request
      is answered while others are served, \<open>Concurrent_Books\<close> the order books clients see,
      \<open>Concurrent_Types\<close> the types of what they are sent, \<open>Concurrent_Delivery\<close> the emptying of the
      write queues.
    \<^item> \<open>Server_Main\<close>: the command line and the exit code of \<open>main.cpp\<close>.

  How the model corresponds to the code. A class is a record of its members and an operation a
  function that returns the changed record. A mutex that a whole operation holds makes the
  operation one step. Members that a default constructor leaves uninitialised (those of \<open>Event\<close>)
  are \<open>None\<close> until they are set. \<open>None\<close> as a result is undefined behaviour: an invalid iterator, an
  uninitialised field, the overflow of a signed integer (the order id, the remaining quantity of the
  adapter), a contract of Boost.Beast that is broken, a double that \<open>get<std::int64_t>()\<close> cannot
  convert. An exception is \<open>Inl\<close>; while a request is read, undefined behaviour is the value
  \<open>Inl Undefined\<close>, which no handler catches and which \<open>handle\<close> turns into \<open>None\<close>. Unsigned integers
  are 64-bit words, with the wrap-around of the code. The clocks (of the order's timestamp, of the
  metrics) are arguments.

  Concurrency. A session is a strand: at most one of its handlers runs at a time. A mutex is taken
  with the first access it protects and released with the last, so a section of one access is one
  step; the section of \<open>engineMutex_\<close> is three (the call of the engine, the count, its storing), and
  \<open>world_enabled\<close> lets nobody else begin one meanwhile, while readers of the book and the metrics,
  who do not take that mutex, go on.

  What the properties show. The engine: \<open>placeOrder\<close> refines the specification (C1) and the book
  stays well formed and uncrossed (C2, C3); quantities are conserved, priority and limit prices are
  kept, no match is missed, the loop ends (C4 to C8); cancelling, resting and the event stream (C27
  to C29, C37). The adapter: its results, ids and snapshots are exact, and its operations defined (C9,
  C16, C31, C33, C36). The requests: what each answers and broadcasts (C10, C24 to C26, C30, C34,
  C35, C38), the one undefined conversion in reading them (C32), the rate of the metrics (C40).
  The server: on any number of threads every client is written its messages in order, all of them,
  and well typed (C11, C12, C23); no step is undefined but that conversion, the client manager is
  right, and every handler can finish (C13, C14, C22); each request takes effect in one step and is
  answered accordingly (C17); engine and metrics are those of
  interleaved requests (C18, C21); the event loop with one handler at a time is one of the
  schedules (C20), so that who is sent what (C15) is behaviour of the server too; there are runs
  that leave clients with an old order book (C19). The command line (C39).

  Assumptions. The JSON library is assumed to do what its documentation says, by the named
  predicates of \<open>Protocol\<close>, \<open>Session_Correct\<close> and \<open>Concurrent_Safety\<close>: \<open>json_getters\<close> (\<open>get<T>()\<close>
  does not throw on a value of the kind that was tested; of a number, \<open>get<std::int64_t>()\<close> may be
  undefined), \<open>json_no_nan\<close> (parsed JSON holds no NaN), \<open>json_objects\<close> (the members of an object that
  was built are read back), \<open>json_dumps\<close> (\<open>dump()\<close> does not throw: the messages are UTF-8). That no
  step of the server is undefined (C13) does not rest on \<open>json_dumps\<close>, but on \<open>json_dumps_ascii\<close>
  (\<open>dump()\<close> does not throw on objects of ASCII strings) and \<open>json_texts\<close> (the exceptions of the
  library have ASCII texts). \<open>Sample_Json\<close> satisfies the first four, and \<open>strict_json\<close>, whose printer
  throws on what is not ASCII, those of C13 but not \<open>json_dumps\<close>. Each property names those it uses.

  Bounds. No model uses fuel: the loop of \<open>placeOrder\<close> ends by the measure \<open>loop_measure\<close> (the
  resting orders of the other side, and one while the incoming order has quantity left), every
  other loop recurses over a list. \<open>run_task\<close> and \<open>bounded_loop\<close> count steps to state how many are
  enough; a running handler of the concurrent server comes nearer to its end with every step by
  the measure \<open>job_rank\<close>. For quantities that are not negative, which the validation ensures, adapter
  operations are defined until the signed 64-bit counter of order ids is at its maximum.

  Not modelled. Boost.Asio and Boost.Beast, of which the event loop keeps only what was started and
  may complete (handshake, one read, one write, posted handlers; \<open>enabled\<close>); the sockets, the
  options of the WebSocket handshake and the reading buffer; the start and the end of threads and
  the delivery of signals (\<open>Server::stop\<close> is the event \<open>Stop\<close>, after which no handler starts); log
  output; the memory of closed sessions. The steps of the threads are sequentially consistent,
  although the counters of the metrics are accessed with relaxed ordering, and a \<open>send\<close> to another
  session is one step. \<open>nlohmann/json\<close> is the parameter described above.
  The response structs of \<open>Protocol.hpp\<close> that no code uses, the React client, the test programs and
  the files CMake generated are left out. \<open>Order.cpp\<close> and \<open>Trade.cpp\<close> contain no code.
\<close>

end
